(* ===== verification/Prelude.thy ===== *)
theory Prelude
  imports Main "HOL-Library.Word"
begin

unbundle bit_operations_syntax

section \<open>Shared types, machine integers and generic lemmas\<close>

text \<open>
  What every component of the kit shares: the names of the machine integers, the error codes of
  \<^verbatim>\<open>include/adk/error_code.h\<close>, the outcome of a call that may spin forever, fail an
  \<^verbatim>\<open>assert\<close> or step outside the language, the power-of-two helpers of
  \<^verbatim>\<open>include/adk/arch/generic.h\<close>, and the lemmas on words, ring indices and list updates
  that the component proofs rewrite with.
\<close>

type_synonym u16 = "16 word"
type_synonym u32 = "32 word"
type_synonym u64 = "64 word"

text \<open>The error codes, in the order of the enumeration.\<close>

datatype ErrorCode =
    kSuccess
  | kFailure
  | kQueueEmpty
  | kMemPoolIndexError
  | kMemPoolDoubleDelete
  | kWouldblock
  | kInvalidParameters
  | kQueueFull
  | kInvalidInvoke
  | kCreateLockFileDirFaild
  | kOutOfRange
  | kNoMemory
  | kDuplicatedOption
  | kInvalidOptionName
  | kThreadException
  | kUnknownMessge
  | kDefaultGateway
  | kTryAgain
  | kKeyNotExist

text \<open>
  The outcome of a call: it returns a value, it never returns when no other thread moves, an
  \<^verbatim>\<open>assert\<close> of the source fails, or the call does something the language leaves undefined
  (a read outside an array, a shift by the width of its operand).
\<close>

datatype 'a run = Ret 'a | Hang | AssertFail | Undef

primrec rbind :: "'a run \<Rightarrow> ('a \<Rightarrow> 'b run) \<Rightarrow> 'b run" where
  "rbind (Ret x) f = f x"
| "rbind Hang f = Hang"
| "rbind AssertFail f = AssertFail"
| "rbind Undef f = Undef"

definition rassert :: "bool \<Rightarrow> 'a run \<Rightarrow> 'a run" where
  "rassert b r = (if b then r else AssertFail)"

text \<open>An array read and write: outside the array the behaviour is undefined.\<close>

definition aget :: "'a list \<Rightarrow> nat \<Rightarrow> 'a run" where
  "aget xs i = (if i < length xs then Ret (xs ! i) else Undef)"

definition aset :: "'a list \<Rightarrow> nat \<Rightarrow> 'a \<Rightarrow> 'a list run" where
  "aset xs i v = (if i < length xs then Ret (xs[i := v]) else Undef)"

section \<open>Powers of two\<close>

text \<open>\<^verbatim>\<open>ADK_ROUND_TO_POWER_OF_2\<close>: decrement, smear the highest bit to the right, increment.\<close>

definition smear_step :: "nat \<Rightarrow> u32 \<Rightarrow> u32" where
  "smear_step n v = v OR drop_bit n v"

definition RoundToPowerOf2 :: "u32 \<Rightarrow> u32" where
  "RoundToPowerOf2 v =
     (let v0 = v - 1;
          v1 = smear_step 1 v0;
          v2 = smear_step 2 v1;
          v3 = smear_step 4 v2;
          v4 = smear_step 8 v3;
          v5 = smear_step 16 v4
      in v5 + 1)"

text \<open>
  \<^verbatim>\<open>GetBits\<close>: count up until \<^verbatim>\<open>1 << bits\<close> reaches the value. Past bit 31 the shift itself is
  undefined, so the loop has an undefined outcome there.
\<close>

function GetBits_from :: "nat \<Rightarrow> u32 \<Rightarrow> nat run" where
  "GetBits_from bits value =
     (if 32 \<le> bits then Undef
      else if push_bit bits 1 < value then GetBits_from (Suc bits) value
      else Ret bits)"
  by pat_completeness auto
termination
  by (relation "measure (\<lambda>(bits, value). 32 - bits)") auto

declare GetBits_from.simps [simp del]

definition GetBits :: "u32 \<Rightarrow> nat run" where
  "GetBits value = GetBits_from 0 value"

text \<open>\<^verbatim>\<open>ADK_ROUND_UP(x, y)\<close> at 64 bits.\<close>

definition ADK_ROUND_UP :: "u64 \<Rightarrow> u64 \<Rightarrow> u64" where
  "ADK_ROUND_UP x y = ((x + (y - 1)) div y) * y"

section \<open>Lemma collections\<close>

named_theorems run_simps \<open>unfolding the outcome combinators\<close>
named_theorems cursor_simps \<open>words of the ring cursors read as naturals\<close>

lemma rbind_Ret_iff:
  "rbind r f = Ret y \<longleftrightarrow> (\<exists>x. r = Ret x \<and> f x = Ret y)"
  by (cases r) simp_all

lemma rbind_cong [fundef_cong]:
  "r = r' \<Longrightarrow> (\<And>x. r' = Ret x \<Longrightarrow> f x = g x) \<Longrightarrow> rbind r f = rbind r' g"
  by (cases r') simp_all

lemma rassert_True [simp, run_simps]: "rassert True r = r"
  by (simp add: rassert_def)

lemma rassert_False [simp, run_simps]: "rassert False r = AssertFail"
  by (simp add: rassert_def)

lemma rassert_Ret_iff: "rassert b r = Ret y \<longleftrightarrow> b \<and> r = Ret y"
  by (simp add: rassert_def)

lemma aget_in [simp, run_simps]: "i < length xs \<Longrightarrow> aget xs i = Ret (xs ! i)"
  by (simp add: aget_def)

lemma aset_in [simp, run_simps]: "i < length xs \<Longrightarrow> aset xs i v = Ret (xs[i := v])"
  by (simp add: aset_def)

declare rbind.simps [run_simps]

section \<open>Words read as naturals\<close>

lemma unat_inc64 [cursor_simps]:
  "unat (x::u64) + 1 < 2 ^ 64 \<Longrightarrow> unat (x + 1) = unat x + 1"
  by (simp add: unat_word_ariths)

lemma unat_add64 [cursor_simps]:
  "unat (x::u64) + unat y < 2 ^ 64 \<Longrightarrow> unat (x + y) = unat x + unat y"
  by (simp add: unat_word_ariths)

lemma unat_sub64 [cursor_simps]:
  "unat (y::u64) \<le> unat x \<Longrightarrow> unat (x - y) = unat x - unat y"
  by (simp add: unat_sub word_le_nat_alt)

text \<open>A mask of the form \<open>2 ^ k - 1\<close> keeps the low bits: the ring index is the cursor modulo the size.\<close>

lemma unat_and_pow2_mask:
  fixes x :: "'w::len word"
  assumes "k < LENGTH('w)"
  shows "unat (x AND (2 ^ k - 1)) = unat x mod 2 ^ k"
proof -
  have "x AND (2 ^ k - 1) = take_bit k x"
    by (simp add: take_bit_eq_mask mask_eq_exp_minus_1)
  then show ?thesis
    by (metis unsigned_take_bit_eq take_bit_eq_mod)
qed

lemma unat_pow2 [simp]:
  assumes "k < LENGTH('w::len)"
  shows "unat (2 ^ k :: 'w word) = 2 ^ k"
proof -
  have "(2 ^ k :: 'w word) = word_of_nat (2 ^ k)"
    by simp
  then have "unat (2 ^ k :: 'w word) = 2 ^ k mod 2 ^ LENGTH('w)"
    by (metis unat_of_nat)
  moreover have "(2::nat) ^ k < 2 ^ LENGTH('w)"
    using assms by simp
  ultimately show ?thesis
    by simp
qed

lemma unat_ucast_32_64 [simp, cursor_simps]: "unat (ucast (x::u32) :: u64) = unat x"
proof -
  have "unat x < 2 ^ 32"
    using unsigned_less [of x] by simp
  then show ?thesis
    by (simp add: unsigned_ucast_eq take_bit_nat_eq_self)
qed

lemma unat_pow2_minus_1:
  assumes "k < LENGTH('w::len)"
  shows "unat (2 ^ k - 1 :: 'w word) = 2 ^ k - 1"
proof -
  have "unat (2 ^ k :: 'w word) = 2 ^ k"
    using assms by (rule unat_pow2)
  moreover from this have "(2 ^ k :: 'w word) \<noteq> 0"
    by (metis power_not_zero unsigned_0 zero_neq_numeral)
  then have "unat (2 ^ k - 1 :: 'w word) = unat (2 ^ k :: 'w word) - 1"
    by (rule unat_minus_one)
  ultimately show ?thesis
    by simp
qed

lemma unat_less64: "unat (x::u64) < 2 ^ 64"
proof -
  have "unat x < 2 ^ LENGTH(64)" by (rule unsigned_less)
  then show ?thesis by simp
qed

lemma unat_of_nat64 [cursor_simps]: "i < 2 ^ 64 \<Longrightarrow> unat (of_nat i :: u64) = i"
  by (simp add: unat_of_nat)

lemma unat_of_nat32: "n < 2 ^ 32 \<Longrightarrow> unat (of_nat n :: u32) = n"
  by (simp add: unat_of_nat take_bit_eq_mod)

lemma unat_Suc32: "unat (w :: u32) + 1 < 2 ^ 32 \<Longrightarrow> unat (w + 1) = unat w + 1"
  using unat_of_nat32 [of "unat w + 1"] by (simp add: add.commute)

lemma unat_minus64:
  assumes "0 < i" "i < 2 ^ 64"
  shows "unat (- (of_nat i :: u64)) = 2 ^ 64 - i"
proof -
  have "(of_nat (2 ^ 64 - i) :: u64) + of_nat i = of_nat (2 ^ 64)"
    using assms by (metis le_add_diff_inverse2 less_imp_le of_nat_add)
  also have "\<dots> = 0" by simp
  finally have "- (of_nat i :: u64) = of_nat (2 ^ 64 - i)"
    by (metis add.commute minus_unique)
  moreover have "unat (of_nat (2 ^ 64 - i) :: u64) = 2 ^ 64 - i"
    by (rule unat_of_nat64) (use assms in simp)
  ultimately show ?thesis by (simp only:)
qed

section \<open>Ring slots\<close>

text \<open>Two cursors less than one ring apart never share a slot.\<close>

lemma mod_neq_window:
  fixes i j n :: nat
  assumes "i < j" "j < i + n"
  shows "i mod n \<noteq> j mod n"
proof
  assume "i mod n = j mod n"
  then have "n dvd j - i"
    using assms(1) by (metis less_imp_le_nat mod_eq_dvd_iff_nat)
  moreover have "0 < j - i" and "j - i < n"
    using assms by simp_all
  ultimately show False
    by (meson dvd_imp_le not_less)
qed

lemma mod_eq_window_iff:
  fixes i j a n :: nat
  assumes "a \<le> i" "i < a + n" "a \<le> j" "j < a + n"
  shows "i mod n = j mod n \<longleftrightarrow> i = j"
proof (cases i j rule: linorder_cases)
  case less
  with assms have "j < i + n" by simp
  with less show ?thesis using mod_neq_window [of i j n] by simp
next
  case greater
  with assms have "i < j + n" by simp
  with greater show ?thesis using mod_neq_window [of j i n] by fastforce
qed simp

lemma map_ring_update:
  assumes "\<And>i. i \<in> set is \<Longrightarrow> i mod n \<noteq> k"
  shows "map (\<lambda>i. f (xs[k := v] ! (i mod n))) is = map (\<lambda>i. f (xs ! (i mod n))) is"
  using assms by (intro map_cong) (auto, metis nth_list_update_neq)

section \<open>Rounding to a power of two\<close>

lemma bit_smear_step:
  "bit (smear_step n v) i \<longleftrightarrow> bit v i \<or> bit v (n + i)"
  by (simp add: smear_step_def bit_or_iff bit_drop_bit_eq)

lemma bit_smear_all:
  fixes v :: u32
  defines "s \<equiv> smear_step 16 (smear_step 8 (smear_step 4 (smear_step 2 (smear_step 1 v))))"
  shows "bit s i \<longleftrightarrow> (\<exists>d < 32. bit v (i + d))"
proof -
  have expand: "(\<exists>d < 2 * n. P d) \<longleftrightarrow> (\<exists>d < n. P d) \<or> (\<exists>d < n. P (n + d))" for P and n :: nat
    by (metis add_less_mono1 le_add_diff_inverse mult_2 nat_add_left_cancel_less not_le_imp_less
        trans_less_add1)
  have double: "bit (smear_step n w) i \<longleftrightarrow> (\<exists>d < 2 * n. bit v (i + d))"
    if "\<And>i. bit w i \<longleftrightarrow> (\<exists>d < n. bit v (i + d))" for n i and w :: u32
    using expand [of n "\<lambda>d. bit v (i + d)"] by (simp only: bit_smear_step that ac_simps)
  have zero: "bit v i \<longleftrightarrow> (\<exists>d < 1. bit v (i + d))" for i
    by simp
  note s1 = double [OF zero]
  note s2 = double [OF s1]
  note s4 = double [OF s2]
  note s8 = double [OF s4]
  note s16 = double [OF s8]
  show ?thesis
    using s16 by (simp add: s_def)
qed


text \<open>The smeared word has exactly the bits below the highest bit of its argument.\<close>

lemma smear_eq_mask:
  fixes v :: u32
  assumes upper: "unat v < 2 ^ k" and lower: "k = 0 \<or> 2 ^ (k - 1) \<le> unat v" and k: "k \<le> 32"
  shows "smear_step 16 (smear_step 8 (smear_step 4 (smear_step 2 (smear_step 1 v)))) = mask k"
    (is "?s = _")
proof (rule bit_word_eqI)
  fix i :: nat
  assume i: "i < LENGTH(32)"
  have low: "\<not> bit v j" if "k \<le> j" for j
  proof -
    have "unat v < 2 ^ j"
      using upper that by (meson less_le_trans one_le_numeral power_increasing)
    then have "\<not> bit (unat v) j"
      by (simp add: bit_iff_odd)
    then show ?thesis
      by (simp add: bit_unsigned_iff)
  qed
  have high: "bit v (k - 1)" if "k \<noteq> 0"
  proof -
    have "unat v div 2 ^ (k - 1) = 1"
    proof (rule div_nat_eqI)
      show "2 ^ (k - 1) * 1 \<le> unat v" using lower that by simp
      show "unat v < 2 ^ (k - 1) * Suc 1"
        using upper that by (metis mult.commute numeral_2_eq_2 One_nat_def power_minus_mult neq0_conv)
    qed
    then have "bit (unat v) (k - 1)"
      by (simp add: bit_iff_odd)
    then show ?thesis
      by (simp add: bit_unsigned_iff)
  qed
  have "bit ?s i \<longleftrightarrow> (\<exists>d < 32. bit v (i + d))"
    by (rule bit_smear_all)
  also have "\<dots> \<longleftrightarrow> i < k"
  proof
    assume "\<exists>d < 32. bit v (i + d)"
    then obtain d where "bit v (i + d)" by blast
    with low have "\<not> k \<le> i + d" by blast
    then show "i < k" by simp
  next
    assume ik: "i < k"
    then have "bit v (i + (k - 1 - i))"
      using high by simp
    moreover have "k - 1 - i < 32"
      using ik k by simp
    ultimately show "\<exists>d < 32. bit v (i + d)"
      by blast
  qed
  finally show "bit ?s i \<longleftrightarrow> bit (mask k :: u32) i"
    using i by (simp add: bit_mask_iff)
qed

text \<open>Between two powers of two the macro returns the upper one (and 0 when that is \<open>2 ^ 32\<close>).\<close>

lemma RoundToPowerOf2_eq:
  assumes "unat v \<le> 2 ^ k" and "k = 0 \<or> 2 ^ (k - 1) < unat v" and "k \<le> 32" and "0 < unat v"
  shows "RoundToPowerOf2 v = 2 ^ k"
proof -
  have m: "unat (v - 1) = unat v - 1"
    using assms(4) by (simp add: unat_minus_one unat_gt_0)
  have "smear_step 16 (smear_step 8 (smear_step 4 (smear_step 2 (smear_step 1 (v - 1))))) = mask k"
    using assms m by (intro smear_eq_mask) auto
  then show ?thesis
    by (simp add: RoundToPowerOf2_def Let_def mask_eq_exp_minus_1)
qed

lemma ex_pow2_bracket:
  assumes "0 < (n::nat)"
  shows "\<exists>k. n \<le> 2 ^ k \<and> (k = 0 \<or> 2 ^ (k - 1) < n)"
proof -
  define k where "k = (LEAST k. n \<le> 2 ^ k)"
  have ge: "n \<le> 2 ^ k"
    unfolding k_def by (rule LeastI [of _ n]) (simp add: less_imp_le)
  moreover have "k = 0 \<or> 2 ^ (k - 1) < n"
  proof (cases k)
    case (Suc j)
    then have "\<not> n \<le> 2 ^ j"
      using not_less_Least [of j "\<lambda>k. n \<le> 2 ^ k"] k_def by simp
    with Suc show ?thesis by simp
  qed simp
  ultimately show ?thesis by blast
qed

lemma pow2_bracket_le:
  assumes "k = 0 \<or> (2::nat) ^ (k - 1) < n" and "n \<le> 2 ^ m"
  shows "k \<le> m"
proof (rule ccontr)
  assume "\<not> k \<le> m"
  then have "m \<le> k - 1" and "k \<noteq> 0" by simp_all
  then have "(2::nat) ^ m \<le> 2 ^ (k - 1)" by (intro power_increasing) auto
  with assms \<open>k \<noteq> 0\<close> show False by linarith
qed

lemma RoundToPowerOf2_obtain:
  assumes "0 < unat v" and "unat v \<le> 2 ^ 31"
  obtains k where "k \<le> 31" and "RoundToPowerOf2 v = 2 ^ k" and "unat v \<le> 2 ^ k"
    and "k = 0 \<or> 2 ^ (k - 1) < unat v"
proof -
  obtain k where k: "unat v \<le> 2 ^ k" "k = 0 \<or> 2 ^ (k - 1) < unat v"
    using ex_pow2_bracket [OF assms(1)] by blast
  have "k \<le> 31"
    using pow2_bracket_le [OF k(2) assms(2)] .
  moreover from this have "RoundToPowerOf2 v = 2 ^ k"
    using RoundToPowerOf2_eq [OF k] assms(1) by simp
  ultimately show thesis
    using that k by blast
qed

lemma GetBits_from_eq:
  assumes "bits \<le> k" and "k \<le> 31" and "unat v \<le> 2 ^ k" and "k = 0 \<or> 2 ^ (k - 1) < unat v"
  shows "GetBits_from bits v = Ret k"
  using assms(1)
proof (induction "k - bits" arbitrary: bits)
  case 0
  then have "bits = k" by simp
  moreover have "\<not> push_bit k (1::u32) < v"
    using assms(2,3) by (simp add: push_bit_eq_mult word_less_nat_alt not_less)
  ultimately show ?case
    using assms(2) by (simp add: GetBits_from.simps [of k])
next
  case (Suc d)
  then have "bits < k" by simp
  have "(2::nat) ^ bits \<le> 2 ^ (k - 1)"
    using \<open>bits < k\<close> by (intro power_increasing) auto
  then have "2 ^ bits < unat v"
    using assms(4) \<open>bits < k\<close> by linarith
  then have "push_bit bits (1::u32) < v"
    using assms(2) \<open>bits < k\<close> by (simp add: push_bit_eq_mult word_less_nat_alt)
  moreover have "GetBits_from (Suc bits) v = Ret k"
    using Suc \<open>bits < k\<close> by simp
  ultimately show ?case
    using assms(2) \<open>bits < k\<close> by (simp add: GetBits_from.simps [of bits])
qed

lemma GetBits_pow2 [simp]: "k \<le> 31 \<Longrightarrow> GetBits (2 ^ k) = Ret k"
  unfolding GetBits_def by (rule GetBits_from_eq) auto

lemma GetBits_zero [simp]: "GetBits 0 = Ret 0"
  by (simp add: GetBits_def GetBits_from.simps)

end
