(* ===== verification/Msg_Queue.thy ===== *)
theory Msg_Queue
  imports Prelude
begin

section \<open>The memory and the object behind the message queues\<close>

text \<open>
  \<^verbatim>\<open>include/adk/lock_free_msg_queue.h\<close> builds all its queue classes on one memory layout: a
  \<^verbatim>\<open>QueueMemoryHeader\<close> with four monotone cursors (\<^verbatim>\<open>reserve\<close>, \<^verbatim>\<open>tail\<close>, \<^verbatim>\<open>head\<close>, \<^verbatim>\<open>release\<close>) and a
  ring of \<^verbatim>\<open>Entry\<close> slots, possibly in shared memory, and a queue object per user that caches two
  thresholds. \<open>qmem\<close> is the memory (header, ring, and the statistics buffers the objects point
  to), \<open>qobj\<close> the object; an object and its duplicates share one \<open>qmem\<close>. An entry pointer is
  the index of its slot. This theory holds the construction, the recovery after a crash, the length
  and statistics operations; the queue disciplines are in the theories that import it.
\<close>

record 'a entry =
  pos :: u64
  buffer :: 'a

record 'a qmem =
  mh_queue_name :: string
  mh_entry_size :: u32
  mh_queue_mask :: u32
  mh_queue_size :: u32
  mh_queue_entry_offset :: u64
  mh_reserve :: u64
  mh_nr_forward_fail :: u64
  mh_saved_nr_forward_fail :: u64
  mh_tail :: u64
  mh_head :: u64
  mh_max_queue_length :: u32
  mh_avg_buf_index :: u32
  mh_avg_buf_index_save :: u32
  mh_release :: u64
  mh_entries :: "'a entry list"
  mh_avg_buf :: "u32 list"
  mh_avg_lat_buf :: "u32 list"

record qobj =
  q_entry_size :: u32
  q_entry_bits :: nat
  q_queue_mask :: u64
  q_queue_size :: u64
  q_release_alert :: bool
  q_mq_index :: u32
  q_avg_buf :: bool
  q_avg_lat_buf :: bool
  q_avg_lat_buf_index :: u64
  q_avg_lat_buf_index_save :: u64
  q_reserve_threshold :: u64
  q_monotonic_reserve_index :: u64
  q_head_threshold :: u64
  q_monotonic_head_index :: u64

type_synonym 'a queue = "'a qmem \<times> qobj"

text \<open>What the source takes from the platform: page size and the sizes of the two structures.\<close>

record platform =
  page_size :: u64
  sizeof_header :: u64
  sizeof_queue :: u64

subsection \<open>Constants\<close>

definition ADK_LFMQ_AVG_BUF_SIZE :: nat where "ADK_LFMQ_AVG_BUF_SIZE = 8192"
definition ADK_LFMQ_AVG_BUF_MASK :: u32 where "ADK_LFMQ_AVG_BUF_MASK = 8191"
definition ADK_LFMQ_AVG_LAT_BUF_SIZE :: nat where "ADK_LFMQ_AVG_LAT_BUF_SIZE = 524288"
definition ADK_LFMQ_AVG_LAT_BUF_MASK :: u64 where "ADK_LFMQ_AVG_LAT_BUF_MASK = 524287"

definition ADK_MQ_OFV_MASK :: u64 where "ADK_MQ_OFV_MASK = push_bit 31 1 - 1"
definition ADK_MQ_TSC_MASK :: u64 where "ADK_MQ_TSC_MASK = push_bit 32 ADK_MQ_OFV_MASK"
definition ADK_MQ_POS_MASK :: u64 where "ADK_MQ_POS_MASK = NOT ADK_MQ_TSC_MASK"

definition QUEUE_CURSOR_INIT_VALUE :: u64 where "QUEUE_CURSOR_INIT_VALUE = 1"

subsection \<open>Entries\<close>

text \<open>\<^verbatim>\<open>Entry::CalcEntrySize\<close>: the payload and the 8 bytes of \<^verbatim>\<open>pos\<close>, rounded up.\<close>

definition CalcEntrySize :: "u32 \<Rightarrow> u32" where
  "CalcEntrySize payload_size = RoundToPowerOf2 (payload_size + 8)"

text \<open>\<^verbatim>\<open>GetTSCLowerBits<precision, shift>\<close> of a time stamp counter value.\<close>

definition GetTSCLowerBits :: "nat \<Rightarrow> nat \<Rightarrow> u64 \<Rightarrow> u64" where
  "GetTSCLowerBits precision shift tsc = push_bit shift (drop_bit precision (tsc AND (push_bit 32 1 - 1)))"

text \<open>\<^verbatim>\<open>Entry::CalcLatency\<close> at a counter value.\<close>

definition CalcLatency :: "u64 \<Rightarrow> 'a entry \<Rightarrow> u64" where
  "CalcLatency tsc e =
     (let current = GetTSCLowerBits 5 0 tsc;
          prev = drop_bit 32 (pos e AND ADK_MQ_TSC_MASK)
      in (current - prev) AND drop_bit 5 ADK_MQ_OFV_MASK)"

text \<open>
  \<^verbatim>\<open>MPSCQueue::InitEntries\<close> writes the \<^verbatim>\<open>pos\<close> field of every slot. \<open>room\<close> is the number of bytes
  of the block from the first slot on: a write past it is outside the allocation.
\<close>

fun InitEntries_from :: "nat \<Rightarrow> nat \<Rightarrow> nat \<Rightarrow> nat \<Rightarrow> (nat \<Rightarrow> 'a) \<Rightarrow> 'a entry list run" where
  "InitEntries_from 0 i room sz junk = Ret []"
| "InitEntries_from (Suc n) i room sz junk =
     (if i * sz + 8 \<le> room
      then rbind (InitEntries_from n (Suc i) room sz junk)
             (\<lambda>es. Ret (\<lparr>pos = 0, buffer = junk i\<rparr> # es))
      else Undef)"

definition InitEntries :: "u32 \<Rightarrow> u32 \<Rightarrow> nat \<Rightarrow> (nat \<Rightarrow> 'a) \<Rightarrow> 'a entry list run" where
  "InitEntries entry_num payload_size room junk =
     InitEntries_from (unat entry_num) 0 room (unat (CalcEntrySize payload_size)) junk"

subsection \<open>Construction\<close>

text \<open>\<^verbatim>\<open>MPSCQueue::Init\<close> attaches an object to a memory.\<close>

definition mpsc_Init :: "u32 \<Rightarrow> 'a qmem \<Rightarrow> qobj run" where
  "mpsc_Init mq_index m =
     rbind (GetBits (mh_entry_size m)) (\<lambda>bits. Ret
       \<lparr>q_entry_size = mh_entry_size m,
        q_entry_bits = bits,
        q_queue_mask = ucast (mh_queue_mask m),
        q_queue_size = ucast (mh_queue_size m),
        q_release_alert = False,
        q_mq_index = mq_index,
        q_avg_buf = False,
        q_avg_lat_buf = False,
        q_avg_lat_buf_index = 0,
        q_avg_lat_buf_index_save = 0,
        q_reserve_threshold = ucast (mh_queue_size m),
        q_monotonic_reserve_index = mh_reserve m,
        q_head_threshold = 0,
        q_monotonic_head_index = mh_head m\<rparr>)"

text \<open>The header a creator writes before it initialises the ring.\<close>

definition init_header :: "string \<Rightarrow> u32 \<Rightarrow> u32 \<Rightarrow> u64 \<Rightarrow> 'a entry list \<Rightarrow> 'a qmem" where
  "init_header name esize qsize offset es =
     \<lparr>mh_queue_name = name,
      mh_entry_size = esize,
      mh_queue_mask = qsize - 1,
      mh_queue_size = qsize,
      mh_queue_entry_offset = offset,
      mh_reserve = QUEUE_CURSOR_INIT_VALUE,
      mh_nr_forward_fail = 0,
      mh_saved_nr_forward_fail = 0,
      mh_tail = QUEUE_CURSOR_INIT_VALUE,
      mh_head = QUEUE_CURSOR_INIT_VALUE,
      mh_max_queue_length = 0,
      mh_avg_buf_index = 0,
      mh_avg_buf_index_save = 0,
      mh_release = QUEUE_CURSOR_INIT_VALUE,
      mh_entries = es,
      mh_avg_buf = [],
      mh_avg_lat_buf = []\<rparr>"

text \<open>
  \<^verbatim>\<open>MPSCQueue::Create(name, entry_payload_size, queue_size)\<close>. \<open>memalign_ok\<close> says whether the
  allocator grants a block of that size and \<open>junk\<close> is what the fresh memory holds. The byte count
  is a 32-bit product, widened only when it is assigned; the \<^verbatim>\<open>mlock\<close> call is left out.
\<close>

definition mpsc_Create ::
  "platform \<Rightarrow> (u64 \<Rightarrow> bool) \<Rightarrow> (nat \<Rightarrow> 'a) \<Rightarrow> string \<Rightarrow> u32 \<Rightarrow> u32 \<Rightarrow> 'a queue option run" where
  "mpsc_Create plat memalign_ok junk name entry_payload_size queue_size0 =
     (let qsize = RoundToPowerOf2 queue_size0;
          esize = CalcEntrySize entry_payload_size;
          queue_header_size = (ucast (max (page_size plat) (sizeof_header plat + sizeof_queue plat)) :: u32);
          total_size = (ucast (queue_header_size + qsize * esize) :: u64)
      in if \<not> memalign_ok total_size then Ret None
         else rbind (InitEntries qsize entry_payload_size
                       (unat total_size - unat queue_header_size) junk) (\<lambda>es.
              let m = init_header name esize qsize (ucast queue_header_size - sizeof_queue plat) es
              in rbind (mpsc_Init (-1) m) (\<lambda>q. Ret (Some (m, q)))))"

text \<open>
  \<^verbatim>\<open>MPSCQueue::Create(..., flags)\<close>: the flags add the two statistics buffers. The first is not
  cleared (\<open>junk32\<close> is its content), the second is.
\<close>

definition mpsc_Create_flags ::
  "platform \<Rightarrow> (u64 \<Rightarrow> bool) \<Rightarrow> (nat \<Rightarrow> 'a) \<Rightarrow> (nat \<Rightarrow> u32) \<Rightarrow> string \<Rightarrow> u32 \<Rightarrow> u32 \<Rightarrow> u32 \<Rightarrow>
   'a queue option run" where
  "mpsc_Create_flags plat memalign_ok junk junk32 name entry_payload_size queue_size0 flags =
     rbind (mpsc_Create plat memalign_ok junk name entry_payload_size queue_size0) (\<lambda>r.
     case r of
       None \<Rightarrow> Ret None
     | Some (m, q) \<Rightarrow>
         let (m1, q1) =
               (if flags AND 1 \<noteq> 0
                then (m\<lparr>mh_avg_buf := map junk32 [0..<ADK_LFMQ_AVG_BUF_SIZE]\<rparr>, q\<lparr>q_avg_buf := True\<rparr>)
                else (m, q));
             (m2, q2) =
               (if flags AND 2 \<noteq> 0
                then (m1\<lparr>mh_avg_lat_buf := replicate ADK_LFMQ_AVG_LAT_BUF_SIZE 0\<rparr>,
                      q1\<lparr>q_avg_lat_buf := True\<rparr>)
                else (m1, q1))
         in Ret (Some (m2, q2)))"

text \<open>\<^verbatim>\<open>MPSCQueue::Duplicate\<close>: a second object on the same memory.\<close>

definition mpsc_Duplicate :: "'a qmem \<Rightarrow> qobj \<Rightarrow> qobj run" where
  "mpsc_Duplicate m q =
     rbind (mpsc_Init (-1) m) (\<lambda>q'. Ret (q'\<lparr>q_avg_buf := q_avg_buf q, q_avg_lat_buf := q_avg_lat_buf q\<rparr>))"

definition set_release_alert :: "bool \<Rightarrow> qobj \<Rightarrow> qobj" where
  "set_release_alert release q = q\<lparr>q_release_alert := release\<rparr>"

subsection \<open>Recovery after a crash\<close>

definition ConsumerEndConsistent :: "bool \<Rightarrow> 'a qmem \<Rightarrow> 'a qmem" where
  "ConsumerEndConsistent fix_elem_leak m =
     (if fix_elem_leak then m\<lparr>mh_head := mh_release m\<rparr> else m\<lparr>mh_release := mh_head m\<rparr>)"

definition ProducerEndConsistent :: "'a qmem \<Rightarrow> 'a qmem" where
  "ProducerEndConsistent m = m\<lparr>mh_reserve := mh_tail m\<rparr>"

definition Consistent :: "bool \<Rightarrow> 'a qmem \<Rightarrow> 'a qmem" where
  "Consistent fix_elem_leak m = ProducerEndConsistent (ConsumerEndConsistent fix_elem_leak m)"

subsection \<open>Slots\<close>

definition GetInQueueIndex :: "qobj \<Rightarrow> u64 \<Rightarrow> u64" where
  "GetInQueueIndex q index = index AND q_queue_mask q"

text \<open>The slot a cursor points to, and writing its two fields.\<close>

definition slot_of :: "qobj \<Rightarrow> u64 \<Rightarrow> nat" where
  "slot_of q index = unat (GetInQueueIndex q index)"

definition set_pos :: "nat \<Rightarrow> u64 \<Rightarrow> 'a qmem \<Rightarrow> 'a qmem" where
  "set_pos i p m = m\<lparr>mh_entries := (mh_entries m)[i := (mh_entries m ! i)\<lparr>pos := p\<rparr>]\<rparr>"

definition set_buffer :: "nat \<Rightarrow> 'a \<Rightarrow> 'a qmem \<Rightarrow> 'a qmem" where
  "set_buffer i x m = m\<lparr>mh_entries := (mh_entries m)[i := (mh_entries m ! i)\<lparr>buffer := x\<rparr>]\<rparr>"

subsection \<open>Length and statistics\<close>

definition mq_length :: "'a qmem \<Rightarrow> qobj \<Rightarrow> u64" where
  "mq_length m q =
     (let queue_length = mh_tail m - mh_release m
      in if queue_length \<le> q_queue_size q then queue_length else q_queue_size q)"

definition mq_length2 :: "'a qmem \<Rightarrow> u64" where
  "mq_length2 m = mh_tail m - mh_head m"

definition mq_usage :: "'a qmem \<Rightarrow> qobj \<Rightarrow> u32 run" where
  "mq_usage m q =
     (if q_queue_size q = 0 then Undef else Ret (ucast (mq_length m q * 100 div q_queue_size q)))"

definition effective_payload_size :: "qobj \<Rightarrow> u32" where
  "effective_payload_size q = q_entry_size q - 8"

text \<open>\<^verbatim>\<open>UpdateQueueLenth\<close>: sample the length a consumer finds when it refreshes its threshold.\<close>

definition UpdateQueueLenth :: "u64 \<Rightarrow> 'a qmem \<Rightarrow> qobj \<Rightarrow> 'a qmem" where
  "UpdateQueueLenth monotonic_head_index m q =
     (let current_queue_length = q_head_threshold q - monotonic_head_index;
          m1 = (if q_avg_buf q
                then m\<lparr>mh_avg_buf := (mh_avg_buf m)
                         [unat (mh_avg_buf_index m AND ADK_LFMQ_AVG_BUF_MASK) := ucast current_queue_length],
                       mh_avg_buf_index := mh_avg_buf_index m + 1\<rparr>
                else m)
      in m1\<lparr>mh_max_queue_length :=
             (if ucast (mh_max_queue_length m) < current_queue_length
              then ucast current_queue_length else mh_max_queue_length m)\<rparr>)"

text \<open>\<^verbatim>\<open>UpdateQueueLenthTsc<is_update_queue_stats>\<close>: the length is cut to 32 bits first.\<close>

definition UpdateQueueLenthTsc :: "bool \<Rightarrow> u64 \<Rightarrow> 'a qmem \<Rightarrow> qobj \<Rightarrow> 'a qmem" where
  "UpdateQueueLenthTsc is_update_queue_stats monotonic_head_index m q =
     (let current_queue_length = (ucast (q_head_threshold q - monotonic_head_index) :: u32);
          m1 = (if is_update_queue_stats \<and> q_avg_buf q
                then m\<lparr>mh_avg_buf := (mh_avg_buf m)
                         [unat (mh_avg_buf_index m AND ADK_LFMQ_AVG_BUF_MASK) := current_queue_length],
                       mh_avg_buf_index := mh_avg_buf_index m + 1\<rparr>
                else m)
      in m1\<lparr>mh_max_queue_length :=
             (if mh_max_queue_length m < current_queue_length
              then current_queue_length else mh_max_queue_length m)\<rparr>)"

record QueueStats =
  st_nr_forward_fail :: u64
  st_max_queue_length :: u32

text \<open>\<^verbatim>\<open>GetStats(QueueStats&)\<close>: report and reset.\<close>

definition GetStats :: "'a qmem \<Rightarrow> qobj \<Rightarrow> 'a qmem \<times> QueueStats" where
  "GetStats m q =
     (let fails = mh_nr_forward_fail m - mh_saved_nr_forward_fail m
      in (m\<lparr>mh_saved_nr_forward_fail := mh_nr_forward_fail m, mh_max_queue_length := 0\<rparr>,
          \<lparr>st_nr_forward_fail = fails,
           st_max_queue_length = (if 0 < fails then ucast (q_queue_size q) else mh_max_queue_length m)\<rparr>))"

text \<open>The loop of \<^verbatim>\<open>GetStats(QueueStatsExp&)\<close> that sums the samples from \<^verbatim>\<open>begin\<close> to \<^verbatim>\<open>end\<close>.\<close>

fun sum_avg_buf :: "u32 list \<Rightarrow> nat \<Rightarrow> nat \<Rightarrow> u64 \<Rightarrow> u64 run" where
  "sum_avg_buf buf i 0 acc = Ret acc"
| "sum_avg_buf buf i (Suc n) acc = rbind (aget buf i) (\<lambda>v. sum_avg_buf buf (Suc i) n (acc + ucast v))"

text \<open>
  \<^verbatim>\<open>GetStats(QueueStatsExp&)\<close>: the same, with the average of the sampled lengths (\<^verbatim>\<open>-1\<close> when the
  queue keeps no samples, here \<open>None\<close>).
\<close>

definition GetStatsExp :: "'a qmem \<Rightarrow> qobj \<Rightarrow> ('a qmem \<times> QueueStats \<times> u32 option) run" where
  "GetStatsExp m q =
     (let (m1, stats) = GetStats m q
      in if q_avg_buf q
         then (let begin0 = mh_avg_buf_index_save m1;
                   end0 = mh_avg_buf_index m1;
                   whole = (end0 AND ADK_LFMQ_AVG_BUF_MASK \<noteq> 0 \<or> end0 < begin0);
                   begin1 = (if whole then 0 else begin0);
                   end1 = (if whole then of_nat ADK_LFMQ_AVG_BUF_SIZE else end0);
                   m2 = m1\<lparr>mh_avg_buf_index_save := begin1\<rparr>
               in if begin1 < end1
                  then rbind (sum_avg_buf (mh_avg_buf m1) (unat begin1) (unat (end1 - begin1)) 0)
                         (\<lambda>tot. Ret (m2, stats, Some (ucast (tot div ucast (end1 - begin1)))))
                  else Ret (m2, stats, Some 0))
         else Ret (m1, stats, None))"

text \<open>\<^verbatim>\<open>SaveLatency\<close>: store the queueing delay of an entry, at a counter value.\<close>

definition SaveLatency :: "u64 \<Rightarrow> nat \<Rightarrow> 'a qmem \<Rightarrow> qobj \<Rightarrow> ('a qmem \<times> qobj) run" where
  "SaveLatency tsc i m q =
     rassert (q_avg_lat_buf q)
       (rbind (aset (mh_avg_lat_buf m) (unat (q_avg_lat_buf_index q AND ADK_LFMQ_AVG_LAT_BUF_MASK))
                (ucast (CalcLatency tsc (mh_entries m ! i))))
          (\<lambda>buf. Ret (m\<lparr>mh_avg_lat_buf := buf\<rparr>, q\<lparr>q_avg_lat_buf_index := q_avg_lat_buf_index q + 1\<rparr>)))"

text \<open>
  \<^verbatim>\<open>CalcLatency(QueueLatStats&)\<close>: mean, extremes and outliers of the saved delays since the last
  call. The loop visits the cursors from \<^verbatim>\<open>begin\<close> to \<^verbatim>\<open>end\<close>, each through the mask.
\<close>

record QueueLatStats =
  lat_avg :: u64
  lat_max :: u64
  lat_min :: u64
  lat_errors :: u64

fun lat_loop :: "u32 list \<Rightarrow> u64 \<Rightarrow> nat \<Rightarrow> u64 \<times> QueueLatStats \<Rightarrow> (u64 \<times> QueueLatStats) run" where
  "lat_loop buf i 0 acc = Ret acc"
| "lat_loop buf i (Suc n) (tot, st) =
     rbind (aget buf (unat (i AND ADK_LFMQ_AVG_LAT_BUF_MASK))) (\<lambda>v.
     let actual_tick = (push_bit 5 (ucast v) :: u64)
     in if actual_tick = 0 \<or> 0x80000000 \<le> actual_tick
        then lat_loop buf (i + 1) n (tot, st\<lparr>lat_errors := lat_errors st + 1\<rparr>)
        else lat_loop buf (i + 1) n
               (tot + actual_tick,
                st\<lparr>lat_min := min (lat_min st) actual_tick, lat_max := max (lat_max st) actual_tick\<rparr>))"

definition CalcLatencyStats :: "'a qmem \<Rightarrow> qobj \<Rightarrow> (qobj \<times> QueueLatStats) run" where
  "CalcLatencyStats m q =
     (let st0 = \<lparr>lat_avg = 0, lat_max = 0, lat_min = push_bit 31 1 - 1, lat_errors = 0\<rparr>
      in if q_avg_lat_buf q
         then (let begin0 = q_avg_lat_buf_index_save q;
                   end0 = q_avg_lat_buf_index q;
                   nr_data = end0 - begin0;
                   begin1 = (if of_nat ADK_LFMQ_AVG_LAT_BUF_SIZE \<le> nr_data
                             then end0 - of_nat ADK_LFMQ_AVG_LAT_BUF_SIZE + 100 else begin0);
                   q1 = q\<lparr>q_avg_lat_buf_index_save := end0\<rparr>
               in if begin1 < end0
                  then rbind (lat_loop (mh_avg_lat_buf m) begin1 (unat (end0 - begin1)) (0, st0))
                         (\<lambda>(tot, st).
                            if lat_errors st < end0 - begin1
                            then Ret (q1, st\<lparr>lat_avg := tot div (end0 - begin1 - lat_errors st)\<rparr>)
                            else Ret (q1, st))
                  else Ret (q1, st0))
         else Ret (q, st0))"

section \<open>Geometry and cursors\<close>

text \<open>The geometry every creator establishes: a power-of-two ring and the masks that belong to it.\<close>

definition geo :: "'a qmem \<Rightarrow> qobj \<Rightarrow> bool" where
  "geo m q \<longleftrightarrow> (\<exists>k\<le>31. mh_queue_size m = 2 ^ k) \<and>
     mh_queue_mask m = mh_queue_size m - 1 \<and>
     q_queue_size q = ucast (mh_queue_size m) \<and>
     q_queue_mask q = ucast (mh_queue_mask m) \<and>
     length (mh_entries m) = unat (mh_queue_size m)"

abbreviation ring_size :: "'a qmem \<Rightarrow> nat" where
  "ring_size m \<equiv> unat (mh_queue_size m)"

abbreviation RS :: "'a qmem \<Rightarrow> nat" where "RS m \<equiv> unat (mh_reserve m)"
abbreviation TL :: "'a qmem \<Rightarrow> nat" where "TL m \<equiv> unat (mh_tail m)"
abbreviation HD :: "'a qmem \<Rightarrow> nat" where "HD m \<equiv> unat (mh_head m)"
abbreviation RL :: "'a qmem \<Rightarrow> nat" where "RL m \<equiv> unat (mh_release m)"

text \<open>The order of the four cursors, the thresholds behind them, and room below the wrap.\<close>

definition mq_inv :: "'a qmem \<Rightarrow> qobj \<Rightarrow> bool" where
  "mq_inv m q \<longleftrightarrow> geo m q \<and>
     RL m \<le> HD m \<and> HD m \<le> TL m \<and> TL m \<le> RS m \<and> RS m \<le> RL m + ring_size m \<and>
     RS m + ring_size m < 2 ^ 64 \<and>
     unat (q_reserve_threshold q) \<le> RL m + ring_size m \<and>
     unat (q_head_threshold q) \<le> TL m"

text \<open>The payloads that are posted and not yet taken.\<close>

definition contents :: "'a qmem \<Rightarrow> 'a list" where
  "contents m = map (\<lambda>i. buffer (mh_entries m ! (i mod ring_size m))) [HD m..<TL m]"

text \<open>Pushes left before a cursor could wrap.\<close>

definition cursor_budget :: "'a qmem \<Rightarrow> nat" where
  "cursor_budget m = 2 ^ 64 - 1 - ring_size m - RS m"

lemma geo_obtain:
  assumes "geo m q"
  obtains k where "k \<le> 31" "ring_size m = 2 ^ k" "q_queue_mask q = 2 ^ k - 1"
    "unat (q_queue_size q) = 2 ^ k" "length (mh_entries m) = 2 ^ k"
proof -
  from assms obtain k where k: "k \<le> 31" "mh_queue_size m = 2 ^ k"
    by (auto simp: geo_def)
  then have rs: "ring_size m = 2 ^ k" by simp
  have "unat (q_queue_mask q) = unat (2 ^ k - 1 :: u64)"
    using assms k by (simp add: geo_def unat_pow2_minus_1)
  then have "q_queue_mask q = 2 ^ k - 1"
    by (simp only: word_unat_eq_iff)
  moreover have "unat (q_queue_size q) = 2 ^ k"
    using assms k by (simp add: geo_def)
  ultimately show thesis
    using that k rs assms by (simp add: geo_def)
qed

lemma geo_size_pos: "geo m q \<Longrightarrow> 0 < ring_size m"
  by (erule geo_obtain) simp

lemma geo_size_le: "geo m q \<Longrightarrow> ring_size m \<le> 2 ^ 31"
  by (erule geo_obtain) (metis one_le_numeral power_increasing)

lemma unat_queue_size: "geo m q \<Longrightarrow> unat (q_queue_size q) = ring_size m"
  by (erule geo_obtain) simp

lemma length_entries: "geo m q \<Longrightarrow> length (mh_entries m) = ring_size m"
  by (simp add: geo_def)

lemma slot_of_mod: "geo m q \<Longrightarrow> slot_of q i = unat i mod ring_size m"
  by (erule geo_obtain) (simp add: slot_of_def GetInQueueIndex_def unat_and_pow2_mask)

lemma slot_in_range: "geo m q \<Longrightarrow> slot_of q i < length (mh_entries m)"
  by (simp add: slot_of_mod length_entries geo_size_pos)

text \<open>Field updates that keep the geometry.\<close>

lemma geo_cong:
  assumes "geo m q" "mh_queue_size m' = mh_queue_size m" "mh_queue_mask m' = mh_queue_mask m"
    "q_queue_size q' = q_queue_size q" "q_queue_mask q' = q_queue_mask q"
    "length (mh_entries m') = length (mh_entries m)"
  shows "geo m' q'"
  using assms by (simp add: geo_def)

lemma set_pos_simps [simp]:
  "mh_queue_size (set_pos i p m) = mh_queue_size m"
  "mh_queue_mask (set_pos i p m) = mh_queue_mask m"
  "mh_reserve (set_pos i p m) = mh_reserve m"
  "mh_tail (set_pos i p m) = mh_tail m"
  "mh_head (set_pos i p m) = mh_head m"
  "mh_release (set_pos i p m) = mh_release m"
  "length (mh_entries (set_pos i p m)) = length (mh_entries m)"
  by (simp_all add: set_pos_def)

lemma set_buffer_simps [simp]:
  "mh_queue_size (set_buffer i x m) = mh_queue_size m"
  "mh_queue_mask (set_buffer i x m) = mh_queue_mask m"
  "mh_reserve (set_buffer i x m) = mh_reserve m"
  "mh_tail (set_buffer i x m) = mh_tail m"
  "mh_head (set_buffer i x m) = mh_head m"
  "mh_release (set_buffer i x m) = mh_release m"
  "length (mh_entries (set_buffer i x m)) = length (mh_entries m)"
  by (simp_all add: set_buffer_def)

lemma pos_set_pos: "i < length (mh_entries m) \<Longrightarrow>
    pos (mh_entries (set_pos i p m) ! j) = (if i = j then p else pos (mh_entries m ! j))"
  by (auto simp: set_pos_def nth_list_update)

lemma buffer_set_pos: "buffer (mh_entries (set_pos i p m) ! j) = buffer (mh_entries m ! j)"
  by (cases "i < length (mh_entries m)") (auto simp: set_pos_def nth_list_update list_update_beyond)

lemma pos_set_buffer: "pos (mh_entries (set_buffer i x m) ! j) = pos (mh_entries m ! j)"
  by (cases "i < length (mh_entries m)") (auto simp: set_buffer_def nth_list_update list_update_beyond)

lemma buffer_set_buffer: "i < length (mh_entries m) \<Longrightarrow>
    buffer (mh_entries (set_buffer i x m) ! j) = (if i = j then x else buffer (mh_entries m ! j))"
  by (auto simp: set_buffer_def nth_list_update)

lemmas slot_simps = pos_set_pos buffer_set_pos pos_set_buffer buffer_set_buffer

text \<open>Sampling a length touches only the statistics.\<close>

lemma UpdateQueueLenth_simps [simp]:
  "mh_queue_size (UpdateQueueLenth h m q) = mh_queue_size m"
  "mh_queue_mask (UpdateQueueLenth h m q) = mh_queue_mask m"
  "mh_reserve (UpdateQueueLenth h m q) = mh_reserve m"
  "mh_tail (UpdateQueueLenth h m q) = mh_tail m"
  "mh_head (UpdateQueueLenth h m q) = mh_head m"
  "mh_release (UpdateQueueLenth h m q) = mh_release m"
  "mh_entries (UpdateQueueLenth h m q) = mh_entries m"
  by (simp_all add: UpdateQueueLenth_def Let_def)

lemma UpdateQueueLenthTsc_simps [simp]:
  "mh_queue_size (UpdateQueueLenthTsc s h m q) = mh_queue_size m"
  "mh_queue_mask (UpdateQueueLenthTsc s h m q) = mh_queue_mask m"
  "mh_reserve (UpdateQueueLenthTsc s h m q) = mh_reserve m"
  "mh_tail (UpdateQueueLenthTsc s h m q) = mh_tail m"
  "mh_head (UpdateQueueLenthTsc s h m q) = mh_head m"
  "mh_release (UpdateQueueLenthTsc s h m q) = mh_release m"
  "mh_entries (UpdateQueueLenthTsc s h m q) = mh_entries m"
  by (simp_all add: UpdateQueueLenthTsc_def Let_def)

lemma length_contents: "length (contents m) = TL m - HD m"
  by (simp add: contents_def)

text \<open>Posting one more element appends it, taking one removes the first.\<close>

lemma contents_append:
  assumes "mh_queue_size m' = mh_queue_size m" "HD m' = HD m" "TL m' = Suc (TL m)"
    and "HD m \<le> TL m" "TL m < HD m + ring_size m"
    and "\<And>j. buffer (mh_entries m' ! j) =
               (if j = TL m mod ring_size m then x else buffer (mh_entries m ! j))"
  shows "contents m' = contents m @ [x]"
proof -
  have "i mod ring_size m \<noteq> TL m mod ring_size m" if "HD m \<le> i" "i < TL m" for i
    using that assms(5) by (intro mod_neq_window) auto
  then have "map (\<lambda>i. buffer (mh_entries m' ! (i mod ring_size m))) [HD m..<TL m] = contents m"
    unfolding contents_def by (intro map_cong) (auto simp: assms(6))
  then show ?thesis
    using assms(1-4) by (simp add: contents_def assms(6))
qed

lemma contents_Cons:
  assumes "HD m < TL m"
  shows "contents m = buffer (mh_entries m ! (HD m mod ring_size m)) #
    map (\<lambda>i. buffer (mh_entries m ! (i mod ring_size m))) [Suc (HD m)..<TL m]"
  using assms by (simp add: contents_def upt_conv_Cons)

lemma contents_tl:
  assumes "mh_queue_size m' = mh_queue_size m" "HD m' = Suc (HD m)" "TL m' = TL m"
    and "mh_entries m' = mh_entries m"
  shows "contents m' = tl (contents m)"
  using assms by (simp add: contents_def map_tl [symmetric] tl_upt)

lemma contents_cong:
  assumes "mh_queue_size m' = mh_queue_size m" "mh_head m' = mh_head m" "mh_tail m' = mh_tail m"
    and "mh_entries m' = mh_entries m"
  shows "contents m' = contents m"
  using assms by (simp add: contents_def)

lemma contents_empty_iff: "contents m = [] \<longleftrightarrow> TL m \<le> HD m"
  by (auto simp: contents_def)

text \<open>Two memories that differ in their statistics only.\<close>

definition same_ring :: "'a qmem \<Rightarrow> 'a qmem \<Rightarrow> bool" where
  "same_ring m m' \<longleftrightarrow> mh_queue_size m' = mh_queue_size m \<and> mh_queue_mask m' = mh_queue_mask m \<and>
     mh_reserve m' = mh_reserve m \<and> mh_tail m' = mh_tail m \<and> mh_head m' = mh_head m \<and>
     mh_release m' = mh_release m \<and> mh_entries m' = mh_entries m"

lemma same_ring_samples [simp, intro]:
  "same_ring m m" "same_ring m (UpdateQueueLenth h m q)" "same_ring m (UpdateQueueLenthTsc b h m q)"
  by (simp_all add: same_ring_def)

end
