(* ===== verification/Fifo_Spec.thy ===== *)
theory Fifo_Spec
  imports Prelude
begin

section \<open>The contract of a bounded queue\<close>

text \<open>
  The queue classes of the kit promise their clients one thing: a bounded first-in first-out
  buffer. This theory states that promise as an abstract machine on lists (\<open>spec_step\<close>), as a
  driver that runs a sequence of calls against an implementation (\<open>impl_run\<close>), and as the locale
  \<open>bounded_fifo\<close> whose laws every queue class discharges for its own definitions. The cursors of
  the classes are 64 bits wide and compared as plain numbers, so each successful push spends one
  unit of the \<open>budget\<close> that is left before a cursor would wrap.
\<close>

datatype 'a fifo_op = OpPush 'a | OpPop

datatype 'a fifo_out = OutPush ErrorCode | OutPop "ErrorCode + 'a"

fun spec_step :: "nat \<Rightarrow> 'a list \<Rightarrow> 'a fifo_op \<Rightarrow> 'a list \<times> 'a fifo_out" where
  "spec_step c xs (OpPush x) =
     (if length xs < c then (xs @ [x], OutPush kSuccess) else (xs, OutPush kQueueFull))"
| "spec_step c [] OpPop = ([], OutPop (Inl kQueueEmpty))"
| "spec_step c (x # xs) OpPop = (xs, OutPop (Inr x))"

fun spec_run :: "nat \<Rightarrow> 'a list \<Rightarrow> 'a fifo_op list \<Rightarrow> 'a list \<times> 'a fifo_out list" where
  "spec_run c xs [] = (xs, [])"
| "spec_run c xs (op # ops) =
     (let (xs', out) = spec_step c xs op; (xs'', outs) = spec_run c xs' ops in (xs'', out # outs))"

fun impl_step ::
  "('q \<Rightarrow> 'a \<Rightarrow> ('q \<times> ErrorCode) run) \<Rightarrow> ('q \<Rightarrow> ('q \<times> (ErrorCode + 'a)) run) \<Rightarrow>
   'q \<Rightarrow> 'a fifo_op \<Rightarrow> ('q \<times> 'a fifo_out) run" where
  "impl_step push pop q (OpPush x) = rbind (push q x) (\<lambda>(q', ec). Ret (q', OutPush ec))"
| "impl_step push pop q OpPop = rbind (pop q) (\<lambda>(q', r). Ret (q', OutPop r))"

fun impl_run ::
  "('q \<Rightarrow> 'a \<Rightarrow> ('q \<times> ErrorCode) run) \<Rightarrow> ('q \<Rightarrow> ('q \<times> (ErrorCode + 'a)) run) \<Rightarrow>
   'q \<Rightarrow> 'a fifo_op list \<Rightarrow> ('q \<times> 'a fifo_out list) run" where
  "impl_run push pop q [] = Ret (q, [])"
| "impl_run push pop q (op # ops) =
     rbind (impl_step push pop q op) (\<lambda>(q', out).
     rbind (impl_run push pop q' ops) (\<lambda>(q'', outs). Ret (q'', out # outs)))"

text \<open>The number of pushes in a sequence of calls: an upper bound of the budget it spends.\<close>

fun pushes :: "'a fifo_op list \<Rightarrow> nat" where
  "pushes [] = 0"
| "pushes (OpPush x # ops) = Suc (pushes ops)"
| "pushes (OpPop # ops) = pushes ops"

locale bounded_fifo =
  fixes push :: "'q \<Rightarrow> 'a \<Rightarrow> ('q \<times> ErrorCode) run"
    and pop :: "'q \<Rightarrow> ('q \<times> (ErrorCode + 'a)) run"
    and ok :: "'q \<Rightarrow> bool"
    and elems :: "'q \<Rightarrow> 'a list"
    and cap :: "'q \<Rightarrow> nat"
    and budget :: "'q \<Rightarrow> nat"
  assumes push_room: "ok q \<Longrightarrow> 0 < budget q \<Longrightarrow> length (elems q) < cap q \<Longrightarrow>
      \<exists>q'. push q x = Ret (q', kSuccess) \<and> ok q' \<and> elems q' = elems q @ [x] \<and>
           cap q' = cap q \<and> Suc (budget q') = budget q"
    and push_full: "ok q \<Longrightarrow> length (elems q) = cap q \<Longrightarrow>
      \<exists>q'. push q x = Ret (q', kQueueFull) \<and> ok q' \<and> elems q' = elems q \<and>
           cap q' = cap q \<and> budget q' = budget q"
    and pop_some: "ok q \<Longrightarrow> elems q = y # ys \<Longrightarrow>
      \<exists>q'. pop q = Ret (q', Inr y) \<and> ok q' \<and> elems q' = ys \<and>
           cap q' = cap q \<and> budget q' = budget q"
    and pop_none: "ok q \<Longrightarrow> elems q = [] \<Longrightarrow>
      \<exists>q'. pop q = Ret (q', Inl kQueueEmpty) \<and> ok q' \<and> elems q' = [] \<and>
           cap q' = cap q \<and> budget q' = budget q"
    and length_le_cap: "ok q \<Longrightarrow> length (elems q) \<le> cap q"
begin

lemma step_push:
  assumes "ok q" and "0 < budget q"
  shows "\<exists>q' out. impl_step push pop q (OpPush x) = Ret (q', out) \<and> ok q' \<and> cap q' = cap q \<and>
           spec_step (cap q) (elems q) (OpPush x) = (elems q', out) \<and> budget q \<le> Suc (budget q')"
proof (cases "length (elems q) < cap q")
  case True
  with push_room [OF assms True, of x] show ?thesis by auto
next
  case False
  with length_le_cap [OF assms(1)] have "length (elems q) = cap q" by simp
  with push_full [OF assms(1) this, of x] show ?thesis by auto
qed

lemma step_pop:
  assumes "ok q"
  shows "\<exists>q' out. impl_step push pop q OpPop = Ret (q', out) \<and> ok q' \<and> cap q' = cap q \<and>
           spec_step (cap q) (elems q) OpPop = (elems q', out) \<and> budget q' = budget q"
proof (cases "elems q")
  case Nil
  with pop_none [OF assms Nil] show ?thesis by auto
next
  case (Cons y ys)
  with pop_some [OF assms Cons] show ?thesis by auto
qed

text \<open>Any sequence of calls returns, and its results are those of the abstract queue.\<close>

lemma run_refines:
  assumes "ok q" and "pushes ops \<le> budget q"
  shows "\<exists>q'. impl_run push pop q ops = Ret (q', snd (spec_run (cap q) (elems q) ops)) \<and>
           ok q' \<and> cap q' = cap q \<and> elems q' = fst (spec_run (cap q) (elems q) ops)"
  using assms
proof (induction ops arbitrary: q)
  case Nil
  then show ?case by simp
next
  case (Cons op ops)
  obtain q' out where step: "impl_step push pop q op = Ret (q', out)" "ok q'" "cap q' = cap q"
    "spec_step (cap q) (elems q) op = (elems q', out)" and bud: "pushes ops \<le> budget q'"
  proof (cases op)
    case (OpPush x)
    then have "0 < budget q" using Cons.prems(2) by simp
    with step_push [OF Cons.prems(1) this, of x] OpPush Cons.prems(2) that show thesis by force
  next
    case OpPop
    with step_pop [OF Cons.prems(1)] Cons.prems(2) that show thesis by force
  qed
  from Cons.IH [OF step(2) bud] obtain q'' where
    "impl_run push pop q' ops = Ret (q'', snd (spec_run (cap q') (elems q') ops))" "ok q''"
    "cap q'' = cap q'" "elems q'' = fst (spec_run (cap q') (elems q') ops)"
    by blast
  with step show ?case
    by (simp add: Let_def split: prod.split)
qed

end

text \<open>
  A second pair of calls that works on a richer state and does, seen through \<open>view\<close>, exactly what
  the first does, keeps the same contract.
\<close>

definition rview :: "('s \<Rightarrow> 'q) \<Rightarrow> ('s \<times> 'r) run \<Rightarrow> ('q \<times> 'r) run" where
  "rview v r = rbind r (\<lambda>(s, x). Ret (v s, x))"

lemma rview_Ret: "rview v r = Ret (q, x) \<longleftrightarrow> (\<exists>s. r = Ret (s, x) \<and> v s = q)"
  by (cases r) (auto simp: rview_def)

lemma rview_simps [simp]:
  "rview v (Ret (s, x)) = Ret (v s, x)" "rview v Hang = Hang" "rview v AssertFail = AssertFail" "rview v Undef = Undef"
  by (simp_all add: rview_def)

locale viewed_fifo = bounded_fifo push pop ok elems cap budget
  for push :: "'q \<Rightarrow> 'a \<Rightarrow> ('q \<times> ErrorCode) run"
    and pop :: "'q \<Rightarrow> ('q \<times> (ErrorCode + 'a)) run"
    and ok elems cap budget +
  fixes push' :: "'s \<Rightarrow> 'a \<Rightarrow> ('s \<times> ErrorCode) run"
    and pop' :: "'s \<Rightarrow> ('s \<times> (ErrorCode + 'a)) run"
    and view :: "'s \<Rightarrow> 'q"
    and extra :: "'s \<Rightarrow> bool"
  assumes view_push: "ok (view s) \<Longrightarrow> extra s \<Longrightarrow> rview view (push' s x) = push (view s) x"
    and view_pop: "ok (view s) \<Longrightarrow> extra s \<Longrightarrow> rview view (pop' s) = pop (view s)"
    and extra_push: "extra s \<Longrightarrow> push' s x = Ret (s', ec) \<Longrightarrow> extra s'"
    and extra_pop: "extra s \<Longrightarrow> pop' s = Ret (s', r) \<Longrightarrow> extra s'"

sublocale viewed_fifo \<subseteq> seen: bounded_fifo push' pop' "\<lambda>s. ok (view s) \<and> extra s" "\<lambda>s. elems (view s)"
  "\<lambda>s. cap (view s)" "\<lambda>s. budget (view s)"
proof (unfold_locales, goal_cases)
  case (1 s x)
  then obtain q' where "push (view s) x = Ret (q', kSuccess)" "ok q'" "elems q' = elems (view s) @ [x]"
    "cap q' = cap (view s)" "Suc (budget q') = budget (view s)"
    using push_room [of "view s" x] by blast
  moreover from this 1 obtain s' where "push' s x = Ret (s', kSuccess)" "view s' = q'"
    using view_push [of s x] rview_Ret [of view "push' s x"] by auto
  ultimately show ?case using extra_push 1 by blast
next
  case (2 s x)
  then obtain q' where "push (view s) x = Ret (q', kQueueFull)" "ok q'" "elems q' = elems (view s)"
    "cap q' = cap (view s)" "budget q' = budget (view s)"
    using push_full [of "view s" x] by blast
  moreover from this 2 obtain s' where "push' s x = Ret (s', kQueueFull)" "view s' = q'"
    using view_push [of s x] rview_Ret [of view "push' s x"] by auto
  ultimately show ?case using extra_push 2 by blast
next
  case (3 s y ys)
  then obtain q' where "pop (view s) = Ret (q', Inr y)" "ok q'" "elems q' = ys"
    "cap q' = cap (view s)" "budget q' = budget (view s)"
    using pop_some [of "view s" y ys] by blast
  moreover from this 3 obtain s' where "pop' s = Ret (s', Inr y)" "view s' = q'"
    using view_pop [of s] rview_Ret [of view "pop' s"] by auto
  ultimately show ?case using extra_pop 3 by blast
next
  case (4 s)
  then obtain q' where "pop (view s) = Ret (q', Inl kQueueEmpty)" "ok q'" "elems q' = []"
    "cap q' = cap (view s)" "budget q' = budget (view s)"
    using pop_none [of "view s"] by blast
  moreover from this 4 obtain s' where "pop' s = Ret (s', Inl kQueueEmpty)" "view s' = q'"
    using view_pop [of s] rview_Ret [of view "pop' s"] by auto
  ultimately show ?case using extra_pop 4 by blast
next
  case (5 s)
  with length_le_cap show ?case by blast
qed

text \<open>What the abstract queue itself does: it delivers what was accepted, in order, and keeps the bound.\<close>

fun accepted :: "'a fifo_op list \<Rightarrow> 'a fifo_out list \<Rightarrow> 'a list" where
  "accepted (OpPush x # ops) (OutPush kSuccess # outs) = x # accepted ops outs"
| "accepted (op # ops) (out # outs) = accepted ops outs"
| "accepted _ _ = []"

fun delivered :: "'a fifo_out list \<Rightarrow> 'a list" where
  "delivered [] = []"
| "delivered (OutPop (Inr x) # outs) = x # delivered outs"
| "delivered (_ # outs) = delivered outs"

lemma spec_run_fifo:
  "xs @ accepted ops (snd (spec_run c xs ops)) =
   delivered (snd (spec_run c xs ops)) @ fst (spec_run c xs ops)"
proof (induction ops arbitrary: xs)
  case Nil
  then show ?case by simp
next
  case (Cons op ops)
  show ?case
  proof (cases op)
    case (OpPush x)
    show ?thesis
      using Cons.IH [of xs] Cons.IH [of "xs @ [x]"] OpPush by (simp add: case_prod_unfold Let_def)
  next
    case OpPop
    show ?thesis
    proof (cases xs)
      case Nil
      then show ?thesis using Cons.IH [of "[]"] OpPop by (simp add: case_prod_unfold Let_def)
    next
      case (Cons y ys)
      then show ?thesis using Cons.IH [of ys] OpPop by (simp add: case_prod_unfold Let_def)
    qed
  qed
qed

lemma spec_run_bound:
  "length xs \<le> c \<Longrightarrow> length (fst (spec_run c xs ops)) \<le> c"
proof (induction ops arbitrary: xs)
  case (Cons op ops)
  have "length (fst (spec_step c xs op)) \<le> c"
    using Cons.prems by (cases "(c, xs, op)" rule: spec_step.cases) auto
  from Cons.IH [OF this] show ?case
    by (simp add: Let_def case_prod_unfold)
qed simp

text \<open>
  A queue whose push waits instead of failing: the same laws without the one for a full queue. A
  sequence of calls for which the abstract queue is never full has the results of the abstract queue.
\<close>

locale blocking_fifo =
  fixes push :: "'q \<Rightarrow> 'a \<Rightarrow> ('q \<times> ErrorCode) run"
    and pop :: "'q \<Rightarrow> ('q \<times> (ErrorCode + 'a)) run"
    and rel :: "'q \<Rightarrow> 'a list \<Rightarrow> nat \<Rightarrow> bool"
    and cap :: nat
  assumes wait_push: "rel q xs (Suc k) \<Longrightarrow> length xs < cap \<Longrightarrow>
      \<exists>q'. push q x = Ret (q', kSuccess) \<and> rel q' (xs @ [x]) k"
    and wait_pop: "rel q (y # ys) k \<Longrightarrow> \<exists>q'. pop q = Ret (q', Inr y) \<and> rel q' ys k"
    and wait_none: "rel q [] k \<Longrightarrow> \<exists>q'. pop q = Ret (q', Inl kQueueEmpty) \<and> rel q' [] k"
begin

lemma blocking_step:
  assumes "rel q xs (pushes (op # ops) + r)" and "snd (spec_step cap xs op) \<noteq> OutPush kQueueFull"
  shows "\<exists>q'. impl_step push pop q op = Ret (q', snd (spec_step cap xs op)) \<and>
           rel q' (fst (spec_step cap xs op)) (pushes ops + r)"
proof (cases op)
  case (OpPush x)
  with assms have "length xs < cap" by (auto split: if_splits)
  with wait_push [of q xs "pushes ops + r" x] assms(1) OpPush show ?thesis by auto
next
  case OpPop
  with wait_none [of q "pushes ops + r"] wait_pop [of q _ _ "pushes ops + r"] assms(1) show ?thesis
    by (cases xs) fastforce+
qed

lemma blocking_run_budget:
  assumes "rel q xs (pushes ops + r)" and "OutPush kQueueFull \<notin> set (snd (spec_run cap xs ops))"
  shows "\<exists>q'. impl_run push pop q ops = Ret (q', snd (spec_run cap xs ops)) \<and>
           rel q' (fst (spec_run cap xs ops)) r"
  using assms
proof (induction ops arbitrary: q xs)
  case (Cons op ops)
  have "snd (spec_step cap xs op) \<noteq> OutPush kQueueFull"
    using Cons.prems(2) by (auto simp: Let_def case_prod_unfold)
  from blocking_step [OF Cons.prems(1) this] obtain q' where
    step: "impl_step push pop q op = Ret (q', snd (spec_step cap xs op))"
    "rel q' (fst (spec_step cap xs op)) (pushes ops + r)" by blast
  moreover have "OutPush kQueueFull \<notin> set (snd (spec_run cap (fst (spec_step cap xs op)) ops))"
    using Cons.prems(2) by (auto simp: Let_def case_prod_unfold)
  ultimately show ?case
    using Cons.IH [OF step(2)] by (auto simp: Let_def case_prod_unfold)
qed simp

lemmas blocking_run_refines = blocking_run_budget [where r = 0, simplified]

end

section \<open>Queues visited in turn\<close>

text \<open>
  \<open>n\<close> queues filled and emptied in turn hold one common sequence \<open>xs\<close>: element number \<open>k\<close> (counting
  from the first one ever pushed) is in the queue \<open>k mod n\<close>, and the elements \<open>C\<close> to \<open>P - 1\<close> are there.
\<close>

definition lane :: "nat \<Rightarrow> nat \<Rightarrow> nat \<Rightarrow> nat \<Rightarrow> 'a list \<Rightarrow> 'a list" where
  "lane n j C P xs = map (\<lambda>k. xs ! (k - C)) (filter (\<lambda>k. k mod n = j) [C..<P])"

lemma lane_push:
  assumes "length xs = P - C" "C \<le> P"
  shows "lane n j C (Suc P) (xs @ [x]) = lane n j C P xs @ (if P mod n = j then [x] else [])"
proof -
  have "map (\<lambda>k. (xs @ [x]) ! (k - C)) (filter (\<lambda>k. k mod n = j) [C..<P]) = lane n j C P xs"
    unfolding lane_def by (intro map_cong refl) (auto simp: nth_append assms(1))
  then show ?thesis
    using assms by (simp add: lane_def nth_append)
qed

lemma lane_pop:
  assumes "C < P"
  shows "lane n j C P (y # ys) = (if C mod n = j then [y] else []) @ lane n j (Suc C) P ys"
proof -
  have "map (\<lambda>k. (y # ys) ! (k - C)) (filter (\<lambda>k. k mod n = j) [Suc C..<P]) = lane n j (Suc C) P ys"
    unfolding lane_def by (intro map_cong refl) (auto simp: nth_Cons' Suc_diff_le)
  then show ?thesis
    using assms by (simp add: lane_def upt_conv_Cons)
qed

text \<open>The queue whose turn it is has room as long as the whole is not full.\<close>

lemma lane_room:
  assumes "0 < n" "P - C < n * c" "C \<le> P"
  shows "length (lane n (P mod n) C P xs) < c"
proof -
  let ?S = "{k. C \<le> k \<and> k < P \<and> k mod n = P mod n}"
  have "length (lane n (P mod n) C P xs) = card ?S"
  proof -
    have "length (lane n (P mod n) C P xs) = card (set (filter (\<lambda>k. k mod n = P mod n) [C..<P]))"
      unfolding lane_def length_map by (rule distinct_card [symmetric]) simp
    also have "set (filter (\<lambda>k. k mod n = P mod n) [C..<P]) = ?S" by auto
    finally show ?thesis .
  qed
  also have "card ?S \<le> card {1..<c}"
  proof (rule card_inj_on_le [of "\<lambda>k. (P - k) div n"])
    have split: "P - k = n * ((P - k) div n)" "0 < (P - k) div n" if "k \<in> ?S" for k
    proof -
      have "n dvd P - k" using that mod_eq_dvd_iff_nat [of k P n] by auto
      then show "P - k = n * ((P - k) div n)" by simp
      then show "0 < (P - k) div n" using that by (metis (mono_tags, lifting) gr0I mem_Collect_eq mult_0_right zero_less_diff less_irrefl)
    qed
    show "inj_on (\<lambda>k. (P - k) div n) ?S"
    proof (rule inj_onI)
      fix a b assume a: "a \<in> ?S" and b: "b \<in> ?S" and eq: "(P - a) div n = (P - b) div n"
      then have "P - a = P - b" using split(1) by metis
      moreover have "a < P" "b < P" using a b by auto
      ultimately show "a = b" by arith
    qed
    show "(\<lambda>k. (P - k) div n) ` ?S \<subseteq> {1..<c}"
    proof (rule image_subsetI)
      fix k assume k: "k \<in> ?S"
      then have "P - k \<le> P - C" by auto
      then have "n * ((P - k) div n) < n * c" using split(1) [OF k] assms(2) by linarith
      then have "(P - k) div n < c" by simp
      with split(2) [OF k] show "(P - k) div n \<in> {1..<c}" by simp
    qed
  qed simp
  also have "card {1..<c} < c" using assms(2) by (cases c) simp_all
  finally show ?thesis .
qed

context bounded_fifo
begin

definition rr :: "nat \<Rightarrow> 'q list \<Rightarrow> nat \<Rightarrow> nat \<Rightarrow> 'a list \<Rightarrow> bool" where
  "rr c qs C P xs \<longleftrightarrow> 0 < length qs \<and> C \<le> P \<and> length xs = P - C \<and>
     (\<forall>j < length qs. ok (qs ! j) \<and> cap (qs ! j) = c \<and> elems (qs ! j) = lane (length qs) j C P xs)"

lemma rr_turn: "rr c qs C P xs \<Longrightarrow> k mod length qs < length qs"
  by (simp add: rr_def)

lemma rr_update:
  assumes "rr c qs C P xs" "i < length qs" "ok q'" "cap q' = c" "elems q' = lane (length qs) i C' P' xs'"
    and "\<And>j. j < length qs \<Longrightarrow> j \<noteq> i \<Longrightarrow> lane (length qs) j C' P' xs' = lane (length qs) j C P xs"
    and "C' \<le> P'" "length xs' = P' - C'"
  shows "rr c (qs[i := q']) C' P' xs'"
proof -
  have "ok (qs[i := q'] ! j) \<and> cap (qs[i := q'] ! j) = c \<and> elems (qs[i := q'] ! j) = lane (length qs) j C' P' xs'"
    if "j < length qs" for j
    using assms(1-6) that by (cases "j = i") (simp_all add: rr_def)
  then show ?thesis using assms by (simp add: rr_def)
qed

lemma budget_update:
  "i < length qs \<Longrightarrow> budget (qs[i := q'] ! j) = (if j = i then budget q' else budget (qs ! j))"
  by (simp add: nth_list_update)

lemma rr_push:
  assumes r: "rr c qs C P xs" and room: "P - C < length qs * c"
    and b: "\<forall>j < length qs. 0 < budget (qs ! j)"
  defines "i \<equiv> P mod length qs"
  shows "\<exists>q'. push (qs ! i) x = Ret (q', kSuccess) \<and> rr c (qs[i := q']) C (Suc P) (xs @ [x]) \<and>
    (\<forall>j < length qs. budget (qs ! j) \<le> Suc (budget (qs[i := q'] ! j)))"
proof -
  have n: "0 < length qs" and i: "i < length qs" and len: "C \<le> P" "length xs = P - C"
    using r by (simp_all add: rr_def i_def)
  have qi: "ok (qs ! i)" "cap (qs ! i) = c" "elems (qs ! i) = lane (length qs) i C P xs"
    using r i by (simp_all add: rr_def)
  have "length (elems (qs ! i)) < cap (qs ! i)"
    using lane_room [OF n room len(1), of xs] qi by (simp add: i_def)
  moreover have "0 < budget (qs ! i)" using b i by simp
  ultimately obtain q' where q': "push (qs ! i) x = Ret (q', kSuccess)" "ok q'" "elems q' = elems (qs ! i) @ [x]"
    "cap q' = cap (qs ! i)" "Suc (budget q') = budget (qs ! i)"
    using push_room [OF qi(1), of x] by blast
  have "rr c (qs[i := q']) C (Suc P) (xs @ [x])"
    by (rule rr_update [OF r i]) (use q' qi len lane_push [OF len(2,1)] in \<open>simp_all add: i_def\<close>)
  moreover have "budget (qs ! j) \<le> Suc (budget (qs[i := q'] ! j))" for j
    using q'(5) i by (simp add: budget_update)
  ultimately show ?thesis using q'(1) by blast
qed

lemma rr_pop:
  assumes r: "rr c qs C P (y # ys)"
  defines "i \<equiv> C mod length qs"
  shows "\<exists>q'. pop (qs ! i) = Ret (q', Inr y) \<and> rr c (qs[i := q']) (Suc C) P ys \<and>
    (\<forall>j < length qs. budget (qs[i := q'] ! j) = budget (qs ! j))"
proof -
  have i: "i < length qs" and len: "C < P" "length ys = P - Suc C"
    using r by (auto simp: rr_def i_def)
  have qi: "ok (qs ! i)" "cap (qs ! i) = c" "elems (qs ! i) = lane (length qs) i C P (y # ys)"
    using r i by (simp_all add: rr_def)
  then have "elems (qs ! i) = y # lane (length qs) i (Suc C) P ys"
    using lane_pop [OF len(1), of "length qs" i y ys] by (simp add: i_def)
  from pop_some [OF qi(1) this] obtain q' where
    q': "pop (qs ! i) = Ret (q', Inr y)" "ok q'" "elems q' = lane (length qs) i (Suc C) P ys"
    "cap q' = cap (qs ! i)" "budget q' = budget (qs ! i)" by blast
  have "rr c (qs[i := q']) (Suc C) P ys"
  proof (rule rr_update [OF r i])
    show "lane (length qs) j (Suc C) P ys = lane (length qs) j C P (y # ys)" if "j \<noteq> i" for j
      using that unfolding lane_pop [OF len(1)] i_def by simp
  qed (use q' qi len in simp_all)
  moreover have "budget (qs[i := q'] ! j) = budget (qs ! j)" for j
    using q'(5) i by (simp add: budget_update)
  ultimately show ?thesis using q'(1) by blast
qed

lemma rr_pop_none:
  assumes r: "rr c qs C P []"
  defines "i \<equiv> C mod length qs"
  shows "\<exists>q'. pop (qs ! i) = Ret (q', Inl kQueueEmpty) \<and> rr c (qs[i := q']) C P [] \<and>
    (\<forall>j < length qs. budget (qs[i := q'] ! j) = budget (qs ! j))"
proof -
  have i: "i < length qs" and len: "C = P" using r by (auto simp: rr_def i_def)
  have qi: "ok (qs ! i)" "cap (qs ! i) = c" "elems (qs ! i) = []"
    using r i len by (simp_all add: rr_def lane_def)
  from pop_none [OF qi(1,3)] obtain q' where
    q': "pop (qs ! i) = Ret (q', Inl kQueueEmpty)" "ok q'" "elems q' = []" "cap q' = cap (qs ! i)"
    "budget q' = budget (qs ! i)" by blast
  have "rr c (qs[i := q']) C P []"
    by (rule rr_update [OF r i]) (use q' qi len in \<open>simp_all add: lane_def\<close>)
  moreover have "budget (qs[i := q'] ! j) = budget (qs ! j)" for j
    using q'(5) i by (simp add: budget_update)
  ultimately show ?thesis using q'(1) by blast
qed

end

end
