(* ===== verification/Mpsc_Queue.thy ===== *)
theory Mpsc_Queue
  imports Msg_Queue Fifo_Spec
begin

section \<open>The multi-producer single-consumer queue\<close>

text \<open>
  \<^verbatim>\<open>MPSCQueue\<close> of \<^verbatim>\<open>include/adk/lock_free_msg_queue.h\<close>, call by call: a call runs to its end before the
  next starts, so a compare-and-swap finds the value its loop has just read and a loop that waits
  for another thread gives \<open>Hang\<close> (the interleavings are in the theory of the concurrent queue).
  There are three families of calls: the plain ones check the \<^verbatim>\<open>pos\<close> stamp of the slot, the
  \<^verbatim>\<open>Tsc\<close> ones store a time stamp in its upper half, the \<^verbatim>\<open>Exp\<close> ones leave it alone and reserve
  with a fetch-and-add that is rolled back when the ring is full. \<open>sz\<close> is the \<^verbatim>\<open>sizeof\<close> of the
  element type, which every call asserts to fit the slot.
\<close>

subsection \<open>The producer side\<close>

definition GetFreeEntry :: "'a qmem \<Rightarrow> qobj \<Rightarrow> 'a queue \<times> u64 option" where
  "GetFreeEntry m q =
     (let temp_reserve = mh_reserve m;
          q1 = q\<lparr>q_reserve_threshold := mh_release m + q_queue_size q\<rparr>
      in if q_reserve_threshold q \<le> temp_reserve
         then (if q_reserve_threshold q1 \<le> temp_reserve then ((m, q1), None)
               else ((m\<lparr>mh_reserve := temp_reserve + 1\<rparr>, q1), Some temp_reserve))
         else ((m\<lparr>mh_reserve := temp_reserve + 1\<rparr>, q), Some temp_reserve))"

definition RollBack :: "u64 \<Rightarrow> 'a qmem \<Rightarrow> 'a qmem \<times> bool" where
  "RollBack temp_reserve m =
     (if mh_reserve m = temp_reserve + 1 then (m\<lparr>mh_reserve := temp_reserve\<rparr>, True) else (m, False))"

text \<open>When the roll back fails the loop starts again, and alone it would never get further.\<close>

definition GetFreeEntryExp :: "'a qmem \<Rightarrow> qobj \<Rightarrow> ('a queue \<times> u64 option) run" where
  "GetFreeEntryExp m q =
     (let temp_reserve = mh_reserve m;
          m1 = m\<lparr>mh_reserve := temp_reserve + 1\<rparr>;
          q1 = q\<lparr>q_reserve_threshold := mh_release m + q_queue_size q\<rparr>
      in if q_reserve_threshold q \<le> temp_reserve
         then (if q_reserve_threshold q1 \<le> temp_reserve
               then (let (m2, rolled) = RollBack temp_reserve m1
                     in if rolled then Ret ((m2, q1), None) else Hang)
               else Ret ((m1, q1), Some temp_reserve))
         else Ret ((m1, q), Some temp_reserve))"

fun AllocEntry :: "'a queue \<Rightarrow> 'a queue \<times> (ErrorCode + nat)" where
  "AllocEntry (m, q) =
     (case GetFreeEntry m q of
        ((m1, q1), None) \<Rightarrow> ((m1\<lparr>mh_nr_forward_fail := mh_nr_forward_fail m1 + 1\<rparr>, q1), Inl kQueueFull)
      | ((m1, q1), Some r) \<Rightarrow> ((set_pos (slot_of q1 r) r m1, q1), Inr (slot_of q1 r)))"

fun AllocEntryTsc :: "'a queue \<Rightarrow> 'a queue \<times> (ErrorCode + nat)" where
  "AllocEntryTsc (m, q) =
     (case GetFreeEntry m q of
        ((m1, q1), None) \<Rightarrow> ((m1\<lparr>mh_nr_forward_fail := mh_nr_forward_fail m1 + 1\<rparr>, q1), Inl kQueueFull)
      | ((m1, q1), Some r) \<Rightarrow> ((set_pos (slot_of q1 r) r m1, q1), Inr (slot_of q1 r)))"

text \<open>\<^verbatim>\<open>AllocEntryExp\<close> returns the cursor, 0 when the ring is full, and the slot.\<close>

fun AllocEntryExp :: "'a queue \<Rightarrow> ('a queue \<times> u64 \<times> nat) run" where
  "AllocEntryExp (m, q) =
     rbind (GetFreeEntryExp m q) (\<lambda>((m1, q1), r).
       case r of
         None \<Rightarrow> Ret ((m1\<lparr>mh_nr_forward_fail := mh_nr_forward_fail m1 + 1\<rparr>, q1), 0, 0)
       | Some r \<Rightarrow> Ret ((m1, q1), r, slot_of q1 r))"

text \<open>Publishing waits for the turn of the entry: the producers post in the order they reserved.\<close>

fun PostEntry :: "nat \<Rightarrow> 'a queue \<Rightarrow> ('a queue \<times> ErrorCode) run" where
  "PostEntry e (m, q) =
     (let p = pos (mh_entries m ! e)
      in if mh_tail m \<noteq> p
         then (if q_release_alert q then Ret ((m, q), kWouldblock) else Hang)
         else Ret ((m\<lparr>mh_tail := p + 1\<rparr>, q), kSuccess))"

fun PostEntryTsc :: "u64 \<Rightarrow> nat \<Rightarrow> 'a queue \<Rightarrow> ('a queue \<times> ErrorCode) run" where
  "PostEntryTsc tsc e (m, q) =
     (let p = pos (mh_entries m ! e)
      in if mh_tail m \<noteq> p
         then (if q_release_alert q then Ret ((m, q), kWouldblock) else Hang)
         else (let m1 = set_pos e ((p AND ADK_MQ_POS_MASK) OR GetTSCLowerBits 5 32 tsc) m
               in Ret ((m1\<lparr>mh_tail := p + 1\<rparr>, q), kSuccess)))"

fun PostEntryExp :: "u64 \<Rightarrow> 'a queue \<Rightarrow> ('a queue \<times> ErrorCode) run" where
  "PostEntryExp index (m, q) =
     (if mh_tail m \<noteq> index
      then (if q_release_alert q then Ret ((m, q), kWouldblock) else Hang)
      else Ret ((m\<lparr>mh_tail := index + 1\<rparr>, q), kSuccess))"

text \<open>The assertion at the head of every call that copies an element in or out.\<close>

definition payload_fits :: "u64 \<Rightarrow> qobj \<Rightarrow> bool" where
  "payload_fits sz q \<longleftrightarrow> sz \<le> ucast (q_entry_size q) - 8"

fun mpsc_Push :: "u64 \<Rightarrow> 'a queue \<Rightarrow> 'a \<Rightarrow> ('a queue \<times> ErrorCode) run" where
  "mpsc_Push sz (m, q) payload =
     rassert (payload_fits sz q)
       (case AllocEntry (m, q) of
          (s, Inl ec) \<Rightarrow> Ret (s, ec)
        | ((m1, q1), Inr e) \<Rightarrow> PostEntry e (set_buffer e payload m1, q1))"

fun mpsc_PushTsc :: "u64 \<Rightarrow> u64 \<Rightarrow> 'a queue \<Rightarrow> 'a \<Rightarrow> ('a queue \<times> ErrorCode) run" where
  "mpsc_PushTsc sz tsc (m, q) payload =
     rassert (payload_fits sz q)
       (case AllocEntryTsc (m, q) of
          (s, Inl ec) \<Rightarrow> Ret (s, ec)
        | ((m1, q1), Inr e) \<Rightarrow> PostEntryTsc tsc e (set_buffer e payload m1, q1))"

fun mpsc_PushExp :: "u64 \<Rightarrow> 'a queue \<Rightarrow> 'a \<Rightarrow> ('a queue \<times> ErrorCode) run" where
  "mpsc_PushExp sz (m, q) payload =
     rassert (payload_fits sz q)
       (rbind (AllocEntryExp (m, q)) (\<lambda>((m1, q1), index, e).
          if index = 0 then Ret ((m1, q1), kQueueFull)
          else PostEntryExp index (set_buffer e payload m1, q1)))"

text \<open>
  \<^verbatim>\<open>Push(payload, cb)\<close> runs the callback after the post, whatever it returned, and not at all when
  the ring is full; \<open>w\<close> is the state the callback works on. \<^verbatim>\<open>EmplacePush\<close> constructs the
  element in the slot from its arguments.
\<close>

fun mpsc_Push_cb :: "u64 \<Rightarrow> ('w \<Rightarrow> 'w) \<Rightarrow> 'w \<Rightarrow> 'a queue \<Rightarrow> 'a \<Rightarrow> ('w \<times> 'a queue \<times> ErrorCode) run" where
  "mpsc_Push_cb sz cb w (m, q) payload =
     rassert (payload_fits sz q)
       (case AllocEntry (m, q) of
          (s, Inl ec) \<Rightarrow> Ret (w, s, ec)
        | ((m1, q1), Inr e) \<Rightarrow>
            rbind (PostEntry e (set_buffer e payload m1, q1)) (\<lambda>(s, ec). Ret (cb w, s, ec)))"

fun mpsc_EmplacePush :: "u64 \<Rightarrow> ('b \<Rightarrow> 'a) \<Rightarrow> 'a queue \<Rightarrow> 'b \<Rightarrow> ('a queue \<times> ErrorCode) run" where
  "mpsc_EmplacePush sz ctor (m, q) args =
     rassert (payload_fits sz q)
       (case AllocEntry (m, q) of
          (s, Inl ec) \<Rightarrow> Ret (s, ec)
        | ((m1, q1), Inr e) \<Rightarrow> PostEntry e (set_buffer e (ctor args) m1, q1))"

subsection \<open>The consumer side\<close>

text \<open>
  The three \<^verbatim>\<open>WaitEntry\<close> functions differ in the sampling of the length. The assertion on the
  head compares it with the value read at the start of the call.
\<close>

fun WaitEntry :: "bool \<Rightarrow> 'a queue \<Rightarrow> 'a queue \<times> (ErrorCode + nat)" where
  "WaitEntry is_peek (m, q) =
     (let h = mh_head m;
          q1 = q\<lparr>q_head_threshold := mh_tail m\<rparr>;
          take = (\<lambda>m' q'. ((if is_peek then m' else m'\<lparr>mh_head := h + 1\<rparr>, q'), Inr (slot_of q' h)))
      in if q_head_threshold q \<le> h
         then (if q_head_threshold q1 \<le> h then ((m, q1), Inl kQueueEmpty)
               else take (UpdateQueueLenth h m q1) q1)
         else take m q)"

fun WaitEntryTsc :: "bool \<Rightarrow> 'a queue \<Rightarrow> 'a queue \<times> (ErrorCode + nat)" where
  "WaitEntryTsc is_update_queue_stats (m, q) =
     (let h = mh_head m;
          q1 = q\<lparr>q_head_threshold := mh_tail m\<rparr>;
          take = (\<lambda>m' q'. ((m'\<lparr>mh_head := h + 1\<rparr>, q'), Inr (slot_of q' h)))
      in if q_head_threshold q \<le> h
         then (if q_head_threshold q1 \<le> h then ((m, q1), Inl kQueueEmpty)
               else take (UpdateQueueLenthTsc is_update_queue_stats h m q1) q1)
         else take m q)"

fun WaitEntryExp :: "'a queue \<Rightarrow> 'a queue \<times> (ErrorCode + nat)" where
  "WaitEntryExp (m, q) =
     (let h = mh_head m;
          q1 = q\<lparr>q_head_threshold := mh_tail m\<rparr>;
          take = (\<lambda>m' q'. ((m'\<lparr>mh_head := h + 1\<rparr>, q'), Inr (slot_of q' h)))
      in if q_head_threshold q \<le> h
         then (if q_head_threshold q1 \<le> h then ((m, q1), Inl kQueueEmpty)
               else take (UpdateQueueLenth h m q1) q1)
         else take m q)"

fun FreeEntry :: "bool \<Rightarrow> nat \<Rightarrow> 'a queue \<Rightarrow> ('a queue \<times> ErrorCode) run" where
  "FreeEntry is_peek e (m, q) =
     (let p = pos (mh_entries m ! e);
          m1 = (if is_peek then m\<lparr>mh_head := p + 1\<rparr> else m)
      in if mh_release m1 \<noteq> p
         then (if q_release_alert q then Ret ((m1, q), kWouldblock) else Hang)
         else Ret ((m1\<lparr>mh_release := p + 1\<rparr>, q), kSuccess))"

fun FreeEntryTsc :: "nat \<Rightarrow> 'a queue \<Rightarrow> ('a queue \<times> ErrorCode) run" where
  "FreeEntryTsc e (m, q) =
     rassert (mh_release m AND ADK_MQ_POS_MASK = pos (mh_entries m ! e) AND ADK_MQ_POS_MASK)
       (Ret ((m\<lparr>mh_release := mh_release m + 1\<rparr>, q), kSuccess))"

fun FreeEntryOrdered :: "bool \<Rightarrow> nat \<Rightarrow> 'a queue \<Rightarrow> ('a queue \<times> ErrorCode) run" where
  "FreeEntryOrdered is_peek e (m, q) =
     (let p = pos (mh_entries m ! e);
          m1 = (if is_peek then m\<lparr>mh_head := p + 1\<rparr> else m)
      in rassert (mh_release m1 = p) (Ret ((m1\<lparr>mh_release := p + 1\<rparr>, q), kSuccess)))"

text \<open>The tail of \<^verbatim>\<open>Pop\<close> and \<^verbatim>\<open>PopTsc\<close>: copy the element out, check its stamp, give the slot back.\<close>

fun pop_checked :: "'a queue \<Rightarrow> nat \<Rightarrow> ('a queue \<times> (ErrorCode + 'a)) run" where
  "pop_checked (m, q) e =
     rassert (mh_release m AND ADK_MQ_POS_MASK = pos (mh_entries m ! e) AND ADK_MQ_POS_MASK)
       (Ret ((m\<lparr>mh_release := mh_release m + 1\<rparr>, q), Inr (buffer (mh_entries m ! e))))"

fun mpsc_Pop :: "u64 \<Rightarrow> 'a queue \<Rightarrow> ('a queue \<times> (ErrorCode + 'a)) run" where
  "mpsc_Pop sz (m, q) =
     rassert (payload_fits sz q)
       (case WaitEntry False (m, q) of
          (s, Inl ec) \<Rightarrow> Ret (s, Inl ec)
        | (s, Inr e) \<Rightarrow> pop_checked s e)"

fun mpsc_PopTsc :: "u64 \<Rightarrow> bool \<Rightarrow> 'a queue \<Rightarrow> ('a queue \<times> (ErrorCode + 'a)) run" where
  "mpsc_PopTsc sz is_update_queue_stats (m, q) =
     rassert (payload_fits sz q)
       (case WaitEntryTsc is_update_queue_stats (m, q) of
          (s, Inl ec) \<Rightarrow> Ret (s, Inl ec)
        | (s, Inr e) \<Rightarrow> pop_checked s e)"

fun mpsc_PopExp :: "u64 \<Rightarrow> 'a queue \<Rightarrow> ('a queue \<times> (ErrorCode + 'a)) run" where
  "mpsc_PopExp sz (m, q) =
     rassert (payload_fits sz q)
       (case WaitEntryExp (m, q) of
          (s, Inl ec) \<Rightarrow> Ret (s, Inl ec)
        | ((m1, q1), Inr e) \<Rightarrow>
            Ret ((m1\<lparr>mh_release := mh_release m1 + 1\<rparr>, q1), Inr (buffer (mh_entries m1 ! e))))"

text \<open>\<^verbatim>\<open>Pop<T>()\<close> drops the element.\<close>

fun mpsc_Pop_drop :: "'a queue \<Rightarrow> ('a queue \<times> ErrorCode) run" where
  "mpsc_Pop_drop (m, q) =
     (case WaitEntry False (m, q) of
        (s, Inl ec) \<Rightarrow> Ret (s, ec)
      | (s, Inr e) \<Rightarrow> FreeEntry False e s)"

text \<open>
  \<^verbatim>\<open>Head<T>()\<close> looks at the first element through the thread-local \<^verbatim>\<open>g_head_entry\<close> (\<open>g\<close> here, an
  optional slot), which \<^verbatim>\<open>Pop()\<close> then gives back.
\<close>

fun mpsc_Head :: "u64 \<Rightarrow> nat option \<Rightarrow> 'a queue \<Rightarrow> ('a queue \<times> nat option \<times> 'a option) run" where
  "mpsc_Head sz g (m, q) =
     rassert (payload_fits sz q)
       (let h = mh_head m;
            q1 = q\<lparr>q_head_threshold := mh_tail m\<rparr>;
            look = (\<lambda>m' q'. ((m', q'), Some (slot_of q' h), Some (buffer (mh_entries m' ! slot_of q' h))))
        in if q_head_threshold q \<le> h
           then (if q_head_threshold q1 \<le> h then Ret ((m, q1), g, None)
                 else Ret (look (UpdateQueueLenth h m q1) q1))
           else Ret (look m q))"

fun mpsc_Pop_head :: "nat option \<Rightarrow> 'a queue \<Rightarrow> ('a queue \<times> ErrorCode) run" where
  "mpsc_Pop_head g (m, q) =
     (case g of
        None \<Rightarrow> AssertFail
      | Some e \<Rightarrow>
          rassert (pos (mh_entries m ! e) = mh_head m)
            (FreeEntry False e (m\<lparr>mh_head := mh_head m + 1\<rparr>, q)))"

section \<open>What one call does\<close>

text \<open>Facts about the invariant that the proofs of both sides use.\<close>

lemma mq_invD:
  assumes "mq_inv m q"
  shows "geo m q" "RL m \<le> HD m" "HD m \<le> TL m" "TL m \<le> RS m" "RS m \<le> RL m + ring_size m"
    "RS m + ring_size m < 2 ^ 64" "unat (q_reserve_threshold q) \<le> RL m + ring_size m"
    "unat (q_head_threshold q) \<le> TL m"
  using assms by (simp_all add: mq_inv_def)

lemma unat_full_threshold:
  assumes "mq_inv m q"
  shows "unat (mh_release m + q_queue_size q) = RL m + ring_size m"
  using mq_invD [OF assms] by (simp add: unat_add64 unat_queue_size)

lemma unat_next:
  fixes c :: u64
  assumes "mq_inv m q" and "unat c \<le> RS m"
  shows "unat (c + 1) = Suc (unat c)"
  using mq_invD [OF assms(1)] assms(2) geo_size_pos [of m q] unat_inc64 [of c] by simp

lemma GetFreeEntry_room:
  assumes "mq_inv m q" and "RS m < RL m + ring_size m"
  obtains t where "GetFreeEntry m q =
      ((m\<lparr>mh_reserve := mh_reserve m + 1\<rparr>, q\<lparr>q_reserve_threshold := t\<rparr>), Some (mh_reserve m))"
    and "unat t \<le> RL m + ring_size m"
proof (cases "q_reserve_threshold q \<le> mh_reserve m")
  case True
  then show thesis
    using that [of "mh_release m + q_queue_size q"] unat_full_threshold [OF assms(1)] assms(2)
    by (simp add: GetFreeEntry_def Let_def word_le_nat_alt)
next
  case False
  then show thesis
    using that [of "q_reserve_threshold q"] mq_invD(7) [OF assms(1)]
    by (simp add: GetFreeEntry_def Let_def)
qed

lemma GetFreeEntry_full:
  assumes "mq_inv m q" and "RS m = RL m + ring_size m"
  shows "GetFreeEntry m q = ((m, q\<lparr>q_reserve_threshold := mh_release m + q_queue_size q\<rparr>), None)"
  using unat_full_threshold [OF assms(1)] mq_invD(7) [OF assms(1)] assms(2)
  by (simp add: GetFreeEntry_def Let_def word_le_nat_alt)

text \<open>Waiting: the cached threshold is refreshed at most once, and the outcome depends on the cursors only.\<close>

lemma WaitEntry_some:
  assumes "mq_inv m q" and "HD m < TL m"
  obtains m1 t where "WaitEntry False (m, q) =
      ((m1\<lparr>mh_head := mh_head m + 1\<rparr>, q\<lparr>q_head_threshold := t\<rparr>), Inr (slot_of q (mh_head m)))"
    and "same_ring m m1" and "unat t \<le> TL m"
proof (cases "q_head_threshold q \<le> mh_head m")
  case True
  then show thesis
    using that [of "UpdateQueueLenth (mh_head m) m (q\<lparr>q_head_threshold := mh_tail m\<rparr>)" "mh_tail m"] assms(2)
    by (simp add: Let_def word_le_nat_alt slot_of_def GetInQueueIndex_def)
next
  case False
  then show thesis
    using that [of m "q_head_threshold q"] mq_invD(8) [OF assms(1)] by (simp add: Let_def)
qed

lemma WaitEntryTsc_some:
  assumes "mq_inv m q" and "HD m < TL m"
  obtains m1 t where "WaitEntryTsc b (m, q) =
      ((m1\<lparr>mh_head := mh_head m + 1\<rparr>, q\<lparr>q_head_threshold := t\<rparr>), Inr (slot_of q (mh_head m)))"
    and "same_ring m m1" and "unat t \<le> TL m"
proof (cases "q_head_threshold q \<le> mh_head m")
  case True
  then show thesis
    using that [of "UpdateQueueLenthTsc b (mh_head m) m (q\<lparr>q_head_threshold := mh_tail m\<rparr>)" "mh_tail m"] assms(2)
    by (simp add: Let_def word_le_nat_alt slot_of_def GetInQueueIndex_def)
next
  case False
  then show thesis
    using that [of m "q_head_threshold q"] mq_invD(8) [OF assms(1)] by (simp add: Let_def)
qed

lemma WaitEntryExp_eq: "WaitEntryExp s = WaitEntry False s"
  by (cases s) (simp add: Let_def)

lemma WaitEntry_none:
  assumes "mq_inv m q" and "HD m = TL m"
  shows "WaitEntry b (m, q) = ((m, q\<lparr>q_head_threshold := mh_tail m\<rparr>), Inl kQueueEmpty)"
    and "WaitEntryTsc c (m, q) = ((m, q\<lparr>q_head_threshold := mh_tail m\<rparr>), Inl kQueueEmpty)"
  using assms mq_invD(8) [OF assms(1)] by (simp_all add: Let_def word_le_nat_alt)

section \<open>The quiescent queue as a bounded first-in first-out buffer\<close>

text \<open>
  Between two calls nothing is reserved but not posted, and nothing taken but not released. The
  stamps of the posted slots agree with their cursors outside the bits of the time stamp.
\<close>

definition posted :: "nat \<Rightarrow> nat \<Rightarrow> 'a qmem \<Rightarrow> bool" where
  "posted a b m \<longleftrightarrow> (\<forall>i. a \<le> i \<longrightarrow> i < b \<longrightarrow>
     pos (mh_entries m ! (i mod ring_size m)) AND ADK_MQ_POS_MASK = of_nat i AND ADK_MQ_POS_MASK)"

fun quiet :: "u64 \<Rightarrow> 'a queue \<Rightarrow> bool" where
  "quiet sz (m, q) \<longleftrightarrow> mq_inv m q \<and> RS m = TL m \<and> HD m = RL m \<and> 0 < TL m \<and> payload_fits sz q"

fun mpsc_ok :: "u64 \<Rightarrow> 'a queue \<Rightarrow> bool" where
  "mpsc_ok sz (m, q) \<longleftrightarrow> quiet sz (m, q) \<and> posted (RL m) (TL m) m"

abbreviation mpsc_elems :: "'a queue \<Rightarrow> 'a list" where "mpsc_elems s \<equiv> contents (fst s)"
abbreviation mpsc_cap :: "'a queue \<Rightarrow> nat" where "mpsc_cap s \<equiv> ring_size (fst s)"
abbreviation mpsc_budget :: "'a queue \<Rightarrow> nat" where "mpsc_budget s \<equiv> cursor_budget (fst s)"

lemma posted_cong:
  assumes "posted a b m" "same_ring m m'" shows "posted a b m'"
  using assms by (simp add: posted_def same_ring_def)

text \<open>What is left of a push once its slot is reserved, stamped, filled and posted.\<close>

definition pushed :: "'a \<Rightarrow> 'a qmem \<Rightarrow> qobj \<Rightarrow> 'a qmem \<Rightarrow> qobj \<Rightarrow> bool" where
  "pushed x m q m' q' \<longleftrightarrow>
     mh_queue_size m' = mh_queue_size m \<and> mh_queue_mask m' = mh_queue_mask m \<and>
     mh_reserve m' = mh_reserve m + 1 \<and> mh_tail m' = mh_tail m + 1 \<and>
     mh_head m' = mh_head m \<and> mh_release m' = mh_release m \<and>
     length (mh_entries m') = length (mh_entries m) \<and>
     (\<forall>j. buffer (mh_entries m' ! j) = (if j = TL m mod ring_size m then x else buffer (mh_entries m ! j))) \<and>
     (\<exists>t. unat t \<le> RL m + ring_size m \<and> q' = q\<lparr>q_reserve_threshold := t\<rparr>)"

definition stamped :: "'a qmem \<Rightarrow> 'a qmem \<Rightarrow> bool" where
  "stamped m m' \<longleftrightarrow> (\<forall>j. pos (mh_entries m' ! j) AND ADK_MQ_POS_MASK =
     (if j = TL m mod ring_size m then mh_tail m else pos (mh_entries m ! j)) AND ADK_MQ_POS_MASK)"

definition stamped_exact :: "'a qmem \<Rightarrow> 'a qmem \<Rightarrow> bool" where
  "stamped_exact m m' \<longleftrightarrow> (\<forall>j. pos (mh_entries m' ! j) =
     (if j = TL m mod ring_size m then mh_tail m else pos (mh_entries m ! j)))"

lemma stamped_exact_imp: "stamped_exact m m' \<Longrightarrow> stamped m m'"
  by (simp add: stamped_exact_def stamped_def)

lemma pushed_quiet:
  assumes ok: "quiet sz (m, q)" and room: "TL m < RL m + ring_size m"
    and budget: "0 < cursor_budget m" and p: "pushed x m q m' q'"
  shows "quiet sz (m', q')" and "contents m' = contents m @ [x]"
    and "ring_size m' = ring_size m" and "Suc (cursor_budget m') = cursor_budget m"
    and "TL m' = Suc (TL m)" and "RL m' = RL m"
proof -
  note inv = mq_invD [of m q]
  from ok have i: "mq_inv m q" and eqs: "RS m = TL m" "HD m = RL m" and fits: "payload_fits sz q"
    by simp_all
  have next_t: "unat (mh_tail m + 1) = Suc (TL m)" and next_r: "unat (mh_reserve m + 1) = Suc (RS m)"
    using unat_next [OF i, of "mh_tail m"] unat_next [OF i, of "mh_reserve m"] eqs by simp_all
  have cur: "TL m' = Suc (TL m)" "RS m' = Suc (RS m)" "HD m' = HD m" "RL m' = RL m"
    and size: "ring_size m' = ring_size m"
    using p next_t next_r by (simp_all add: pushed_def)
  from p obtain t where t: "unat t \<le> RL m + ring_size m" "q' = q\<lparr>q_reserve_threshold := t\<rparr>"
    by (auto simp: pushed_def)
  have "geo m' q'"
    using inv(1) [OF i] p t by (intro geo_cong [of m q m' q']) (simp_all add: pushed_def)
  moreover have "RS m' + ring_size m' < 2 ^ 64"
    using budget cur size by (simp add: cursor_budget_def)
  ultimately have "mq_inv m' q'"
    using inv [OF i] eqs room cur size t by (simp add: mq_inv_def)
  then show "quiet sz (m', q')"
    using eqs cur fits t by (simp add: payload_fits_def)
  show "contents m' = contents m @ [x]"
    using p cur inv [OF i] room eqs by (intro contents_append) (simp_all add: pushed_def)
  show "ring_size m' = ring_size m" "TL m' = Suc (TL m)" "RL m' = RL m"
    by (rule size cur)+
  show "Suc (cursor_budget m') = cursor_budget m"
    using budget cur size by (simp add: cursor_budget_def)
qed

lemma posted_push:
  assumes "posted (RL m) (TL m) m" "stamped m m'" "TL m < RL m + ring_size m"
    and "TL m' = Suc (TL m)" "RL m' = RL m" "ring_size m' = ring_size m"
  shows "posted (RL m') (TL m') m'"
  unfolding posted_def
proof (intro allI impI)
  fix k assume k: "RL m' \<le> k" "k < TL m'"
  show "pos (mh_entries m' ! (k mod ring_size m')) AND ADK_MQ_POS_MASK = of_nat k AND ADK_MQ_POS_MASK"
  proof (cases "k = TL m")
    case True
    then show ?thesis using assms by (simp add: stamped_def)
  next
    case False
    then have "k < TL m" using k assms by simp
    then have "k mod ring_size m \<noteq> TL m mod ring_size m"
      using k assms by (intro mod_neq_window) auto
    then show ?thesis
      using assms k \<open>k < TL m\<close> by (simp add: stamped_def posted_def)
  qed
qed

lemma tsc_bits_masked: "GetTSCLowerBits 5 32 tsc AND ADK_MQ_POS_MASK = 0"
proof -
  have pm: "ADK_MQ_POS_MASK = NOT (push_bit 32 (mask 31))"
    by (simp add: ADK_MQ_POS_MASK_def ADK_MQ_TSC_MASK_def ADK_MQ_OFV_MASK_def mask_eq_exp_minus_1)
  have "push_bit 32 1 - 1 = (mask 32 :: u64)"
    by (simp add: mask_eq_exp_minus_1)
  then have g: "GetTSCLowerBits 5 32 tsc = push_bit 32 (drop_bit 5 (tsc AND mask 32))"
    by (simp only: GetTSCLowerBits_def)
  show ?thesis
    by (rule bit_word_eqI)
      (auto simp: pm g bit_and_iff bit_not_iff bit_push_bit_iff bit_drop_bit_eq bit_mask_iff
        simp del: push_bit_mask_eq)
qed

lemma stamp_masked:
  "((p AND ADK_MQ_POS_MASK) OR GetTSCLowerBits 5 32 tsc) AND ADK_MQ_POS_MASK = p AND ADK_MQ_POS_MASK"
  by (simp add: bit.conj_disj_distrib2 and.assoc tsc_bits_masked)

lemma mpsc_Push_room:
  assumes ok: "mpsc_ok sz (m, q)" and room: "TL m < RL m + ring_size m"
  shows "\<exists>m' q'. mpsc_Push sz (m, q) x = Ret ((m', q'), kSuccess) \<and> pushed x m q m' q' \<and> stamped_exact m m'"
    and "\<exists>m' q'. mpsc_PushTsc sz tsc (m, q) x = Ret ((m', q'), kSuccess) \<and> pushed x m q m' q' \<and> stamped m m'"
proof -
  from ok have i: "mq_inv m q" and rt: "mh_reserve m = mh_tail m" and f: "payload_fits sz q"
    by (simp_all add: word_unat_eq_iff)
  note g = mq_invD(1) [OF i]
  from GetFreeEntry_room [OF i] room rt obtain t where
    alloc: "GetFreeEntry m q =
      ((m\<lparr>mh_reserve := mh_reserve m + 1\<rparr>, q\<lparr>q_reserve_threshold := t\<rparr>), Some (mh_reserve m))"
    and t: "unat t \<le> RL m + ring_size m"
    by auto
  have slot: "slot_of (q\<lparr>q_reserve_threshold := t\<rparr>) (mh_tail m) = TL m mod ring_size m"
    using slot_of_mod [OF g, of "mh_tail m"] by (simp add: slot_of_def GetInQueueIndex_def)
  have in_ring: "TL m mod ring_size m < length (mh_entries m)"
    using length_entries [OF g] geo_size_pos [OF g] by simp
  let ?q = "q\<lparr>q_reserve_threshold := t\<rparr>"
  let ?m = "set_buffer (TL m mod ring_size m) x
    (set_pos (TL m mod ring_size m) (mh_tail m) (m\<lparr>mh_reserve := mh_tail m + 1\<rparr>))"
  let ?m' = "set_pos (TL m mod ring_size m) ((mh_tail m AND ADK_MQ_POS_MASK) OR GetTSCLowerBits 5 32 tsc) ?m"
  have "mpsc_Push sz (m, q) x = Ret ((?m\<lparr>mh_tail := mh_tail m + 1\<rparr>, ?q), kSuccess)"
    and "mpsc_PushTsc sz tsc (m, q) x = Ret ((?m'\<lparr>mh_tail := mh_tail m + 1\<rparr>, ?q), kSuccess)"
    using alloc slot in_ring f rt by (simp_all add: slot_simps Let_def)
  moreover have "pushed x m q (?m\<lparr>mh_tail := mh_tail m + 1\<rparr>) ?q"
    and "pushed x m q (?m'\<lparr>mh_tail := mh_tail m + 1\<rparr>) ?q"
    using t rt in_ring by (auto simp: pushed_def slot_simps)
  moreover have "stamped_exact m (?m\<lparr>mh_tail := mh_tail m + 1\<rparr>)" and "stamped m (?m'\<lparr>mh_tail := mh_tail m + 1\<rparr>)"
    using in_ring by (auto simp: stamped_def stamped_exact_def slot_simps stamp_masked)
  ultimately show "\<exists>m' q'. mpsc_Push sz (m, q) x = Ret ((m', q'), kSuccess) \<and> pushed x m q m' q' \<and> stamped_exact m m'"
    and "\<exists>m' q'. mpsc_PushTsc sz tsc (m, q) x = Ret ((m', q'), kSuccess) \<and> pushed x m q m' q' \<and> stamped m m'"
    by blast+
qed

lemma quiet_cong:
  assumes ok: "quiet sz (m, q)" and r: "same_ring m m'"
    and t: "unat t \<le> RL m + ring_size m" and h: "unat h \<le> TL m"
  shows "quiet sz (m', q\<lparr>q_reserve_threshold := t, q_head_threshold := h\<rparr>)"
  using ok r t h by (simp add: same_ring_def mq_inv_def geo_def payload_fits_def)

lemma mpsc_ok_cong:
  assumes ok: "mpsc_ok sz (m, q)" and r: "same_ring m m'"
    and t: "unat t \<le> RL m + ring_size m" and h: "unat h \<le> TL m"
  shows "mpsc_ok sz (m', q\<lparr>q_reserve_threshold := t, q_head_threshold := h\<rparr>)"
  using quiet_cong [OF _ r t h, of sz q] ok r by (simp add: posted_def same_ring_def)

lemma same_ring_contents: "same_ring m m' \<Longrightarrow> contents m' = contents m"
  by (simp add: same_ring_def contents_def)

lemma mpsc_Push_full:
  assumes ok: "mpsc_ok sz (m, q)" and full: "TL m = RL m + ring_size m"
  shows "\<exists>m' q'. mpsc_Push sz (m, q) x = Ret ((m', q'), kQueueFull) \<and>
           mpsc_PushTsc sz tsc (m, q) x = Ret ((m', q'), kQueueFull) \<and>
           mpsc_ok sz (m', q') \<and> same_ring m m'"
proof -
  from ok have i: "mq_inv m q" by simp
  let ?m = "m\<lparr>mh_nr_forward_fail := mh_nr_forward_fail m + 1\<rparr>"
  let ?t = "mh_release m + q_queue_size q"
  have same: "same_ring m ?m" by (simp add: same_ring_def)
  have "mpsc_ok sz (?m, q\<lparr>q_reserve_threshold := ?t, q_head_threshold := q_head_threshold q\<rparr>)"
    using mpsc_ok_cong [OF ok same, of ?t "q_head_threshold q"] unat_full_threshold [OF i] mq_invD(8) [OF i]
    by simp
  then have "mpsc_ok sz (?m, q\<lparr>q_reserve_threshold := ?t\<rparr>)" by simp
  moreover have "mpsc_Push sz (m, q) x = Ret ((?m, q\<lparr>q_reserve_threshold := ?t\<rparr>), kQueueFull)"
    and "mpsc_PushTsc sz tsc (m, q) x = Ret ((?m, q\<lparr>q_reserve_threshold := ?t\<rparr>), kQueueFull)"
    using ok full GetFreeEntry_full [OF i] by simp_all
  ultimately show ?thesis using same by blast
qed

text \<open>The same for a pop.\<close>

definition popped :: "'a qmem \<Rightarrow> qobj \<Rightarrow> 'a qmem \<Rightarrow> qobj \<Rightarrow> bool" where
  "popped m q m' q' \<longleftrightarrow>
     (\<exists>m1 t. same_ring m m1 \<and> unat t \<le> TL m \<and> q' = q\<lparr>q_head_threshold := t\<rparr> \<and>
        m' = m1\<lparr>mh_head := mh_head m + 1, mh_release := mh_release m + 1\<rparr>)"

lemma popped_quiet:
  assumes ok: "quiet sz (m, q)" and some: "HD m < TL m" and p: "popped m q m' q'"
  shows "quiet sz (m', q')" and "contents m' = tl (contents m)"
    and "ring_size m' = ring_size m" and "cursor_budget m' = cursor_budget m"
    and "posted (RL m) (TL m) m \<Longrightarrow> posted (RL m') (TL m') m'"
proof -
  from p obtain m1 t where m1: "same_ring m m1" and t: "unat t \<le> TL m" "q' = q\<lparr>q_head_threshold := t\<rparr>"
    and m': "m' = m1\<lparr>mh_head := mh_head m + 1, mh_release := mh_release m + 1\<rparr>"
    by (auto simp: popped_def)
  from ok have i: "mq_inv m q" and eqs: "RS m = TL m" "HD m = RL m" by simp_all
  note inv = mq_invD [OF i]
  have nxt: "unat (mh_head m + 1) = Suc (HD m)" "unat (mh_release m + 1) = Suc (RL m)"
    using unat_next [OF i, of "mh_head m"] unat_next [OF i, of "mh_release m"] inv by simp_all
  have "geo m' q'"
    using inv(1) m1 t m' by (intro geo_cong [OF inv(1)]) (simp_all add: same_ring_def)
  then have "mq_inv m' q'"
    using inv eqs some m1 m' t nxt by (simp add: mq_inv_def same_ring_def)
  then show "quiet sz (m', q')"
    using ok eqs nxt m' m1 t by (simp add: same_ring_def payload_fits_def)
  show "contents m' = tl (contents m)"
    using nxt m' m1 by (intro contents_tl) (simp_all add: same_ring_def)
  show "posted (RL m) (TL m) m \<Longrightarrow> posted (RL m') (TL m') m'"
    using m1 m' nxt by (simp add: posted_def same_ring_def)
  show "ring_size m' = ring_size m" "cursor_budget m' = cursor_budget m"
    using m' m1 by (simp_all add: same_ring_def cursor_budget_def)
qed

lemma mpsc_Pop_some:
  assumes ok: "mpsc_ok sz (m, q)" and some: "HD m < TL m"
  shows "\<exists>m' q'. mpsc_Pop sz (m, q) = Ret ((m', q'), Inr (hd (contents m))) \<and> popped m q m' q'"
    and "\<exists>m' q'. mpsc_PopTsc sz b (m, q) = Ret ((m', q'), Inr (hd (contents m))) \<and> popped m q m' q'"
proof -
  from ok have i: "mq_inv m q" and eqs: "HD m = RL m" and f: "payload_fits sz q"
    and post: "posted (RL m) (TL m) m" by simp_all
  note g = mq_invD(1) [OF i]
  have slot: "slot_of q (mh_head m) = HD m mod ring_size m" by (rule slot_of_mod [OF g])
  have hd: "hd (contents m) = buffer (mh_entries m ! (HD m mod ring_size m))"
    using contents_Cons [OF some] by simp
  have stamp: "mh_release m AND ADK_MQ_POS_MASK =
      pos (mh_entries m ! (RL m mod ring_size m)) AND ADK_MQ_POS_MASK"
    using post some eqs by (simp add: posted_def)
  from WaitEntry_some [OF i some] obtain m1 t where
    w: "WaitEntry False (m, q) =
      ((m1\<lparr>mh_head := mh_head m + 1\<rparr>, q\<lparr>q_head_threshold := t\<rparr>), Inr (slot_of q (mh_head m)))"
    "same_ring m m1" "unat t \<le> TL m" by blast
  then show "\<exists>m' q'. mpsc_Pop sz (m, q) = Ret ((m', q'), Inr (hd (contents m))) \<and> popped m q m' q'"
    using f slot hd stamp eqs by (auto simp: same_ring_def popped_def simp del: WaitEntry.simps)
  from WaitEntryTsc_some [OF i some] obtain m1 t where
    w: "WaitEntryTsc b (m, q) =
      ((m1\<lparr>mh_head := mh_head m + 1\<rparr>, q\<lparr>q_head_threshold := t\<rparr>), Inr (slot_of q (mh_head m)))"
    "same_ring m m1" "unat t \<le> TL m" by blast
  then show "\<exists>m' q'. mpsc_PopTsc sz b (m, q) = Ret ((m', q'), Inr (hd (contents m))) \<and> popped m q m' q'"
    using f slot hd stamp eqs by (auto simp: same_ring_def popped_def simp del: WaitEntryTsc.simps)
qed

lemma mpsc_Pop_none:
  assumes ok: "mpsc_ok sz (m, q)" and none: "HD m = TL m"
  shows "\<exists>q'. mpsc_Pop sz (m, q) = Ret ((m, q'), Inl kQueueEmpty) \<and>
           mpsc_PopTsc sz b (m, q) = Ret ((m, q'), Inl kQueueEmpty) \<and> mpsc_ok sz (m, q')"
proof -
  from ok have i: "mq_inv m q" and f: "payload_fits sz q" by simp_all
  have "mpsc_ok sz (m, q\<lparr>q_head_threshold := mh_tail m\<rparr>)"
    using mpsc_ok_cong [OF ok, of m "q_reserve_threshold q" "mh_tail m"] mq_invD(7) [OF i] by simp
  then show ?thesis
    using WaitEntry_none [OF i none] f by (auto simp del: WaitEntry.simps WaitEntryTsc.simps)
qed

subsection \<open>The unstamped calls\<close>

lemma mpsc_PushExp_room:
  assumes ok: "quiet sz (m, q)" and room: "TL m < RL m + ring_size m"
  shows "\<exists>m' q'. mpsc_PushExp sz (m, q) x = Ret ((m', q'), kSuccess) \<and> pushed x m q m' q'"
proof -
  from ok have i: "mq_inv m q" and f: "payload_fits sz q" and nz: "mh_tail m \<noteq> 0"
    by auto
  from ok have rt: "mh_reserve m = mh_tail m"
    by (simp add: word_unat_eq_iff)
  note g = mq_invD(1) [OF i]
  have in_ring: "TL m mod ring_size m < length (mh_entries m)"
    using length_entries [OF g] geo_size_pos [OF g] by simp
  obtain t where t: "unat t \<le> RL m + ring_size m" and alloc: "GetFreeEntryExp m q =
      Ret ((m\<lparr>mh_reserve := mh_reserve m + 1\<rparr>, q\<lparr>q_reserve_threshold := t\<rparr>), Some (mh_reserve m))"
  proof (cases "q_reserve_threshold q \<le> mh_reserve m")
    case True
    then show thesis
      using that [of "mh_release m + q_queue_size q"] unat_full_threshold [OF i] room rt
      by (simp add: GetFreeEntryExp_def Let_def word_le_nat_alt)
  next
    case False
    then show thesis
      using that [of "q_reserve_threshold q"] mq_invD(7) [OF i] by (simp add: GetFreeEntryExp_def Let_def)
  qed
  have slot: "slot_of (q\<lparr>q_reserve_threshold := t\<rparr>) (mh_tail m) = TL m mod ring_size m"
    using slot_of_mod [OF g, of "mh_tail m"] by (simp add: slot_of_def GetInQueueIndex_def)
  let ?m = "(set_buffer (TL m mod ring_size m) x (m\<lparr>mh_reserve := mh_tail m + 1\<rparr>))\<lparr>mh_tail := mh_tail m + 1\<rparr>"
  have "mpsc_PushExp sz (m, q) x = Ret ((?m, q\<lparr>q_reserve_threshold := t\<rparr>), kSuccess)"
    using alloc slot f rt nz by simp
  moreover have "pushed x m q ?m (q\<lparr>q_reserve_threshold := t\<rparr>)"
    using t rt in_ring by (auto simp: pushed_def slot_simps)
  ultimately show ?thesis by blast
qed

lemma mpsc_PushExp_full:
  assumes ok: "quiet sz (m, q)" and full: "TL m = RL m + ring_size m"
  shows "\<exists>m' q'. mpsc_PushExp sz (m, q) x = Ret ((m', q'), kQueueFull) \<and> quiet sz (m', q') \<and> same_ring m m'"
proof -
  from ok have i: "mq_inv m q" and rt: "RS m = TL m" and f: "payload_fits sz q" by simp_all
  let ?m = "m\<lparr>mh_nr_forward_fail := mh_nr_forward_fail m + 1\<rparr>"
  let ?t = "mh_release m + q_queue_size q"
  have same: "same_ring m ?m" by (simp add: same_ring_def)
  have "GetFreeEntryExp m q = Ret ((m, q\<lparr>q_reserve_threshold := ?t\<rparr>), None)"
    using unat_full_threshold [OF i] mq_invD(7) [OF i] full rt
    by (simp add: GetFreeEntryExp_def RollBack_def Let_def word_le_nat_alt)
  then have "mpsc_PushExp sz (m, q) x = Ret ((?m, q\<lparr>q_reserve_threshold := ?t\<rparr>), kQueueFull)"
    using f by simp
  moreover have "quiet sz (?m, q\<lparr>q_reserve_threshold := ?t\<rparr>)"
    using quiet_cong [OF ok same, of ?t "q_head_threshold q"] unat_full_threshold [OF i] mq_invD(8) [OF i]
    by simp
  ultimately show ?thesis using same by blast
qed

lemma mpsc_PopExp_some:
  assumes ok: "quiet sz (m, q)" and some: "HD m < TL m"
  shows "\<exists>m' q'. mpsc_PopExp sz (m, q) = Ret ((m', q'), Inr (hd (contents m))) \<and> popped m q m' q'"
proof -
  from ok have i: "mq_inv m q" and f: "payload_fits sz q" by simp_all
  have slot: "slot_of q (mh_head m) = HD m mod ring_size m" by (rule slot_of_mod [OF mq_invD(1) [OF i]])
  have hd: "hd (contents m) = buffer (mh_entries m ! (HD m mod ring_size m))"
    using contents_Cons [OF some] by simp
  from WaitEntry_some [OF i some] obtain m1 t where
    "WaitEntryExp (m, q) =
      ((m1\<lparr>mh_head := mh_head m + 1\<rparr>, q\<lparr>q_head_threshold := t\<rparr>), Inr (slot_of q (mh_head m)))"
    "same_ring m m1" "unat t \<le> TL m" by (metis WaitEntryExp_eq)
  then show ?thesis
    using f slot hd by (auto simp: same_ring_def popped_def simp del: WaitEntryExp.simps)
qed

lemma mpsc_PopExp_none:
  assumes ok: "quiet sz (m, q)" and none: "HD m = TL m"
  shows "\<exists>q'. mpsc_PopExp sz (m, q) = Ret ((m, q'), Inl kQueueEmpty) \<and> quiet sz (m, q')"
proof -
  from ok have i: "mq_inv m q" and f: "payload_fits sz q" by simp_all
  have "quiet sz (m, q\<lparr>q_head_threshold := mh_tail m\<rparr>)"
    using quiet_cong [OF ok, of m "q_reserve_threshold q" "mh_tail m"] mq_invD(7) [OF i] by simp
  then show ?thesis
    using WaitEntry_none(1) [OF i none] f by (auto simp: WaitEntryExp_eq simp del: WaitEntry.simps WaitEntryExp.simps)
qed

subsection \<open>The three families keep the contract\<close>

text \<open>The length and the cursors of a quiet queue.\<close>

lemma quiet_length:
  assumes "quiet sz s"
  shows "length (mpsc_elems s) = TL (fst s) - RL (fst s)" and "RL (fst s) \<le> TL (fst s)"
    and "TL (fst s) \<le> RL (fst s) + mpsc_cap s" and "HD (fst s) = RL (fst s)"
  using assms by (cases s; simp add: mq_inv_def length_contents)+

lemma quiet_room_iff:
  assumes "quiet sz s"
  shows "length (mpsc_elems s) < mpsc_cap s \<longleftrightarrow> TL (fst s) < RL (fst s) + mpsc_cap s"
    and "length (mpsc_elems s) = mpsc_cap s \<longleftrightarrow> TL (fst s) = RL (fst s) + mpsc_cap s"
  using quiet_length [OF assms] by auto

lemma same_ring_size: "same_ring m m' \<Longrightarrow> ring_size m' = ring_size m \<and> cursor_budget m' = cursor_budget m"
  by (simp add: same_ring_def cursor_budget_def)

text \<open>
  The contract of a pair of calls on the ring, in terms of its cursors; it gives the contract of
  the bounded queue.
\<close>

locale ring_calls =
  fixes push :: "'a queue \<Rightarrow> 'a \<Rightarrow> ('a queue \<times> ErrorCode) run"
    and pop :: "'a queue \<Rightarrow> ('a queue \<times> (ErrorCode + 'a)) run"
    and ok :: "'a queue \<Rightarrow> bool"
    and sz :: u64
  assumes ok_quiet: "ok s \<Longrightarrow> quiet sz s"
    and ring_push: "ok (m, q) \<Longrightarrow> TL m < RL m + ring_size m \<Longrightarrow> 0 < cursor_budget m \<Longrightarrow>
      \<exists>m' q'. push (m, q) x = Ret ((m', q'), kSuccess) \<and> pushed x m q m' q' \<and> ok (m', q')"
    and ring_full: "ok (m, q) \<Longrightarrow> TL m = RL m + ring_size m \<Longrightarrow>
      \<exists>m' q'. push (m, q) x = Ret ((m', q'), kQueueFull) \<and> same_ring m m' \<and> ok (m', q')"
    and ring_pop: "ok (m, q) \<Longrightarrow> HD m < TL m \<Longrightarrow>
      \<exists>m' q'. pop (m, q) = Ret ((m', q'), Inr (hd (contents m))) \<and> popped m q m' q' \<and> ok (m', q')"
    and ring_empty: "ok (m, q) \<Longrightarrow> HD m = TL m \<Longrightarrow>
      \<exists>q'. pop (m, q) = Ret ((m, q'), Inl kQueueEmpty) \<and> ok (m, q')"

sublocale ring_calls \<subseteq> bounded_fifo push pop ok mpsc_elems mpsc_cap mpsc_budget
proof (unfold_locales, goal_cases)
  case (1 s x)
  obtain m q where s: "s = (m, q)" by (cases s)
  have q: "quiet sz (m, q)" and room: "TL m < RL m + ring_size m"
    using ok_quiet [OF 1(1)] quiet_room_iff(1) [OF ok_quiet [OF 1(1)]] 1(3) s by simp_all
  from ring_push [OF 1(1) [unfolded s] room, of x] 1(2) s obtain m' q' where
    p: "push s x = Ret ((m', q'), kSuccess)" "pushed x m q m' q'" "ok (m', q')" by auto
  then show ?case
    using pushed_quiet [OF q room _ p(2)] 1(2) s by auto
next
  case (2 s x)
  obtain m q where s: "s = (m, q)" by (cases s)
  with 2 have "TL m = RL m + ring_size m" using quiet_room_iff(2) [OF ok_quiet [OF 2(1)]] by simp
  from ring_full [OF 2(1) [unfolded s] this, of x] show ?case
    using s same_ring_contents same_ring_size by fastforce
next
  case (3 s y ys)
  obtain m q where s: "s = (m, q)" by (cases s)
  with 3 have q: "quiet sz (m, q)" and some: "HD m < TL m"
    using contents_empty_iff [of m] ok_quiet by (auto simp del: quiet.simps)
  from ring_pop [OF 3(1) [unfolded s] some] obtain m' q' where
    p: "pop s = Ret ((m', q'), Inr y)" "popped m q m' q'" "ok (m', q')" using 3 s by auto
  then show ?case
    using popped_quiet [OF q some p(2)] 3 s by auto
next
  case (4 s)
  obtain m q where s: "s = (m, q)" by (cases s)
  with 4 have "HD m = TL m" using contents_empty_iff [of m] quiet_length [OF ok_quiet [OF 4(1)]] by simp
  from ring_empty [OF 4(1) [unfolded s] this] 4 s show ?case by fastforce
next
  case (5 s)
  from quiet_length [OF ok_quiet [OF 5]] show ?case by simp
qed

text \<open>The plain calls, the calls with a time stamp (any clock that may depend on the state), the unstamped calls.\<close>

lemma mpsc_ok_pushed:
  assumes "mpsc_ok sz (m, q)" "TL m < RL m + ring_size m" "0 < cursor_budget m"
    and "pushed x m q m' q'" "stamped m m'"
  shows "mpsc_ok sz (m', q')"
  using pushed_quiet [of sz m q x m' q'] posted_push [of m m'] assms by simp

lemma mpsc_ok_popped:
  assumes "mpsc_ok sz (m, q)" "HD m < TL m" "popped m q m' q'"
  shows "mpsc_ok sz (m', q')"
  using popped_quiet [of sz m q m' q'] assms by simp

interpretation mpsc: ring_calls "mpsc_Push sz" "mpsc_Pop sz" "mpsc_ok sz" sz
  for sz
proof (unfold_locales, goal_cases)
  case (1 s) then show ?case by (cases s) simp
next
  case (2 m q x) then show ?case using mpsc_Push_room(1) [OF 2(1,2), of x] mpsc_ok_pushed [OF 2] stamped_exact_imp by blast
next
  case (3 m q x) then show ?case using mpsc_Push_full [OF 3] by blast
next
  case (4 m q) then show ?case using mpsc_Pop_some(1) [OF 4] mpsc_ok_popped [OF 4] by blast
next
  case (5 m q) then show ?case using mpsc_Pop_none [OF 5] by blast
qed

interpretation mpsc_tsc: ring_calls "\<lambda>s. mpsc_PushTsc sz (clock s) s" "mpsc_PopTsc sz b" "mpsc_ok sz" sz
  for sz clock b
proof (unfold_locales, goal_cases)
  case (1 s) then show ?case by (cases s) simp
next
  case (2 m q x) then show ?case using mpsc_Push_room(2) [OF 2(1,2)] mpsc_ok_pushed [OF 2] by blast
next
  case (3 m q x) then show ?case using mpsc_Push_full [OF 3] by blast
next
  case (4 m q) then show ?case using mpsc_Pop_some(2) [OF 4] mpsc_ok_popped [OF 4] by blast
next
  case (5 m q) then show ?case using mpsc_Pop_none [OF 5] by blast
qed

interpretation mpsc_exp: ring_calls "mpsc_PushExp sz" "mpsc_PopExp sz" "quiet sz" sz
  for sz
proof (unfold_locales, goal_cases)
  case (2 m q x) then show ?case using mpsc_PushExp_room [OF 2(1,2), of x] pushed_quiet(1) [OF 2] by blast
next
  case (3 m q x) then show ?case using mpsc_PushExp_full [OF 3] by blast
next
  case (4 m q) then show ?case using mpsc_PopExp_some [OF 4] popped_quiet(1) [OF 4] by blast
next
  case (5 m q) then show ?case using mpsc_PopExp_none [OF 5] by blast
qed

section \<open>Creation\<close>

lemma InitEntries_from_Ret:
  assumes "\<And>j. i \<le> j \<Longrightarrow> j < i + n \<Longrightarrow> j * sz + 8 \<le> room"
  shows "InitEntries_from n i room sz junk = Ret (map (\<lambda>j. \<lparr>pos = 0, buffer = junk j\<rparr>) [i..<i + n])"
  using assms
proof (induction n arbitrary: i)
  case (Suc n)
  have "InitEntries_from n (Suc i) room sz junk =
      Ret (map (\<lambda>j. \<lparr>pos = 0, buffer = junk j\<rparr>) [Suc i..<Suc i + n])"
    using Suc.prems by (intro Suc.IH) auto
  moreover have "i * sz + 8 \<le> room" using Suc.prems [of i] by simp
  ultimately show ?case by (simp add: upt_conv_Cons del: upt_Suc)
qed simp

text \<open>
  The parameters a creator can serve: the sizes round to powers of two, and the byte count of the
  block does not overflow the 32 bits it is computed in.
\<close>

definition create_pre :: "platform \<Rightarrow> u32 \<Rightarrow> u32 \<Rightarrow> bool" where
  "create_pre plat payload n \<longleftrightarrow>
     0 < unat n \<and> unat n \<le> 2 ^ 31 \<and> unat payload + 8 \<le> 2 ^ 31 \<and>
     unat (ucast (max (page_size plat) (sizeof_header plat + sizeof_queue plat)) :: u32)
       + unat (RoundToPowerOf2 n) * unat (CalcEntrySize payload) < 2 ^ 32"

lemma CalcEntrySize_obtain:
  assumes "unat payload + 8 \<le> 2 ^ 31"
  obtains k where "k \<le> 31" "CalcEntrySize payload = 2 ^ k" "unat payload + 8 \<le> 2 ^ k"
proof -
  have u: "unat (payload + 8) = unat payload + 8"
    using assms by (simp add: unat_word_ariths)
  then obtain k where "k \<le> 31" "RoundToPowerOf2 (payload + 8) = 2 ^ k" "unat (payload + 8) \<le> 2 ^ k"
    using RoundToPowerOf2_obtain [of "payload + 8"] assms by auto
  then show thesis using that u by (simp add: CalcEntrySize_def)
qed

lemma mpsc_Create_ok:
  assumes pre: "create_pre plat payload n" and mem: "\<And>b. memalign_ok b"
    and fits: "unat sz \<le> unat payload"
  obtains m q where "mpsc_Create plat memalign_ok junk name payload n = Ret (Some (m, q))"
    and "mpsc_ok sz (m, q)" and "contents m = []" and "ring_size m = unat (RoundToPowerOf2 n)"
    and "cursor_budget m = 2 ^ 64 - 2 - unat (RoundToPowerOf2 n)"
    and "RL m = 1" and "TL m = 1"
proof -
  define hs where "hs = (ucast (max (page_size plat) (sizeof_header plat + sizeof_queue plat)) :: u32)"
  obtain k where k: "k \<le> 31" "RoundToPowerOf2 n = 2 ^ k"
    using pre RoundToPowerOf2_obtain [of n] by (auto simp: create_pre_def)
  obtain e where e: "e \<le> 31" "CalcEntrySize payload = 2 ^ e" "unat payload + 8 \<le> 2 ^ e"
    using pre CalcEntrySize_obtain [of payload] by (auto simp: create_pre_def)
  have small: "unat hs + 2 ^ k * 2 ^ e < 2 ^ 32"
    using pre k e by (simp add: create_pre_def hs_def)
  have prod: "unat (2 ^ k * 2 ^ e :: u32) = 2 ^ k * 2 ^ e"
    using small k e by (simp add: unat_word_ariths)
  have total: "unat (hs + 2 ^ k * 2 ^ e) = unat hs + 2 ^ k * 2 ^ e"
    using small prod by (simp add: unat_word_ariths)
  define es where "es = map (\<lambda>j. \<lparr>pos = 0, buffer = junk j\<rparr>) [0..<2 ^ k]"
  have "j * 2 ^ e + 8 \<le> 2 ^ k * 2 ^ e" if "j < 2 ^ k" for j :: nat
  proof -
    have "Suc j * 2 ^ e \<le> 2 ^ k * 2 ^ e" using that by (intro mult_le_mono1) simp
    then show ?thesis using e(3) by simp
  qed
  then have ini: "InitEntries (2 ^ k) payload (2 ^ k * 2 ^ e) junk = Ret es"
    using InitEntries_from_Ret [of 0 "2 ^ k" "2 ^ e" "2 ^ k * 2 ^ e" junk] k e
    by (simp add: InitEntries_def es_def)
  define m where "m = init_header name (2 ^ e) (2 ^ k) (ucast hs - sizeof_queue plat) es"
  define q where "q = \<lparr>q_entry_size = mh_entry_size m, q_entry_bits = e, q_queue_mask = ucast (mh_queue_mask m),
      q_queue_size = ucast (mh_queue_size m), q_release_alert = False, q_mq_index = -1,
      q_avg_buf = False, q_avg_lat_buf = False, q_avg_lat_buf_index = 0, q_avg_lat_buf_index_save = 0,
      q_reserve_threshold = ucast (mh_queue_size m), q_monotonic_reserve_index = mh_reserve m,
      q_head_threshold = 0, q_monotonic_head_index = mh_head m\<rparr>"
  have "mpsc_Init (-1) m = Ret q"
    using e(1) by (simp add: mpsc_Init_def q_def m_def init_header_def)
  then have "mpsc_Create plat memalign_ok junk name payload n = Ret (Some (m, q))"
    using k e mem ini total
    by (simp add: mpsc_Create_def Let_def m_def hs_def [symmetric])
  moreover have "mpsc_ok sz (m, q)" and "contents m = []"
  proof -
    have g: "geo m q"
      using k by (auto simp: geo_def m_def q_def init_header_def es_def)
    have pow: "(2::nat) ^ k \<le> 2 ^ 31" using k by (intro power_increasing) auto
    have "payload_fits sz q"
    proof -
      have "8 \<le> (2::nat) ^ e" using e(3) by simp
      then have "unat (ucast (2 ^ e :: u32) - 8 :: u64) = 2 ^ e - 8"
        using e(1) by (simp add: unat_sub word_le_nat_alt)
      then show ?thesis
        using fits e by (simp add: payload_fits_def word_le_nat_alt q_def m_def init_header_def)
    qed
    moreover have "mq_inv m q"
      using g k pow by (simp add: mq_inv_def m_def q_def init_header_def QUEUE_CURSOR_INIT_VALUE_def)
    ultimately show "mpsc_ok sz (m, q)" and "contents m = []"
      by (simp_all add: m_def init_header_def QUEUE_CURSOR_INIT_VALUE_def posted_def contents_def)
  qed
  moreover have "ring_size m = unat (RoundToPowerOf2 n)" "RL m = 1" "TL m = 1"
    and "cursor_budget m = 2 ^ 64 - 2 - unat (RoundToPowerOf2 n)"
    using k by (simp_all add: m_def init_header_def cursor_budget_def QUEUE_CURSOR_INIT_VALUE_def)
  ultimately show thesis using that by blast
qed

section \<open>Attaching an object, duplicates and recovery\<close>

text \<open>A memory a new object can be attached to, whatever state the cursors are in.\<close>

definition mem_ok :: "'a qmem \<Rightarrow> bool" where
  "mem_ok m \<longleftrightarrow> (\<exists>k\<le>31. mh_queue_size m = 2 ^ k) \<and> (\<exists>e\<le>31. mh_entry_size m = 2 ^ e) \<and>
     mh_queue_mask m = mh_queue_size m - 1 \<and> length (mh_entries m) = ring_size m \<and>
     RL m \<le> HD m \<and> HD m \<le> TL m \<and> TL m \<le> RS m \<and> RS m \<le> RL m + ring_size m \<and>
     RS m + ring_size m < 2 ^ 64"

lemma mpsc_Init_inv:
  assumes "mem_ok m"
  obtains q where "mpsc_Init idx m = Ret q" and "mq_inv m q"
    and "q_entry_size q = mh_entry_size m" and "q_release_alert q = False"
proof -
  from assms obtain e where e: "e \<le> 31" "mh_entry_size m = 2 ^ e" by (auto simp: mem_ok_def)
  then obtain q where q: "mpsc_Init idx m = Ret q" by (simp add: mpsc_Init_def)
  moreover have "geo m q" and "unat (q_reserve_threshold q) \<le> RL m + ring_size m"
    and "unat (q_head_threshold q) \<le> TL m"
    and "q_entry_size q = mh_entry_size m" "q_release_alert q = False"
    using q e assms by (auto simp: mpsc_Init_def mem_ok_def geo_def)
  ultimately show thesis
    using that assms by (simp add: mq_inv_def mem_ok_def)
qed

lemma Consistent_simps [simp]:
  "mh_queue_size (Consistent b m) = mh_queue_size m"
  "mh_queue_mask (Consistent b m) = mh_queue_mask m"
  "mh_entry_size (Consistent b m) = mh_entry_size m"
  "mh_entries (Consistent b m) = mh_entries m"
  "mh_tail (Consistent b m) = mh_tail m"
  "mh_reserve (Consistent b m) = mh_tail m"
  "mh_head (Consistent b m) = (if b then mh_release m else mh_head m)"
  "mh_release (Consistent b m) = (if b then mh_release m else mh_head m)"
  by (simp_all add: Consistent_def ProducerEndConsistent_def ConsumerEndConsistent_def)

lemma Consistent_mem_ok: "mem_ok m \<Longrightarrow> mem_ok (Consistent b m)"
  by (auto simp: mem_ok_def)

text \<open>What was posted and not given back: the elements taken by the crashed consumer come first.\<close>

definition unreleased :: "'a qmem \<Rightarrow> 'a list" where
  "unreleased m = map (\<lambda>i. buffer (mh_entries m ! (i mod ring_size m))) [RL m..<TL m]"

lemma unreleased_split:
  assumes "RL m \<le> HD m" "HD m \<le> TL m"
  shows "unreleased m =
    map (\<lambda>i. buffer (mh_entries m ! (i mod ring_size m))) [RL m..<HD m] @ contents m"
proof -
  have "[RL m..<TL m] = [RL m..<HD m] @ [HD m..<TL m]"
    using assms upt_add_eq_append [of "RL m" "HD m" "TL m - HD m"] by simp
  then show ?thesis by (simp add: unreleased_def contents_def)
qed

lemma recovered_quiet:
  assumes m: "mem_ok m" and pos: "0 < TL m" and fits: "sz \<le> ucast (mh_entry_size m) - 8"
  obtains q where "mpsc_Init idx (Consistent b m) = Ret q" and "quiet sz (Consistent b m, q)"
proof -
  obtain q where q: "mpsc_Init idx (Consistent b m) = Ret q" "mq_inv (Consistent b m) q"
    "q_entry_size q = mh_entry_size (Consistent b m)"
    using mpsc_Init_inv [OF Consistent_mem_ok [OF m], of idx b] by blast
  then have "quiet sz (Consistent b m, q)"
    using pos fits by (simp add: payload_fits_def)
  with q that show thesis by blast
qed

section \<open>Looking at the head\<close>

text \<open>Plain pushes leave the exact cursor in the stamp, which \<^verbatim>\<open>FreeEntry\<close> and \<^verbatim>\<open>Pop()\<close> rely on.\<close>

fun mpsc_exact :: "u64 \<Rightarrow> 'a queue \<Rightarrow> bool" where
  "mpsc_exact sz (m, q) \<longleftrightarrow> quiet sz (m, q) \<and>
     (\<forall>i. RL m \<le> i \<longrightarrow> i < TL m \<longrightarrow> pos (mh_entries m ! (i mod ring_size m)) = of_nat i)"

lemma mpsc_exact_ok: "mpsc_exact sz s \<Longrightarrow> mpsc_ok sz s"
  by (cases s) (simp add: posted_def)

lemma head_stamp:
  assumes "mpsc_exact sz (m, q)" "HD m < TL m"
  shows "pos (mh_entries m ! (HD m mod ring_size m)) = mh_head m" and "mh_release m = mh_head m"
  using assms by (auto simp: word_unat_eq_iff [of "mh_release m"])

lemma mpsc_Pop_drop_some:
  assumes ex: "mpsc_exact sz (m, q)" and some: "HD m < TL m"
  shows "\<exists>m' q'. mpsc_Pop_drop (m, q) = Ret ((m', q'), kSuccess) \<and> popped m q m' q'"
proof -
  from ex have i: "mq_inv m q" by simp
  have slot: "slot_of q (mh_head m) = HD m mod ring_size m" by (rule slot_of_mod [OF mq_invD(1) [OF i]])
  from WaitEntry_some [OF i some] obtain m1 t where
    "WaitEntry False (m, q) =
      ((m1\<lparr>mh_head := mh_head m + 1\<rparr>, q\<lparr>q_head_threshold := t\<rparr>), Inr (slot_of q (mh_head m)))"
    "same_ring m m1" "unat t \<le> TL m" by blast
  then show ?thesis
    using head_stamp [OF ex some] slot by (auto simp: same_ring_def popped_def Let_def simp del: WaitEntry.simps)
qed

lemma mpsc_Head_some:
  assumes ex: "mpsc_exact sz (m, q)" and some: "HD m < TL m"
  shows "\<exists>m1 q1 e. mpsc_Head sz g (m, q) = Ret ((m1, q1), Some e, Some (hd (contents m))) \<and>
    same_ring m m1 \<and> (\<exists>m' q'. mpsc_Pop_head (Some e) (m1, q1) = Ret ((m', q'), kSuccess) \<and> popped m q m' q')"
proof -
  from ex have i: "mq_inv m q" and f: "payload_fits sz q" by simp_all
  have slot: "slot_of q (mh_head m) = HD m mod ring_size m" by (rule slot_of_mod [OF mq_invD(1) [OF i]])
  have hd: "hd (contents m) = buffer (mh_entries m ! (HD m mod ring_size m))"
    using contents_Cons [OF some] by simp
  obtain m1 t where h: "mpsc_Head sz g (m, q) = Ret ((m1, q\<lparr>q_head_threshold := t\<rparr>),
      Some (HD m mod ring_size m), Some (hd (contents m)))" and m1: "same_ring m m1" and t: "unat t \<le> TL m"
  proof (cases "q_head_threshold q \<le> mh_head m")
    case True
    then show thesis
      using that [of "UpdateQueueLenth (mh_head m) m (q\<lparr>q_head_threshold := mh_tail m\<rparr>)" "mh_tail m"]
        some f slot hd
      by (simp add: Let_def word_le_nat_alt slot_of_def GetInQueueIndex_def)
  next
    case False
    then show thesis
      using that [of m "q_head_threshold q"] mq_invD(8) [OF i] f slot hd by (simp add: Let_def)
  qed
  have "mpsc_Pop_head (Some (HD m mod ring_size m)) (m1, q\<lparr>q_head_threshold := t\<rparr>) =
      Ret ((m1\<lparr>mh_head := mh_head m + 1, mh_release := mh_head m + 1\<rparr>, q\<lparr>q_head_threshold := t\<rparr>), kSuccess)"
    using m1 head_stamp [OF ex some] by (simp add: same_ring_def Let_def)
  then show ?thesis
    using h m1 t head_stamp [OF ex some] by (auto simp: popped_def)
qed

lemma mpsc_exact_pushed:
  assumes ex: "mpsc_exact sz (m, q)" and room: "TL m < RL m + ring_size m" and b: "0 < cursor_budget m"
    and p: "pushed x m q m' q'" and st: "stamped_exact m m'"
  shows "mpsc_exact sz (m', q')"
proof -
  note pq = pushed_quiet [OF _ room b p, of sz]
  have "pos (mh_entries m' ! (i mod ring_size m)) = of_nat i" if "RL m \<le> i" "i < Suc (TL m)" for i
  proof (cases "i = TL m")
    case False
    then have "i mod ring_size m \<noteq> TL m mod ring_size m"
      using that room by (intro mod_neq_window) auto
    then show ?thesis using False that ex st by (simp add: stamped_exact_def)
  qed (use st in \<open>simp add: stamped_exact_def\<close>)
  with pq ex show ?thesis by simp
qed

lemma mpsc_exact_same:
  assumes "mpsc_exact sz (m, q)" "mpsc_ok sz (m', q')" "same_ring m m'"
  shows "mpsc_exact sz (m', q')"
  using assms by (simp add: same_ring_def)

lemma mpsc_exact_popped:
  assumes "mpsc_exact sz (m, q)" "HD m < TL m" "popped m q m' q'"
  shows "mpsc_exact sz (m', q')"
proof -
  have nxt: "unat (mh_release m + 1) = Suc (RL m)"
    using assms unat_next [of m q "mh_release m"] by (simp add: mq_inv_def)
  show ?thesis
    using popped_quiet(1) [OF _ assms(2,3), of sz] assms nxt by (auto simp: popped_def same_ring_def)
qed

interpretation mpsc_plain: ring_calls "mpsc_Push sz" "mpsc_Pop sz" "mpsc_exact sz" sz
  for sz
proof (unfold_locales, goal_cases)
  case (1 s) then show ?case by (cases s) simp
next
  case (2 m q x)
  then show ?case
    using mpsc_Push_room(1) [OF mpsc_exact_ok [OF 2(1)] 2(2), of x] mpsc_exact_pushed [OF 2] by blast
next
  case (3 m q x)
  then show ?case
    using mpsc_Push_full [OF mpsc_exact_ok [OF 3(1)] 3(2)] mpsc_exact_same [OF 3(1)] by blast
next
  case (4 m q)
  then show ?case
    using mpsc_Pop_some(1) [OF mpsc_exact_ok [OF 4(1)] 4(2)] mpsc_exact_popped [OF 4] by blast
next
  case (5 m q)
  then show ?case
    using mpsc_Pop_none [OF mpsc_exact_ok [OF 5(1)] 5(2)] mpsc_exact_same [OF 5(1)] same_ring_samples(1) by blast
qed

section \<open>Properties of the queue\<close>

lemma mpsc_Create_exact:
  assumes pre: "create_pre plat payload n" and mem: "\<And>b. memalign_ok b"
    and fits: "unat sz \<le> unat payload"
  obtains m q where "mpsc_Create plat memalign_ok junk name payload n = Ret (Some (m, q))"
    and "mpsc_exact sz (m, q)" and "contents m = []" and "ring_size m = unat (RoundToPowerOf2 n)"
    and "cursor_budget m = 2 ^ 64 - 2 - unat (RoundToPowerOf2 n)"
proof (rule mpsc_Create_ok [OF pre mem fits, where junk = junk and name = name])
  fix m q
  assume "mpsc_Create plat memalign_ok junk name payload n = Ret (Some (m, q))" "mpsc_ok sz (m, q)"
    "contents m = []" "ring_size m = unat (RoundToPowerOf2 n)"
    "cursor_budget m = 2 ^ 64 - 2 - unat (RoundToPowerOf2 n)" "RL m = 1" "TL m = 1"
  then show thesis by (intro that [of m q]) simp_all
qed

text \<open>
  C1: a queue made by \<^verbatim>\<open>MPSCQueue::Create\<close> behaves, over any sequence of \<^verbatim>\<open>Push\<close> and \<^verbatim>\<open>Pop\<close> calls
  short enough for the 64-bit cursors, as a bounded first-in first-out buffer whose capacity is the requested
  size rounded up to a power of two: every call returns, with the result of the abstract queue.
\<close>

theorem mpsc_queue_fifo:
  assumes "create_pre plat payload n" and "\<And>b. memalign_ok b" and "unat sz \<le> unat payload"
    and "pushes ops \<le> 2 ^ 64 - 2 - unat (RoundToPowerOf2 n)"
  shows "\<exists>s s'. mpsc_Create plat memalign_ok junk name payload n = Ret (Some s) \<and>
    impl_run (mpsc_Push sz) (mpsc_Pop sz) s ops = Ret (s', snd (spec_run (unat (RoundToPowerOf2 n)) [] ops)) \<and>
    contents (fst s') = fst (spec_run (unat (RoundToPowerOf2 n)) [] ops)"
proof -
  obtain m q where c: "mpsc_Create plat memalign_ok junk name payload n = Ret (Some (m, q))"
    "mpsc_ok sz (m, q)" "contents m = []" "ring_size m = unat (RoundToPowerOf2 n)"
    "cursor_budget m = 2 ^ 64 - 2 - unat (RoundToPowerOf2 n)"
    using mpsc_Create_ok [OF assms(1-3), where junk = junk and name = name] .
  with mpsc.run_refines [OF c(2), of ops] assms(4) show ?thesis by auto
qed

definition demo_platform :: platform where
  "demo_platform = \<lparr>page_size = 4096, sizeof_header = 1024, sizeof_queue = 512\<rparr>"

lemma demo_pre: "create_pre demo_platform 8 3" "RoundToPowerOf2 3 = 4"
  by (simp_all add: create_pre_def demo_platform_def RoundToPowerOf2_def CalcEntrySize_def smear_step_def
      Let_def drop_bit_eq_div)

theorem mpsc_queue_fifo_witness:
  "\<exists>s s'. mpsc_Create demo_platform (\<lambda>_. True) (\<lambda>_. 0::nat) ''q'' 8 3 = Ret (Some s) \<and>
     impl_run (mpsc_Push 8) (mpsc_Pop 8) s [OpPush 5, OpPush 6, OpPop, OpPop, OpPop] =
       Ret (s', [OutPush kSuccess, OutPush kSuccess, OutPop (Inr 5), OutPop (Inr 6), OutPop (Inl kQueueEmpty)]) \<and>
     contents (fst s') = []"
  using mpsc_queue_fifo [OF demo_pre(1), of "\<lambda>_. True" 8 "[OpPush 5, OpPush 6, OpPop, OpPop, OpPop]" "\<lambda>_. 0" "''q''"]
  by (simp add: demo_pre(2) del: impl_run.simps)

text \<open>
  The same for \<^verbatim>\<open>PushTsc\<close> and \<^verbatim>\<open>PopTsc\<close>, whatever the time stamp counter shows: the stamp
  a producer writes into the upper bits of \<^verbatim>\<open>pos\<close> never trips the consumer's check.
\<close>

theorem mpsc_tsc_fifo:
  assumes "create_pre plat payload n" and "\<And>b. memalign_ok b" and "unat sz \<le> unat payload"
    and "pushes ops \<le> 2 ^ 64 - 2 - unat (RoundToPowerOf2 n)"
  shows "\<exists>s s'. mpsc_Create plat memalign_ok junk name payload n = Ret (Some s) \<and>
    impl_run (\<lambda>s. mpsc_PushTsc sz (clock s) s) (mpsc_PopTsc sz stats) s ops =
      Ret (s', snd (spec_run (unat (RoundToPowerOf2 n)) [] ops))"
proof -
  obtain m q where c: "mpsc_Create plat memalign_ok junk name payload n = Ret (Some (m, q))"
    "mpsc_ok sz (m, q)" "contents m = []" "ring_size m = unat (RoundToPowerOf2 n)"
    "cursor_budget m = 2 ^ 64 - 2 - unat (RoundToPowerOf2 n)"
    using mpsc_Create_ok [OF assms(1-3), where junk = junk and name = name] .
  with mpsc_tsc.run_refines [OF c(2), of ops clock stats] assms(4) show ?thesis by auto
qed

theorem mpsc_tsc_fifo_witness:
  "\<exists>s s'. mpsc_Create demo_platform (\<lambda>_. True) (\<lambda>_. 0::nat) ''q'' 8 3 = Ret (Some s) \<and>
     impl_run (\<lambda>s. mpsc_PushTsc 8 0x123456789AB s) (mpsc_PopTsc 8 True) s [OpPush 5, OpPop] =
       Ret (s', [OutPush kSuccess, OutPop (Inr 5)])"
  using mpsc_tsc_fifo [OF demo_pre(1), of "\<lambda>_. True" 8 "[OpPush 5, OpPop]" "\<lambda>_. 0" "''q''"
      "\<lambda>_. 0x123456789AB" True]
  by (simp add: demo_pre(2) del: impl_run.simps)

text \<open>
  The same for \<^verbatim>\<open>PushExp\<close> and \<^verbatim>\<open>PopExp\<close>: a reservation that finds the ring full is rolled
  back, so a failed push leaves no gap.
\<close>

theorem mpsc_exp_fifo:
  assumes "create_pre plat payload n" and "\<And>b. memalign_ok b" and "unat sz \<le> unat payload"
    and "pushes ops \<le> 2 ^ 64 - 2 - unat (RoundToPowerOf2 n)"
  shows "\<exists>s s'. mpsc_Create plat memalign_ok junk name payload n = Ret (Some s) \<and>
    impl_run (mpsc_PushExp sz) (mpsc_PopExp sz) s ops =
      Ret (s', snd (spec_run (unat (RoundToPowerOf2 n)) [] ops))"
proof -
  obtain m q where c: "mpsc_Create plat memalign_ok junk name payload n = Ret (Some (m, q))"
    "mpsc_ok sz (m, q)" "contents m = []" "ring_size m = unat (RoundToPowerOf2 n)"
    "cursor_budget m = 2 ^ 64 - 2 - unat (RoundToPowerOf2 n)"
    using mpsc_Create_ok [OF assms(1-3), where junk = junk and name = name] .
  then have "quiet sz (m, q)" by simp
  with mpsc_exp.run_refines [OF this, of ops] c assms(4) show ?thesis by auto
qed

theorem mpsc_exp_fifo_witness:
  "\<exists>s s'. mpsc_Create demo_platform (\<lambda>_. True) (\<lambda>_. 0::nat) ''q'' 8 3 = Ret (Some s) \<and>
     impl_run (mpsc_PushExp 8) (mpsc_PopExp 8) s
       [OpPush 11, OpPush 12, OpPush 13, OpPush 14, OpPush 15, OpPop] =
       Ret (s', [OutPush kSuccess, OutPush kSuccess, OutPush kSuccess, OutPush kSuccess,
                 OutPush kQueueFull, OutPop (Inr 11)])"
  using mpsc_exp_fifo [OF demo_pre(1), of "\<lambda>_. True" 8
      "[OpPush 11, OpPush 12, OpPush 13, OpPush 14, OpPush 15, OpPop]" "\<lambda>_. 0" "''q''"]
  by (simp add: demo_pre(2) del: impl_run.simps)



text \<open>
  Looking with \<^verbatim>\<open>Head\<close> and then giving back with \<^verbatim>\<open>Pop()\<close> is a \<^verbatim>\<open>Pop\<close>: in every state
  that a fresh queue reaches, \<^verbatim>\<open>Head\<close> shows the oldest element without taking it, and the \<^verbatim>\<open>Pop()\<close>
  that follows returns at once and removes exactly that element.
\<close>

theorem mpsc_head_pop:
  assumes "create_pre plat payload n" and "\<And>b. memalign_ok b" and "unat sz \<le> unat payload"
    and "pushes ops \<le> 2 ^ 64 - 2 - unat (RoundToPowerOf2 n)"
    and "fst (spec_run (unat (RoundToPowerOf2 n)) [] ops) = y # ys"
  shows "\<exists>s s' outs s1 g1 s2. mpsc_Create plat memalign_ok junk name payload n = Ret (Some s) \<and>
    impl_run (mpsc_Push sz) (mpsc_Pop sz) s ops = Ret (s', outs) \<and>
    mpsc_Head sz g s' = Ret (s1, g1, Some y) \<and> contents (fst s1) = y # ys \<and>
    mpsc_Pop_head g1 s1 = Ret (s2, kSuccess) \<and> contents (fst s2) = ys"
proof -
  obtain m q where c: "mpsc_Create plat memalign_ok junk name payload n = Ret (Some (m, q))"
    "mpsc_exact sz (m, q)" "contents m = []" "ring_size m = unat (RoundToPowerOf2 n)"
    "cursor_budget m = 2 ^ 64 - 2 - unat (RoundToPowerOf2 n)"
    using mpsc_Create_exact [OF assms(1-3), where junk = junk and name = name] .
  with mpsc_plain.run_refines [OF c(2), of ops] assms(4,5) obtain m' q' outs where
    r: "impl_run (mpsc_Push sz) (mpsc_Pop sz) (m, q) ops = Ret ((m', q'), outs)" "mpsc_exact sz (m', q')"
    "contents m' = y # ys" by auto
  then have some: "HD m' < TL m'" using contents_empty_iff [of m'] by simp
  from mpsc_Head_some [OF r(2) some, of g] obtain m1 q1 e m2 q2 where
    h: "mpsc_Head sz g (m', q') = Ret ((m1, q1), Some e, Some y)" "same_ring m' m1"
    "mpsc_Pop_head (Some e) (m1, q1) = Ret ((m2, q2), kSuccess)" "popped m' q' m2 q2"
    using r(3) by auto
  have "contents m2 = ys"
    using popped_quiet(2) [OF _ some h(4), of sz] r by simp
  with c h r same_ring_contents [OF h(2)] show ?thesis by auto
qed

theorem mpsc_head_pop_witness:
  "\<exists>s s' outs s1 g1 s2. mpsc_Create demo_platform (\<lambda>_. True) (\<lambda>_. 0::nat) ''q'' 8 3 = Ret (Some s) \<and>
     impl_run (mpsc_Push 8) (mpsc_Pop 8) s [OpPush 5, OpPush 6, OpPop] = Ret (s', outs) \<and>
     mpsc_Head 8 None s' = Ret (s1, g1, Some 6) \<and> contents (fst s1) = [6] \<and>
     mpsc_Pop_head g1 s1 = Ret (s2, kSuccess) \<and> contents (fst s2) = []"
  using mpsc_head_pop [OF demo_pre(1), of "\<lambda>_. True" 8 "[OpPush 5, OpPush 6, OpPop]" 6 "[]" "\<lambda>_. 0" "''q''" None]
  by (simp add: demo_pre(2) del: impl_run.simps mpsc_Head.simps mpsc_Pop_head.simps split_paired_Ex)

text \<open>
  C3: recovery after a crash. Whatever was in flight when the users of a shared queue died, running
  \<^verbatim>\<open>Consistent(true)\<close> and attaching a new object gives a working queue that first delivers every
  element that was posted and not given back, in order: the ones the dead consumer held come again,
  no posted element is lost, and the slots the dead producers had only reserved are free again.
\<close>

theorem mpsc_recovery:
  assumes "mem_ok m" and "0 < TL m" and "sz \<le> ucast (mh_entry_size m) - 8"
    and "pushes ops \<le> 2 ^ 64 - 1 - ring_size m - TL m"
  shows "\<exists>q s'. mpsc_Init idx (Consistent True m) = Ret q \<and>
    impl_run (mpsc_PushExp sz) (mpsc_PopExp sz) (Consistent True m, q) ops =
      Ret (s', snd (spec_run (ring_size m) (unreleased m) ops))"
proof -
  from recovered_quiet [OF assms(1-3), of idx True] obtain q where
    q: "mpsc_Init idx (Consistent True m) = Ret q" "quiet sz (Consistent True m, q)" by blast
  have "contents (Consistent True m) = unreleased m"
    by (simp add: contents_def unreleased_def)
  moreover have "cursor_budget (Consistent True m) = 2 ^ 64 - 1 - ring_size m - TL m"
    by (simp add: cursor_budget_def)
  ultimately show ?thesis
    using mpsc_exp.run_refines [OF q(2), of ops] q(1) assms(4) by auto
qed

definition demo_crashed :: "nat qmem" where
  "demo_crashed = (init_header ''q'' 16 4 4096
      [\<lparr>pos = 4, buffer = 14\<rparr>, \<lparr>pos = 1, buffer = 11\<rparr>, \<lparr>pos = 2, buffer = 12\<rparr>, \<lparr>pos = 3, buffer = 13\<rparr>])
    \<lparr>mh_reserve := 5, mh_tail := 4, mh_head := 3, mh_release := 2\<rparr>"

lemma demo_crashed_mem_ok: "mem_ok demo_crashed"
proof -
  have "\<exists>k\<le>31. (4::u32) = 2 ^ k" "\<exists>e\<le>31. (16::u32) = 2 ^ e"
    by (rule exI [of _ 2], simp) (rule exI [of _ 4], simp)
  then show ?thesis
    by (simp add: mem_ok_def demo_crashed_def init_header_def)
qed

lemma demo_crashed_facts:
  "ring_size demo_crashed = 4" "TL demo_crashed = 4" "mh_entry_size demo_crashed = 16"
  "unreleased demo_crashed = [12, 13]"
  by (simp_all add: demo_crashed_def init_header_def unreleased_def upt_conv_Cons)

theorem mpsc_recovery_witness:
  "\<exists>q s'. mpsc_Init 0 (Consistent True demo_crashed) = Ret q \<and>
     impl_run (mpsc_PushExp 8) (mpsc_PopExp 8) (Consistent True demo_crashed, q)
       [OpPop, OpPush 20, OpPop, OpPop] =
       Ret (s', [OutPop (Inr 12), OutPush kSuccess, OutPop (Inr 13), OutPop (Inr 20)])"
  using mpsc_recovery [OF demo_crashed_mem_ok, of 8 "[OpPop, OpPush 20, OpPop, OpPop]" 0]
  by (simp add: demo_crashed_facts del: impl_run.simps)

text \<open>
  C4: the byte count of a queue is a 32-bit product. When the ring needs 4 GiB or more the product
  wraps to zero, the block is as small as its header, and initialising the ring writes outside it.
\<close>

theorem mpsc_create_overflow:
  assumes "0 < unat n" "unat n \<le> 2 ^ 31" and "unat payload + 8 \<le> 2 ^ 31"
    and "2 ^ 32 \<le> unat (RoundToPowerOf2 n) * unat (CalcEntrySize payload)"
    and "\<And>b. memalign_ok b"
  shows "mpsc_Create plat memalign_ok junk name payload n = Undef"
proof -
  obtain k where k: "k \<le> 31" "RoundToPowerOf2 n = 2 ^ k"
    using assms(1,2) by (rule RoundToPowerOf2_obtain)
  obtain e where e: "e \<le> 31" "CalcEntrySize payload = 2 ^ e"
    using assms(3) by (rule CalcEntrySize_obtain)
  have "2 ^ 32 \<le> (2::nat) ^ (k + e)"
    using assms(4) k e by (simp add: power_add)
  then have "32 \<le> k + e"
    by (rule power_le_imp_le_exp [rotated]) simp
  then have zero: "2 ^ k * 2 ^ e = (0::u32)"
    by (simp add: power_add [symmetric] exp_eq_zero_iff)
  obtain d where d: "(2::nat) ^ k = Suc d"
    by (metis not0_implies_Suc power_not_zero zero_neq_numeral)
  have "InitEntries (2 ^ k) payload 0 junk = Undef"
    using k(1) d by (simp add: InitEntries_def)
  then show ?thesis
    using assms(5) k e zero by (simp add: mpsc_Create_def Let_def)
qed

theorem mpsc_create_overflow_witness:
  "mpsc_Create demo_platform (\<lambda>_. True) (\<lambda>_. 0::nat) ''q'' 65528 65536 = Undef"
  using mpsc_create_overflow [of 65536 65528 "\<lambda>_. True" demo_platform "\<lambda>_. 0::nat" "''q''"]
  by (simp add: CalcEntrySize_def RoundToPowerOf2_def smear_step_def Let_def drop_bit_eq_div)

end
