(* ===== verification/Mpsc_Concurrent.thy ===== *)
theory Mpsc_Concurrent
  imports Mpsc_Queue
begin

section \<open>The multi-producer single-consumer queue under interleaving\<close>

text \<open>
  Any number of producers run \<^verbatim>\<open>MPSCQueue::Push\<close> while one consumer runs \<^verbatim>\<open>MPSCQueue::Pop\<close>, on one
  memory. A step is one shared access of the source: a read or write of a cursor, of a cached
  threshold or of a field of a slot, or the compare-and-swap on \<^verbatim>\<open>reserve\<close>; the accesses are
  interleaved in any order and are sequentially consistent (on the supported platforms the compiler
  barriers of the source are enough for the order it needs). Producer \<open>p\<close> works on the object
  \<open>own p\<close>: producers may share an object or use duplicates. The consumer uses object \<open>cid\<close>.
  The state carries three history variables: \<open>hist\<close>, the elements in the order they were
  published with the producer of each, \<open>taken\<close>, the elements \<^verbatim>\<open>Pop\<close> has returned, and \<open>lost\<close>, the
  cursors that producers reserved and gave up after a \<^verbatim>\<open>set_release_alert\<close>.
\<close>

text \<open>Where a producer is in \<^verbatim>\<open>Push\<close>, with its local variables.\<close>

datatype 'a ppc =
    PIdle
  | PLoad 'a                 \<comment> \<open>at the head of the loop of \<^verbatim>\<open>GetFreeEntry\<close>\<close>
  | PCheck 'a u64            \<comment> \<open>\<^verbatim>\<open>temp_reserve\<close> read, before the comparison with the threshold\<close>
  | PRefresh 'a u64          \<comment> \<open>about to read \<^verbatim>\<open>release\<close>\<close>
  | PStore 'a u64 u64        \<comment> \<open>\<^verbatim>\<open>release\<close> read, about to store the threshold\<close>
  | PRecheck 'a u64          \<comment> \<open>before the second comparison\<close>
  | PCas 'a u64              \<comment> \<open>about to compare and swap \<^verbatim>\<open>reserve\<close>\<close>
  | PStamp 'a u64            \<comment> \<open>slot reserved, about to write \<^verbatim>\<open>pos\<close>\<close>
  | PFill 'a u64             \<comment> \<open>about to write the element\<close>
  | PPost 'a u64             \<comment> \<open>in \<^verbatim>\<open>PostEntry\<close>, about to read \<^verbatim>\<open>pos\<close>\<close>
  | PSpin 'a u64 u64         \<comment> \<open>waiting for \<^verbatim>\<open>tail\<close> to reach \<^verbatim>\<open>pos\<close>\<close>
  | PPublish 'a u64 u64      \<comment> \<open>about to store \<^verbatim>\<open>tail\<close>\<close>

text \<open>Where the consumer is in \<^verbatim>\<open>Pop\<close>.\<close>

datatype 'a cpc =
    CIdle
  | CGot u64                 \<comment> \<open>\<^verbatim>\<open>head\<close> read\<close>
  | CRecheck u64             \<comment> \<open>threshold refreshed\<close>
  | CTake u64                \<comment> \<open>about to store \<^verbatim>\<open>head\<close>\<close>
  | CCopy u64                \<comment> \<open>about to copy the element\<close>
  | CFree u64 'a             \<comment> \<open>element copied, about to store \<^verbatim>\<open>release\<close>\<close>
  | CAssertFailed            \<comment> \<open>the assertion on the stamp of the slot failed\<close>

record 'a cstate =
  cm :: "'a qmem"
  co :: "nat \<Rightarrow> qobj"
  cp :: "nat \<Rightarrow> 'a ppc"
  cc :: "'a cpc"
  hist :: "(nat \<times> 'a) list"
  taken :: "'a list"
  lost :: "nat set"

definition set_pc :: "nat \<Rightarrow> 'a ppc \<Rightarrow> 'a cstate \<Rightarrow> 'a cstate" where
  "set_pc p pc s = s\<lparr>cp := (cp s)(p := pc)\<rparr>"

definition set_threshold :: "nat \<Rightarrow> u64 \<Rightarrow> 'a cstate \<Rightarrow> 'a cstate" where
  "set_threshold ob t s = s\<lparr>co := (co s)(ob := (co s ob)\<lparr>q_reserve_threshold := t\<rparr>)\<rparr>"

definition set_head_threshold :: "nat \<Rightarrow> u64 \<Rightarrow> 'a cstate \<Rightarrow> 'a cstate" where
  "set_head_threshold ob t s = s\<lparr>co := (co s)(ob := (co s ob)\<lparr>q_head_threshold := t\<rparr>)\<rparr>"

inductive cstep :: "(nat \<Rightarrow> nat) \<Rightarrow> nat \<Rightarrow> 'a cstate \<Rightarrow> 'a cstate \<Rightarrow> bool" for own cid where
  push_start: "cp s p = PIdle \<Longrightarrow> cstep own cid s (set_pc p (PLoad x) s)"
| push_load: "cp s p = PLoad x \<Longrightarrow> cstep own cid s (set_pc p (PCheck x (mh_reserve (cm s))) s)"
| push_check_stale: "cp s p = PCheck x r \<Longrightarrow> q_reserve_threshold (co s (own p)) \<le> r \<Longrightarrow>
    cstep own cid s (set_pc p (PRefresh x r) s)"
| push_check_room: "cp s p = PCheck x r \<Longrightarrow> r < q_reserve_threshold (co s (own p)) \<Longrightarrow>
    cstep own cid s (set_pc p (PCas x r) s)"
| push_refresh: "cp s p = PRefresh x r \<Longrightarrow>
    cstep own cid s (set_pc p (PStore x r (mh_release (cm s))) s)"
| push_store: "cp s p = PStore x r rl \<Longrightarrow>
    cstep own cid s (set_pc p (PRecheck x r) (set_threshold (own p) (rl + q_queue_size (co s (own p))) s))"
| push_full: "cp s p = PRecheck x r \<Longrightarrow> q_reserve_threshold (co s (own p)) \<le> r \<Longrightarrow>
    cstep own cid s (set_pc p PIdle (s\<lparr>cm := (cm s)\<lparr>mh_nr_forward_fail := mh_nr_forward_fail (cm s) + 1\<rparr>\<rparr>))"
| push_recheck_room: "cp s p = PRecheck x r \<Longrightarrow> r < q_reserve_threshold (co s (own p)) \<Longrightarrow>
    cstep own cid s (set_pc p (PCas x r) s)"
| push_cas_ok: "cp s p = PCas x r \<Longrightarrow> mh_reserve (cm s) = r \<Longrightarrow>
    cstep own cid s (set_pc p (PStamp x r) (s\<lparr>cm := (cm s)\<lparr>mh_reserve := r + 1\<rparr>\<rparr>))"
| push_cas_fail: "cp s p = PCas x r \<Longrightarrow> mh_reserve (cm s) \<noteq> r \<Longrightarrow> cstep own cid s (set_pc p (PLoad x) s)"
| push_stamp: "cp s p = PStamp x r \<Longrightarrow>
    cstep own cid s (set_pc p (PFill x r) (s\<lparr>cm := set_pos (slot_of (co s (own p)) r) r (cm s)\<rparr>))"
| push_fill: "cp s p = PFill x r \<Longrightarrow>
    cstep own cid s (set_pc p (PPost x r) (s\<lparr>cm := set_buffer (slot_of (co s (own p)) r) x (cm s)\<rparr>))"
| push_post: "cp s p = PPost x r \<Longrightarrow>
    cstep own cid s (set_pc p (PSpin x r (pos (mh_entries (cm s) ! slot_of (co s (own p)) r))) s)"
| push_turn: "cp s p = PSpin x r ps \<Longrightarrow> mh_tail (cm s) = ps \<Longrightarrow> cstep own cid s (set_pc p (PPublish x r ps) s)"
| push_give_up: "cp s p = PSpin x r ps \<Longrightarrow> mh_tail (cm s) \<noteq> ps \<Longrightarrow> q_release_alert (co s (own p)) \<Longrightarrow>
    cstep own cid s (set_pc p PIdle (s\<lparr>lost := insert (unat r) (lost s)\<rparr>))"
| push_publish: "cp s p = PPublish x r ps \<Longrightarrow>
    cstep own cid s (set_pc p PIdle (s\<lparr>cm := (cm s)\<lparr>mh_tail := ps + 1\<rparr>, hist := hist s @ [(p, x)]\<rparr>))"
| pop_start: "cc s = CIdle \<Longrightarrow> cstep own cid s (s\<lparr>cc := CGot (mh_head (cm s))\<rparr>)"
| pop_room: "cc s = CGot h \<Longrightarrow> h < q_head_threshold (co s cid) \<Longrightarrow> cstep own cid s (s\<lparr>cc := CTake h\<rparr>)"
| pop_refresh: "cc s = CGot h \<Longrightarrow> q_head_threshold (co s cid) \<le> h \<Longrightarrow>
    cstep own cid s ((set_head_threshold cid (mh_tail (cm s)) s)\<lparr>cc := CRecheck h\<rparr>)"
| pop_empty: "cc s = CRecheck h \<Longrightarrow> q_head_threshold (co s cid) \<le> h \<Longrightarrow> cstep own cid s (s\<lparr>cc := CIdle\<rparr>)"
| pop_recheck_room: "cc s = CRecheck h \<Longrightarrow> h < q_head_threshold (co s cid) \<Longrightarrow>
    cstep own cid s (s\<lparr>cm := UpdateQueueLenth h (cm s) (co s cid), cc := CTake h\<rparr>)"
| pop_take: "cc s = CTake h \<Longrightarrow> cstep own cid s (s\<lparr>cm := (cm s)\<lparr>mh_head := h + 1\<rparr>, cc := CCopy h\<rparr>)"
| pop_copy: "cc s = CCopy h \<Longrightarrow>
    cstep own cid s (s\<lparr>cc := CFree h (buffer (mh_entries (cm s) ! slot_of (co s cid) h))\<rparr>)"
| pop_free: "cc s = CFree h v \<Longrightarrow>
    mh_release (cm s) AND ADK_MQ_POS_MASK =
      pos (mh_entries (cm s) ! slot_of (co s cid) h) AND ADK_MQ_POS_MASK \<Longrightarrow>
    cstep own cid s (s\<lparr>cm := (cm s)\<lparr>mh_release := mh_release (cm s) + 1\<rparr>, cc := CIdle, taken := taken s @ [v]\<rparr>)"
| pop_assert: "cc s = CFree h v \<Longrightarrow>
    mh_release (cm s) AND ADK_MQ_POS_MASK \<noteq>
      pos (mh_entries (cm s) ! slot_of (co s cid) h) AND ADK_MQ_POS_MASK \<Longrightarrow>
    cstep own cid s (s\<lparr>cc := CAssertFailed\<rparr>)"
| alert: "cstep own cid s (s\<lparr>co := (co s)(ob := set_release_alert b (co s ob))\<rparr>)"

text \<open>Reachability in a number of steps, from a queue whose calls are all at rest.\<close>

inductive creach :: "(nat \<Rightarrow> nat) \<Rightarrow> nat \<Rightarrow> 'a cstate \<Rightarrow> nat \<Rightarrow> 'a cstate \<Rightarrow> bool" for own cid s0 where
  reach_start: "creach own cid s0 0 s0"
| reach_step: "creach own cid s0 n s \<Longrightarrow> cstep own cid s s' \<Longrightarrow> creach own cid s0 (Suc n) s'"

text \<open>A fresh start: all four cursors at one value \<open>c0\<close>, every object attached to the memory.\<close>

definition cinit :: "nat \<Rightarrow> nat \<Rightarrow> 'a cstate \<Rightarrow> bool" where
  "cinit cid c0 s \<longleftrightarrow> (\<forall>ob. mq_inv (cm s) (co s ob)) \<and>
     RL (cm s) = c0 \<and> HD (cm s) = c0 \<and> TL (cm s) = c0 \<and> RS (cm s) = c0 \<and>
     (\<forall>p. cp s p = PIdle) \<and> cc s = CIdle \<and> hist s = [] \<and> taken s = [] \<and> lost s = {}"

section \<open>The invariant\<close>

text \<open>The cursor a producer has reserved and not yet published.\<close>

fun claim :: "'a ppc \<Rightarrow> nat option" where
  "claim (PStamp x r) = Some (unat r)"
| "claim (PFill x r) = Some (unat r)"
| "claim (PPost x r) = Some (unat r)"
| "claim (PSpin x r ps) = Some (unat r)"
| "claim (PPublish x r ps) = Some (unat r)"
| "claim _ = None"

definition slot_pos :: "'a qmem \<Rightarrow> nat \<Rightarrow> u64" where
  "slot_pos m i = pos (mh_entries m ! (i mod ring_size m))"

definition slot_buf :: "'a qmem \<Rightarrow> nat \<Rightarrow> 'a" where
  "slot_buf m i = buffer (mh_entries m ! (i mod ring_size m))"

text \<open>What a producer knows at each point.\<close>

fun pc_ok :: "'a qmem \<Rightarrow> 'a ppc \<Rightarrow> bool" where
  "pc_ok m (PStore x r rl) \<longleftrightarrow> unat rl \<le> RL m"
| "pc_ok m (PCas x r) \<longleftrightarrow> unat r < RL m + ring_size m"
| "pc_ok m (PFill x r) \<longleftrightarrow> slot_pos m (unat r) = r"
| "pc_ok m (PPost x r) \<longleftrightarrow> slot_pos m (unat r) = r \<and> slot_buf m (unat r) = x"
| "pc_ok m (PSpin x r ps) \<longleftrightarrow> slot_pos m (unat r) = r \<and> slot_buf m (unat r) = x \<and> ps = r"
| "pc_ok m (PPublish x r ps) \<longleftrightarrow> slot_pos m (unat r) = r \<and> slot_buf m (unat r) = x \<and> ps = r \<and> mh_tail m = r"
| "pc_ok m _ \<longleftrightarrow> True"

fun cc_ok :: "nat \<Rightarrow> 'a qmem \<Rightarrow> (nat \<times> 'a) list \<Rightarrow> 'a cpc \<Rightarrow> bool" where
  "cc_ok c0 m h CIdle \<longleftrightarrow> HD m = RL m"
| "cc_ok c0 m h (CGot i) \<longleftrightarrow> HD m = RL m \<and> i = mh_head m"
| "cc_ok c0 m h (CRecheck i) \<longleftrightarrow> HD m = RL m \<and> i = mh_head m"
| "cc_ok c0 m h (CTake i) \<longleftrightarrow> HD m = RL m \<and> i = mh_head m \<and> HD m < TL m"
| "cc_ok c0 m h (CCopy i) \<longleftrightarrow> HD m = Suc (RL m) \<and> i = mh_release m"
| "cc_ok c0 m h (CFree i v) \<longleftrightarrow> HD m = Suc (RL m) \<and> i = mh_release m \<and> v = snd (h ! (RL m - c0))"
| "cc_ok c0 m h CAssertFailed \<longleftrightarrow> False"

definition cursors_ok :: "'a qmem \<Rightarrow> bool" where
  "cursors_ok m \<longleftrightarrow> RL m \<le> HD m \<and> HD m \<le> TL m \<and> TL m \<le> RS m \<and> RS m \<le> RL m + ring_size m"

definition objs_ok :: "nat \<Rightarrow> 'a qmem \<Rightarrow> (nat \<Rightarrow> qobj) \<Rightarrow> bool" where
  "objs_ok cid m os \<longleftrightarrow>
     (\<forall>ob. geo m (os ob) \<and> unat (q_reserve_threshold (os ob)) \<le> RL m + ring_size m) \<and>
     unat (q_head_threshold (os cid)) \<le> TL m"

definition claims_ok :: "nat \<Rightarrow> nat \<Rightarrow> (nat \<Rightarrow> nat option) \<Rightarrow> nat set \<Rightarrow> bool" where
  "claims_ok lo rs cl ls \<longleftrightarrow>
     (\<forall>p i. cl p = Some i \<longrightarrow> lo \<le> i \<and> i < rs \<and> i \<notin> ls) \<and>
     (\<forall>p p' i. cl p = Some i \<longrightarrow> cl p' = Some i \<longrightarrow> p = p') \<and>
     (\<forall>i. lo \<le> i \<longrightarrow> i < rs \<longrightarrow> i \<in> ls \<or> (\<exists>p. cl p = Some i)) \<and>
     (\<forall>i\<in>ls. lo \<le> i \<and> i < rs)"

abbreviation claims :: "'a cstate \<Rightarrow> nat \<Rightarrow> nat option" where
  "claims s \<equiv> \<lambda>p. claim (cp s p)"

definition posted_ok :: "nat \<Rightarrow> 'a qmem \<Rightarrow> (nat \<times> 'a) list \<Rightarrow> bool" where
  "posted_ok c0 m h \<longleftrightarrow> c0 \<le> RL m \<and> length h = TL m - c0 \<and>
     (\<forall>i. RL m \<le> i \<longrightarrow> i < TL m \<longrightarrow> slot_pos m i = of_nat i \<and> slot_buf m i = snd (h ! (i - c0)))"

definition cinv :: "nat \<Rightarrow> nat \<Rightarrow> 'a cstate \<Rightarrow> bool" where
  "cinv cid c0 s \<longleftrightarrow> cursors_ok (cm s) \<and> objs_ok cid (cm s) (co s) \<and> (\<forall>p. pc_ok (cm s) (cp s p)) \<and>
     claims_ok (TL (cm s)) (RS (cm s)) (claims s) (lost s) \<and> posted_ok c0 (cm s) (hist s) \<and>
     cc_ok c0 (cm s) (hist s) (cc s) \<and> taken s = map snd (take (RL (cm s) - c0) (hist s))"

text \<open>Every reserved cursor and every posted one lies in one window of the ring, so their slots differ.\<close>

lemma slot_neq:
  assumes "cursors_ok m" "RL m \<le> i" "i < RS m" "RL m \<le> j" "j < RS m" "i \<noteq> j"
  shows "i mod ring_size m \<noteq> j mod ring_size m"
  using assms mod_eq_window_iff [of "RL m" i "ring_size m" j] by (simp add: cursors_ok_def)

lemma same_ring_inv:
  assumes "same_ring m m'"
  shows "cursors_ok m' = cursors_ok m" "objs_ok cid m' os = objs_ok cid m os" "pc_ok m' pc = pc_ok m pc"
    "TL m' = TL m" "RS m' = RS m" "posted_ok c0 m' h = posted_ok c0 m h"
    "cc_ok c0 m' h c = cc_ok c0 m h c" "RL m' = RL m"
  using assms
  by (cases pc; cases c; simp add: same_ring_def cursors_ok_def objs_ok_def posted_ok_def
      slot_pos_def slot_buf_def geo_def)+

lemma pc_ok_mono:
  assumes "pc_ok m pc" "RL m \<le> RL m'" "ring_size m' = ring_size m"
    and "\<And>i. claim pc = Some i \<Longrightarrow> slot_pos m' i = slot_pos m i \<and> slot_buf m' i = slot_buf m i"
    and "\<And>x r ps. pc = PPublish x r ps \<Longrightarrow> mh_tail m' = mh_tail m"
  shows "pc_ok m' pc"
  using assms by (cases pc) auto

lemma cc_ok_mono:
  assumes "cc_ok c0 m h c" "mh_head m' = mh_head m" "mh_release m' = mh_release m" "TL m \<le> TL m'"
    and "RL m < HD m \<Longrightarrow> h' ! (RL m - c0) = h ! (RL m - c0)"
  shows "cc_ok c0 m' h' c"
  using assms by (cases c) auto

section \<open>Every step keeps it\<close>

lemma claims_okD:
  assumes "claims_ok lo rs cl ls"
  shows "\<And>p i. cl p = Some i \<Longrightarrow> lo \<le> i \<and> i < rs \<and> i \<notin> ls"
    and "\<And>p p' i. cl p = Some i \<Longrightarrow> cl p' = Some i \<Longrightarrow> p = p'"
    and "\<And>i. lo \<le> i \<Longrightarrow> i < rs \<Longrightarrow> i \<in> ls \<or> (\<exists>p. cl p = Some i)"
    and "\<And>i. i \<in> ls \<Longrightarrow> lo \<le> i \<and> i < rs"
  using assms unfolding claims_ok_def by blast+

lemma claims_okI:
  assumes "\<And>p i. cl p = Some i \<Longrightarrow> lo \<le> i \<and> i < rs \<and> i \<notin> ls"
    and "\<And>p p' i. cl p = Some i \<Longrightarrow> cl p' = Some i \<Longrightarrow> p = p'"
    and "\<And>i. lo \<le> i \<Longrightarrow> i < rs \<Longrightarrow> i \<in> ls \<or> (\<exists>p. cl p = Some i)"
    and "\<And>i. i \<in> ls \<Longrightarrow> lo \<le> i \<and> i < rs"
  shows "claims_ok lo rs cl ls"
proof -
  have a: "\<forall>p i. cl p = Some i \<longrightarrow> lo \<le> i \<and> i < rs \<and> i \<notin> ls" using assms(1) by blast
  have b: "\<forall>p p' i. cl p = Some i \<longrightarrow> cl p' = Some i \<longrightarrow> p = p'" using assms(2) by blast
  have c: "\<forall>i. lo \<le> i \<longrightarrow> i < rs \<longrightarrow> i \<in> ls \<or> (\<exists>p. cl p = Some i)" using assms(3) by blast
  have d: "\<forall>i\<in>ls. lo \<le> i \<and> i < rs" using assms(4) by blast
  show ?thesis unfolding claims_ok_def by (intro conjI) (fact a b c d)+
qed

lemma ex_claim_upd: "\<exists>q. cl q = Some i \<and> q \<noteq> p \<Longrightarrow> \<exists>q. (cl(p := v)) q = Some (i::nat)"
  by (metis fun_upd_other)

lemma claims_reserve:
  assumes c: "claims_ok lo rs cl ls" and p: "cl p = None" and le: "lo \<le> rs"
  shows "claims_ok lo (Suc rs) (cl(p := Some rs)) ls"
proof (rule claims_okI, goal_cases)
  case (1 q i) then show ?case
    using claims_okD(1) [OF c, of q i] claims_okD(4) [OF c, of rs] le by (auto split: if_splits)
next
  case (2 q q' i) then show ?case
    using claims_okD(1) [OF c] claims_okD(2) [OF c, of q i q'] by (fastforce split: if_splits)
next
  case (3 i)
  show ?case
  proof (cases "i = rs")
    case False
    with 3 have "i \<in> ls \<or> (\<exists>q. cl q = Some i \<and> q \<noteq> p)" using claims_okD(3) [OF c, of i] p by force
    then show ?thesis using ex_claim_upd [of cl i p] by blast
  qed (metis fun_upd_same)
next
  case (4 i) then show ?case using claims_okD(4) [OF c, of i] by auto
qed

lemma claims_publish:
  assumes c: "claims_ok lo rs cl ls" and p: "cl p = Some lo"
  shows "claims_ok (Suc lo) rs (cl(p := None)) ls"
proof (rule claims_okI, goal_cases)
  case (1 q i)
  then have "cl q = Some i" "q \<noteq> p" by (auto split: if_splits)
  then show ?case
    using claims_okD(1) [OF c, of q i] claims_okD(2) [OF c, of q lo p] p by (cases "i = lo") auto
next
  case (2 q q' i) then show ?case using claims_okD(2) [OF c, of q i q'] by (auto split: if_splits)
next
  case (3 i)
  then have "i \<in> ls \<or> (\<exists>q. cl q = Some i \<and> q \<noteq> p)" using claims_okD(3) [OF c, of i] p by force
  then show ?case using ex_claim_upd [of cl i p] by blast
next
  case (4 i) then show ?case
    using claims_okD(4) [OF c, of i] claims_okD(1) [OF c p] by (cases "i = lo") auto
qed

lemma claims_give_up:
  assumes c: "claims_ok lo rs cl ls" and p: "cl p = Some i"
  shows "claims_ok lo rs (cl(p := None)) (insert i ls)"
proof (rule claims_okI, goal_cases)
  case (1 q j) then show ?case
    using claims_okD(1) [OF c, of q j] claims_okD(2) [OF c, of q j p] p by (auto split: if_splits)
next
  case (2 q q' j) then show ?case using claims_okD(2) [OF c, of q j q'] by (auto split: if_splits)
next
  case (3 j)
  then have "j \<in> insert i ls \<or> (\<exists>q. cl q = Some j \<and> q \<noteq> p)" using claims_okD(3) [OF c, of j] p by force
  then show ?case using ex_claim_upd [of cl j p] by blast
next
  case (4 j) then show ?case using claims_okD(4) [OF c, of j] claims_okD(1) [OF c p] by auto
qed

lemma claims_upd: "(\<lambda>q. claim (if q = p then pc else f q)) = (\<lambda>q. claim (f q))(p := claim pc)"
  by auto

lemma cinv_set_pc:
  assumes "cinv cid c0 s" "claim pc = claim (cp s p)" "pc_ok (cm s) pc"
  shows "cinv cid c0 (set_pc p pc s)"
proof -
  have "(claims s)(p := claim pc) = claims s" using assms(2) by auto
  then show ?thesis
    using assms by (auto simp: cinv_def set_pc_def claims_upd)
qed

lemma cinv_same_ring:
  assumes "cinv cid c0 s" "same_ring (cm s) m'"
  shows "cinv cid c0 (s\<lparr>cm := m'\<rparr>)"
  using assms by (simp add: cinv_def same_ring_inv [OF assms(2)])

lemma cinv_threshold:
  assumes "cinv cid c0 s" "unat t \<le> RL (cm s) + ring_size (cm s)"
  shows "cinv cid c0 (set_threshold ob t s)"
  using assms by (auto simp: cinv_def set_threshold_def objs_ok_def geo_def)

lemma cinv_head_threshold:
  assumes "cinv cid c0 s" "cc_ok c0 (cm s) (hist s) c"
  shows "cinv cid c0 ((set_head_threshold cid (mh_tail (cm s)) s)\<lparr>cc := c\<rparr>)"
  using assms by (auto simp: cinv_def set_head_threshold_def objs_ok_def geo_def)

lemma cinv_cc:
  assumes "cinv cid c0 s" "cc_ok c0 (cm s) (hist s) c"
  shows "cinv cid c0 (s\<lparr>cc := c\<rparr>)"
  using assms by (simp add: cinv_def)

lemma cinv_cas:
  assumes inv: "cinv cid c0 s" and pc: "cp s p = PCas x (mh_reserve (cm s))" and wrap: "RS (cm s) + 1 < 2 ^ 64"
  shows "cinv cid c0 (set_pc p (PStamp x (mh_reserve (cm s))) (s\<lparr>cm := (cm s)\<lparr>mh_reserve := mh_reserve (cm s) + 1\<rparr>\<rparr>))"
proof -
  let ?m = "cm s" let ?m' = "?m\<lparr>mh_reserve := mh_reserve ?m + 1\<rparr>"
  let ?ps = "(cp s)(p := PStamp x (mh_reserve ?m))"
  have nxt: "unat (mh_reserve ?m + 1) = Suc (RS ?m)" using unat_inc64 [of "mh_reserve ?m"] wrap by simp
  have room: "RS ?m < RL ?m + ring_size ?m" using inv pc by (auto simp: cinv_def dest: spec [of _ p])
  have c: "cursors_ok ?m'" using inv room nxt by (simp add: cinv_def cursors_ok_def)
  have o: "objs_ok cid ?m' (co s)" using inv by (simp add: cinv_def objs_ok_def geo_def)
  have k: "pc_ok ?m' (?ps p')" for p'
  proof (cases "p' = p")
    case False
    have "pc_ok ?m' (cp s p')"
      by (rule pc_ok_mono [of ?m]) (use inv in \<open>simp_all add: cinv_def slot_pos_def slot_buf_def\<close>)
    with False show ?thesis by simp
  qed simp
  have l: "claims_ok (TL ?m') (RS ?m') ((claims s)(p := Some (RS ?m))) (lost s)"
    using inv pc nxt claims_reserve [of "TL ?m" "RS ?m" "claims s" "lost s" p]
    by (simp add: cinv_def cursors_ok_def)
  have "cc_ok c0 ?m' (hist s) (cc s)"
    by (rule cc_ok_mono [of c0 ?m "hist s"]) (use inv in \<open>simp_all add: cinv_def\<close>)
  with inv c o k l show ?thesis
    by (simp add: cinv_def set_pc_def claims_upd posted_ok_def slot_pos_def slot_buf_def)
qed

text \<open>A write to the slot of a reserved cursor reaches no other reserved slot and no posted one.\<close>

lemma cinv_slot_write:
  assumes inv: "cinv cid c0 s" and cl: "claim (cp s p) = Some i" "claim pc = Some i"
    and size: "mh_queue_size m' = mh_queue_size (cm s)" "mh_queue_mask m' = mh_queue_mask (cm s)"
    and cur: "mh_reserve m' = mh_reserve (cm s)" "mh_tail m' = mh_tail (cm s)"
      "mh_head m' = mh_head (cm s)" "mh_release m' = mh_release (cm s)"
    and len: "length (mh_entries m') = length (mh_entries (cm s))"
    and frame: "\<And>j. j \<noteq> i mod ring_size (cm s) \<Longrightarrow> mh_entries m' ! j = mh_entries (cm s) ! j"
    and ok: "pc_ok m' pc"
  shows "cinv cid c0 (set_pc p pc (s\<lparr>cm := m'\<rparr>))"
proof -
  let ?m = "cm s"
  have c: "cursors_ok ?m" and clo: "claims_ok (TL ?m) (RS ?m) (claims s) (lost s)"
    using inv by (simp_all add: cinv_def)
  have range_i: "TL ?m \<le> i" "i < RS ?m" using claims_okD(1) [OF clo] cl(1) by auto
  have same: "slot_pos m' j = slot_pos ?m j \<and> slot_buf m' j = slot_buf ?m j"
    if "RL ?m \<le> j" "j < RS ?m" "j \<noteq> i" for j
    using frame [of "j mod ring_size ?m"] slot_neq [OF c, of j i] that range_i c size
    by (simp add: slot_pos_def slot_buf_def cursors_ok_def)
  have "cursors_ok m'" "objs_ok cid m' (co s)"
    using inv size cur len by (simp_all add: cinv_def cursors_ok_def objs_ok_def geo_def)
  moreover have "pc_ok m' (((cp s)(p := pc)) q)" for q
  proof (cases "q = p")
    case False
    have "pc_ok m' (cp s q)"
    proof (rule pc_ok_mono [of ?m])
      fix j assume j: "claim (cp s q) = Some j"
      then have "j \<noteq> i" using claims_okD(2) [OF clo] cl(1) False by blast
      then show "slot_pos m' j = slot_pos ?m j \<and> slot_buf m' j = slot_buf ?m j"
        using claims_okD(1) [OF clo j] c by (intro same) (auto simp: cursors_ok_def)
    qed (use inv size cur in \<open>simp_all add: cinv_def\<close>)
    with False show ?thesis by simp
  qed (use ok in simp)
  moreover have "(claims s)(p := claim pc) = claims s" using cl by auto
  moreover have "posted_ok c0 m' (hist s)"
    using inv same size cur range_i c by (auto simp: cinv_def posted_ok_def cursors_ok_def)
  moreover have "cc_ok c0 m' (hist s) (cc s)"
    by (rule cc_ok_mono [of c0 ?m "hist s"]) (use inv cur in \<open>simp_all add: cinv_def\<close>)
  ultimately show ?thesis
    using inv cur cl by (simp add: cinv_def set_pc_def claims_upd)
qed

lemma cinv_geo: "cinv cid c0 s \<Longrightarrow> geo (cm s) (co s ob)"
  by (simp add: cinv_def objs_ok_def)

lemma cinv_pc: "cinv cid c0 s \<Longrightarrow> cp s p = pc \<Longrightarrow> pc_ok (cm s) pc"
  by (auto simp: cinv_def)

lemma cinv_stamp:
  assumes inv: "cinv cid c0 s" and pc: "cp s p = PStamp x r"
  shows "cinv cid c0 (set_pc p (PFill x r) (s\<lparr>cm := set_pos (slot_of (co s (own p)) r) r (cm s)\<rparr>))"
proof -
  note g = cinv_geo [OF inv, of "own p"]
  show ?thesis
    using pc slot_in_range [OF g, of r] slot_of_mod [OF g, of r]
    by (intro cinv_slot_write [OF inv, of p "unat r"]) (auto simp: slot_pos_def set_pos_def)
qed

lemma cinv_fill:
  assumes inv: "cinv cid c0 s" and pc: "cp s p = PFill x r"
  shows "cinv cid c0 (set_pc p (PPost x r) (s\<lparr>cm := set_buffer (slot_of (co s (own p)) r) x (cm s)\<rparr>))"
proof -
  note g = cinv_geo [OF inv, of "own p"]
  show ?thesis
    using pc slot_in_range [OF g, of r] slot_of_mod [OF g, of r] cinv_pc [OF inv pc]
    by (intro cinv_slot_write [OF inv, of p "unat r"]) (auto simp: slot_pos_def slot_buf_def set_buffer_def)
qed

lemma cinv_give_up:
  assumes inv: "cinv cid c0 s" and pc: "cp s p = PSpin x r ps"
  shows "cinv cid c0 (set_pc p PIdle (s\<lparr>lost := insert (unat r) (lost s)\<rparr>))"
proof -
  have "claims_ok (TL (cm s)) (RS (cm s)) ((claims s)(p := None)) (insert (unat r) (lost s))"
    using inv pc by (intro claims_give_up) (simp_all add: cinv_def)
  then show ?thesis
    using inv by (simp add: cinv_def set_pc_def claims_upd)
qed

lemma cinv_publish:
  assumes inv: "cinv cid c0 s" and pc: "cp s p = PPublish x r ps" and wrap: "RS (cm s) + 1 < 2 ^ 64"
  shows "cinv cid c0 (set_pc p PIdle (s\<lparr>cm := (cm s)\<lparr>mh_tail := ps + 1\<rparr>, hist := hist s @ [(p, x)]\<rparr>))"
proof -
  let ?m = "cm s" let ?m' = "?m\<lparr>mh_tail := ps + 1\<rparr>" let ?h = "hist s @ [(p, x)]"
  from cinv_pc [OF inv pc] have r: "slot_pos ?m (unat r) = r" "slot_buf ?m (unat r) = x" "ps = r" "mh_tail ?m = r"
    by simp_all
  have clo: "claims_ok (TL ?m) (RS ?m) (claims s) (lost s)" and c: "cursors_ok ?m"
    and po: "posted_ok c0 ?m (hist s)" using inv by (simp_all add: cinv_def)
  have "TL ?m < RS ?m" using claims_okD(1) [OF clo, of p "unat r"] pc r by simp
  moreover have nxt: "unat (ps + 1) = Suc (TL ?m)"
    using unat_inc64 [of ps] wrap r c by (simp add: cursors_ok_def)
  ultimately have "cursors_ok ?m'" and "objs_ok cid ?m' (co s)"
    using inv by (auto simp: cinv_def cursors_ok_def objs_ok_def geo_def intro: le_SucI)
  moreover have "pc_ok ?m' (((cp s)(p := PIdle)) q)" for q
  proof (cases "q = p")
    case False
    have "pc_ok ?m' (cp s q)"
    proof (rule pc_ok_mono [of ?m])
      fix y r' ps' assume q: "cp s q = PPublish y r' ps'"
      with cinv_pc [OF inv q] have "claim (cp s q) = Some (unat r)" using r by simp
      then have "q = p" using claims_okD(2) [OF clo, of q "unat r" p] pc by simp
      with False show "mh_tail ?m' = mh_tail ?m" by simp
    qed (use inv in \<open>simp_all add: cinv_def slot_pos_def slot_buf_def\<close>)
    with False show ?thesis by simp
  qed simp
  moreover have "claims_ok (TL ?m') (RS ?m') ((claims s)(p := None)) (lost s)"
    using claims_publish [OF clo, of p] pc r nxt by simp
  moreover have "posted_ok c0 ?m' ?h"
    using po r nxt c
    by (auto simp: posted_ok_def slot_pos_def slot_buf_def nth_append less_Suc_eq cursors_ok_def)
  moreover have len: "RL ?m - c0 \<le> length (hist s)" and "RL ?m < HD ?m \<Longrightarrow> RL ?m - c0 < length (hist s)"
    using po c by (auto simp: posted_ok_def cursors_ok_def)
  moreover have "cc_ok c0 ?m' ?h (cc s)"
    by (rule cc_ok_mono [of c0 ?m "hist s"])
      (use inv nxt calculation in \<open>simp_all add: cinv_def nth_append\<close>)
  ultimately show ?thesis
    using inv by (simp add: cinv_def set_pc_def claims_upd)
qed

lemma cinv_take:
  assumes inv: "cinv cid c0 s" and pc: "cc s = CTake h" and wrap: "RS (cm s) + 1 < 2 ^ 64"
  shows "cinv cid c0 (s\<lparr>cm := (cm s)\<lparr>mh_head := h + 1\<rparr>, cc := CCopy h\<rparr>)"
proof -
  let ?m = "cm s" let ?m' = "?m\<lparr>mh_head := h + 1\<rparr>"
  have h: "HD ?m = RL ?m" "h = mh_head ?m" "HD ?m < TL ?m" and c: "cursors_ok ?m"
    using inv pc by (simp_all add: cinv_def)
  then have nxt: "unat (h + 1) = Suc (HD ?m)"
    using unat_inc64 [of h] wrap by (simp add: cursors_ok_def)
  have hr: "mh_head ?m = mh_release ?m" using h by (simp add: word_unat_eq_iff)
  have "pc_ok ?m' (cp s q)" for q
    by (rule pc_ok_mono [of ?m]) (use inv in \<open>simp_all add: cinv_def slot_pos_def slot_buf_def\<close>)
  then show ?thesis
    using inv h nxt hr
    by (simp add: cinv_def cursors_ok_def objs_ok_def geo_def posted_ok_def slot_pos_def slot_buf_def)
qed

lemma cinv_free:
  assumes inv: "cinv cid c0 s" and pc: "cc s = CFree h v" and wrap: "RS (cm s) + 1 < 2 ^ 64"
  shows "cinv cid c0 (s\<lparr>cm := (cm s)\<lparr>mh_release := mh_release (cm s) + 1\<rparr>, cc := CIdle, taken := taken s @ [v]\<rparr>)"
proof -
  let ?m = "cm s" let ?m' = "?m\<lparr>mh_release := mh_release ?m + 1\<rparr>"
  have h: "HD ?m = Suc (RL ?m)" "h = mh_release ?m" "v = snd (hist s ! (RL ?m - c0))" and c: "cursors_ok ?m"
    and po: "posted_ok c0 ?m (hist s)"
    using inv pc by (simp_all add: cinv_def)
  then have nxt: "unat (mh_release ?m + 1) = Suc (RL ?m)"
    using unat_inc64 [of "mh_release ?m"] wrap by (simp add: cursors_ok_def)
  have "pc_ok ?m' (cp s q)" for q
    by (rule pc_ok_mono [of ?m]) (use inv nxt in \<open>simp_all add: cinv_def slot_pos_def slot_buf_def\<close>)
  moreover have "RL ?m - c0 < length (hist s)" using po c h by (auto simp: posted_ok_def cursors_ok_def)
  then have "map snd (take (Suc (RL ?m) - c0) (hist s)) = map snd (take (RL ?m - c0) (hist s)) @ [v]"
    using po h by (simp add: posted_ok_def Suc_diff_le take_Suc_conv_app_nth)
  moreover have "objs_ok cid ?m' (co s)"
    using inv nxt by (auto simp: cinv_def objs_ok_def geo_def intro: le_SucI)
  ultimately show ?thesis
    using inv h nxt po
    by (simp add: cinv_def cursors_ok_def posted_ok_def slot_pos_def slot_buf_def)
qed

text \<open>The stamp of the slot the consumer holds is the cursor it checks it against.\<close>

lemma free_stamp:
  assumes inv: "cinv cid c0 s" and pc: "cc s = CFree h v"
  shows "pos (mh_entries (cm s) ! slot_of (co s cid) h) = mh_release (cm s)"
proof -
  have "HD (cm s) = Suc (RL (cm s))" "h = mh_release (cm s)" "cursors_ok (cm s)" "posted_ok c0 (cm s) (hist s)"
    using inv pc by (simp_all add: cinv_def)
  then show ?thesis
    using slot_of_mod [OF cinv_geo [OF inv], of cid h]
    by (simp add: posted_ok_def slot_pos_def cursors_ok_def)
qed

lemma copied_element:
  assumes inv: "cinv cid c0 s" and pc: "cc s = CCopy h"
  shows "buffer (mh_entries (cm s) ! slot_of (co s cid) h) = snd (hist s ! (RL (cm s) - c0))"
proof -
  have "HD (cm s) = Suc (RL (cm s))" "h = mh_release (cm s)" "cursors_ok (cm s)" "posted_ok c0 (cm s) (hist s)"
    using inv pc by (simp_all add: cinv_def)
  then show ?thesis
    using slot_of_mod [OF cinv_geo [OF inv], of cid h]
    by (simp add: posted_ok_def slot_buf_def cursors_ok_def)
qed

lemma below_threshold:
  assumes inv: "cinv cid c0 s" and r: "r < q_reserve_threshold (co s ob)"
  shows "unat r < RL (cm s) + ring_size (cm s)"
proof -
  have "unat (q_reserve_threshold (co s ob)) \<le> RL (cm s) + ring_size (cm s)"
    using inv by (simp add: cinv_def objs_ok_def)
  with r show ?thesis by (simp add: word_less_nat_alt)
qed

lemma cinv_step:
  assumes "cstep own cid s s'" and "cinv cid c0 s" and "RS (cm s) + ring_size (cm s) < 2 ^ 64"
    and "RS (cm s) + 1 < 2 ^ 64"
  shows "cinv cid c0 s'"
  using assms
proof (cases rule: cstep.cases)
  case (push_check_room p x r)
  then show ?thesis
    using below_threshold [OF assms(2)] by (auto intro!: cinv_set_pc [OF assms(2)])
next
  case (push_recheck_room p x r)
  then show ?thesis
    using below_threshold [OF assms(2)] by (auto intro!: cinv_set_pc [OF assms(2)])
next
  case (push_store p x r rl)
  note g = cinv_geo [OF assms(2), of "own p"]
  have "unat rl \<le> RL (cm s)" using cinv_pc [OF assms(2) push_store(2)] by simp
  then have "unat (rl + q_queue_size (co s (own p))) \<le> RL (cm s) + ring_size (cm s)"
    using assms(2,3) unat_queue_size [OF g] unat_add64 [of rl "q_queue_size (co s (own p))"]
    by (simp add: cinv_def cursors_ok_def)
  then have "cinv cid c0 (set_threshold (own p) (rl + q_queue_size (co s (own p))) s)"
    using cinv_threshold [OF assms(2)] by blast
  then show ?thesis
    using push_store by (auto simp: set_threshold_def intro!: cinv_set_pc)
next
  case (push_full p x r)
  have "same_ring (cm s) ((cm s)\<lparr>mh_nr_forward_fail := mh_nr_forward_fail (cm s) + 1\<rparr>)"
    by (simp add: same_ring_def)
  from cinv_same_ring [OF assms(2) this] show ?thesis
    using push_full by (auto intro!: cinv_set_pc)
next
  case (push_cas_ok p x r)
  then show ?thesis using cinv_cas [OF assms(2), of p x] assms(4) by simp
next
  case (push_stamp p x r)
  then show ?thesis using cinv_stamp [OF assms(2)] by simp
next
  case (push_fill p x r)
  then show ?thesis using cinv_fill [OF assms(2)] by simp
next
  case (push_post p x r)
  then show ?thesis
    using cinv_pc [OF assms(2) push_post(2)] slot_of_mod [OF cinv_geo [OF assms(2)], of "own p" r]
    by (auto simp: slot_pos_def intro!: cinv_set_pc [OF assms(2)])
next
  case (push_give_up p x r ps)
  then show ?thesis using cinv_give_up [OF assms(2)] by simp
next
  case (push_publish p x r ps)
  then show ?thesis using cinv_publish [OF assms(2) push_publish(2)] assms(4) by simp
next
  case (pop_refresh h)
  have "cc_ok c0 (cm s) (hist s) (CRecheck h)" using pop_refresh assms(2) by (simp add: cinv_def)
  from cinv_head_threshold [OF assms(2) this] show ?thesis using pop_refresh by simp
next
  case (pop_recheck_room h)
  have "cinv cid c0 (s\<lparr>cc := CTake h\<rparr>)"
    using pop_recheck_room assms(2) by (intro cinv_cc) (auto simp: cinv_def objs_ok_def word_less_nat_alt)
  moreover have "s' = (s\<lparr>cc := CTake h\<rparr>)\<lparr>cm := UpdateQueueLenth h (cm s) (co s cid)\<rparr>"
    using pop_recheck_room by (cases s) simp
  ultimately show ?thesis
    using cinv_same_ring [of cid c0 "s\<lparr>cc := CTake h\<rparr>" "UpdateQueueLenth h (cm s) (co s cid)"] by simp
next
  case (pop_take h)
  then show ?thesis using cinv_take [OF assms(2)] assms(4) by simp
next
  case (pop_copy h)
  then show ?thesis
    using copied_element [OF assms(2) pop_copy(2)] assms(2) by (auto simp: cinv_def)
next
  case (pop_free h v)
  then show ?thesis using cinv_free [OF assms(2)] assms(4) by simp
next
  case (pop_assert h v)
  then show ?thesis using free_stamp [OF assms(2)] by simp
next
  case (alert ob b)
  then show ?thesis using assms(2) by (auto simp: cinv_def objs_ok_def geo_def set_release_alert_def)
next
  case (pop_room h)
  then show ?thesis using assms(2) by (auto simp: cinv_def objs_ok_def word_less_nat_alt)
next
  case (push_turn p x r ps)
  then show ?thesis using cinv_pc [OF assms(2) push_turn(2)] by (auto intro!: cinv_set_pc [OF assms(2)])
next
  case pop_start
  then show ?thesis using assms(2) by (auto simp: cinv_def)
next
  case (pop_empty h)
  then show ?thesis using assms(2) by (auto simp: cinv_def)
qed (auto intro!: cinv_set_pc [OF assms(2)])

section \<open>Reachable states\<close>

lemma cstep_reserve:
  assumes "cstep own cid s s'"
  shows "mh_queue_size (cm s') = mh_queue_size (cm s)"
    and "mh_reserve (cm s') = mh_reserve (cm s) \<or> mh_reserve (cm s') = mh_reserve (cm s) + 1"
  using assms by (cases rule: cstep.cases; auto simp: set_pc_def set_threshold_def set_head_threshold_def)+

lemma unat_reserve_step:
  fixes r r' :: u64
  assumes "r' = r \<or> r' = r + 1"
  shows "unat r' \<le> unat r + 1"
  using assms by (auto simp: unat_word_ariths)

lemma cinit_cinv:
  assumes "cinit cid c0 s" shows "cinv cid c0 s"
  using assms
  by (auto simp: cinit_def cinv_def cursors_ok_def objs_ok_def mq_inv_def claims_ok_def posted_ok_def)

lemma reach_cinv:
  assumes "creach own cid s0 n s" and "cinit cid c0 s0"
    and "c0 + n + ring_size (cm s0) < 2 ^ 64"
  shows "cinv cid c0 s \<and> RS (cm s) \<le> c0 + n \<and> ring_size (cm s) = ring_size (cm s0)"
  using assms
proof (induction rule: creach.induct)
  case reach_start
  then show ?case using cinit_cinv [of cid c0 s0] by (simp add: cinit_def)
next
  case (reach_step n s s')
  then have IH: "cinv cid c0 s" "RS (cm s) \<le> c0 + n" "ring_size (cm s) = ring_size (cm s0)"
    by simp_all
  have "0 < ring_size (cm s)" using geo_size_pos [OF cinv_geo [OF IH(1)]] .
  then have "RS (cm s) + ring_size (cm s) < 2 ^ 64" "RS (cm s) + 1 < 2 ^ 64"
    using IH reach_step.prems by simp_all
  then have "cinv cid c0 s'" using cinv_step reach_step.hyps(2) IH(1) by blast
  moreover have "RS (cm s') \<le> c0 + Suc n" "ring_size (cm s') = ring_size (cm s0)"
    using cstep_reserve [OF reach_step.hyps(2)] unat_reserve_step [of "mh_reserve (cm s')" "mh_reserve (cm s)"] IH
    by simp_all
  ultimately show ?case by simp
qed

section \<open>A producer running alone\<close>

text \<open>A \<^verbatim>\<open>Push\<close> that meets no interference is done after nine steps: four reserve, three fill, two publish.\<close>

lemma reserve_run:
  assumes r: "creach own cid s0 n s" and idle: "cp s p = PIdle"
    and room: "mh_reserve (cm s) < q_reserve_threshold (co s (own p))"
  shows "creach own cid s0 (n + 4)
    (set_pc p (PStamp x (mh_reserve (cm s))) (s\<lparr>cm := (cm s)\<lparr>mh_reserve := mh_reserve (cm s) + 1\<rparr>\<rparr>))"
proof -
  let ?r = "mh_reserve (cm s)"
  have 1: "creach own cid s0 (Suc n) (set_pc p (PLoad x) s)"
    by (rule reach_step [OF r]) (rule push_start, rule idle)
  have 2: "creach own cid s0 (Suc (Suc n)) (set_pc p (PCheck x ?r) s)"
    using reach_step [OF 1 push_load [of _ p x]] by (simp add: set_pc_def)
  have 3: "creach own cid s0 (Suc (Suc (Suc n))) (set_pc p (PCas x ?r) s)"
    using reach_step [OF 2 push_check_room [of _ p x ?r]] room by (simp add: set_pc_def)
  show ?thesis
    using reach_step [OF 3 push_cas_ok [of _ p x ?r]] by (simp add: set_pc_def numeral_eq_Suc)
qed

lemma fill_run:
  assumes r: "creach own cid s0 n s" and pc: "cp s p = PStamp x r"
    and slot: "slot_of (co s (own p)) r < length (mh_entries (cm s))"
  defines "i \<equiv> slot_of (co s (own p)) r"
  shows "creach own cid s0 (n + 3) (set_pc p (PSpin x r r) (s\<lparr>cm := set_buffer i x (set_pos i r (cm s))\<rparr>))"
proof -
  have 1: "creach own cid s0 (Suc n) (set_pc p (PFill x r) (s\<lparr>cm := set_pos i r (cm s)\<rparr>))"
    unfolding i_def by (rule reach_step [OF r]) (rule push_stamp, rule pc)
  have 2: "creach own cid s0 (Suc (Suc n)) (set_pc p (PPost x r) (s\<lparr>cm := set_buffer i x (set_pos i r (cm s))\<rparr>))"
    using reach_step [OF 1 push_fill [of _ p x r]] by (simp add: set_pc_def i_def)
  show ?thesis
    using reach_step [OF 2 push_post [of _ p x r]] slot
    by (simp add: set_pc_def i_def [symmetric] slot_simps numeral_eq_Suc)
qed

lemma publish_run:
  assumes r: "creach own cid s0 n s" and pc: "cp s p = PSpin x r r" and tail: "mh_tail (cm s) = r"
  shows "creach own cid s0 (n + 2)
    (set_pc p PIdle (s\<lparr>cm := (cm s)\<lparr>mh_tail := r + 1\<rparr>, hist := hist s @ [(p, x)]\<rparr>))"
proof -
  have 1: "creach own cid s0 (Suc n) (set_pc p (PPublish x r r) s)"
    by (rule reach_step [OF r]) (rule push_turn, rule pc, rule tail)
  show ?thesis
    using reach_step [OF 1 push_publish [of _ p x r r]] by (simp add: set_pc_def)
qed

section \<open>Properties\<close>

text \<open>
  C5: under every interleaving of any number of producers with the consumer, the elements \<^verbatim>\<open>Pop\<close>
  has returned are a prefix of the published ones, in the order of publication (no loss, no
  duplicate, no reordering), what is published and not returned is at most one ring, and the
  assertion of \<^verbatim>\<open>Pop\<close> on the stamp of the slot never fails. The number of steps is bounded so that
  the 64-bit cursors do not wrap.
\<close>

theorem mpsc_concurrent_fifo:
  assumes "creach own cid s0 n s" and "cinit cid c0 s0" and "c0 + n + ring_size (cm s0) < 2 ^ 64"
  shows "\<exists>rest. map snd (hist s) = taken s @ rest \<and> length rest \<le> ring_size (cm s0) \<and> cc s \<noteq> CAssertFailed"
proof -
  have inv: "cinv cid c0 s" and size: "ring_size (cm s) = ring_size (cm s0)"
    using reach_cinv [OF assms] by simp_all
  have "map snd (hist s) = taken s @ map snd (drop (RL (cm s) - c0) (hist s))"
    using inv by (simp add: cinv_def map_append [symmetric] del: map_append)
  moreover have "length (map snd (drop (RL (cm s) - c0) (hist s))) \<le> ring_size (cm s)"
    using inv by (auto simp: cinv_def posted_ok_def cursors_ok_def)
  moreover have "cc s \<noteq> CAssertFailed" using inv by (auto simp: cinv_def)
  ultimately show ?thesis using size by auto
qed

text \<open>A run of nine steps that publishes one element.\<close>

definition demo_q :: qobj where
  "demo_q = \<lparr>q_entry_size = 16, q_entry_bits = 4, q_queue_mask = 3, q_queue_size = 4,
     q_release_alert = False, q_mq_index = 0, q_avg_buf = False, q_avg_lat_buf = False,
     q_avg_lat_buf_index = 0, q_avg_lat_buf_index_save = 0, q_reserve_threshold = 4,
     q_monotonic_reserve_index = 1, q_head_threshold = 0, q_monotonic_head_index = 1\<rparr>"

definition demo_start :: "nat cstate" where
  "demo_start = \<lparr>cm = init_header ''q'' 16 4 4096 (replicate 4 \<lparr>pos = 0, buffer = 0\<rparr>),
     co = \<lambda>_. demo_q, cp = \<lambda>_. PIdle, cc = CIdle, hist = [], taken = [], lost = {}\<rparr>"

lemma demo_cinit: "cinit 0 1 demo_start"
proof -
  have "\<exists>k\<le>31. (4::u32) = 2 ^ k" by (rule exI [of _ 2]) simp
  then show ?thesis
    by (simp add: cinit_def demo_start_def init_header_def mq_inv_def geo_def demo_q_def
        QUEUE_CURSOR_INIT_VALUE_def)
qed

definition demo_reserved :: "nat cstate" where
  "demo_reserved = set_pc 7 (PStamp 5 1) (demo_start\<lparr>cm := (cm demo_start)\<lparr>mh_reserve := 2\<rparr>\<rparr>)"

lemmas demo_defs = demo_reserved_def demo_start_def init_header_def demo_q_def QUEUE_CURSOR_INIT_VALUE_def
  set_pc_def set_pos_def set_buffer_def slot_of_def GetInQueueIndex_def

lemma demo_reserve: "creach (\<lambda>p. 0) 0 demo_start 4 demo_reserved"
  using reserve_run [OF reach_start [of "\<lambda>p. 0" 0 demo_start], of 7 5] by (simp add: demo_defs)

lemma demo_run: "\<exists>s. creach (\<lambda>p. 0) 0 demo_start 9 s \<and> hist s = [(7, 5)] \<and> taken s = []"
proof -
  let ?s = "set_pc 7 (PSpin 5 1 1)
    (demo_reserved\<lparr>cm := set_buffer (slot_of demo_q 1) 5 (set_pos (slot_of demo_q 1) 1 (cm demo_reserved))\<rparr>)"
  have "creach (\<lambda>p. 0) 0 demo_start (4 + 3) ?s"
    using fill_run [OF demo_reserve, of 7 5 1] by (simp add: demo_defs)
  moreover have "cp ?s 7 = PSpin 5 1 1" "mh_tail (cm ?s) = 1" by (simp_all add: demo_defs)
  ultimately have "creach (\<lambda>p. 0) 0 demo_start (4 + 3 + 2)
      (set_pc 7 PIdle (?s\<lparr>cm := (cm ?s)\<lparr>mh_tail := 1 + 1\<rparr>, hist := hist ?s @ [(7, 5)]\<rparr>))" (is "creach _ _ _ _ ?t")
    by (rule publish_run)
  moreover have "hist ?t = [(7, 5)]" "taken ?t = []" by (simp_all add: demo_defs)
  ultimately show ?thesis by (intro exI [of _ ?t]) simp
qed

text \<open>A second producer reserves and fills the next slot and waits for the first.\<close>

definition demo_waiting :: "nat cstate" where
  "demo_waiting = set_pc 8 (PSpin 6 2 2) (demo_reserved\<lparr>cm :=
     set_buffer 2 6 (set_pos 2 2 ((cm demo_reserved)\<lparr>mh_reserve := 3\<rparr>))\<rparr>)"

lemma demo_wait: "creach (\<lambda>p. 0) 0 demo_start 11 demo_waiting"
proof -
  let ?s = "set_pc 8 (PStamp 6 2) (demo_reserved\<lparr>cm := (cm demo_reserved)\<lparr>mh_reserve := 3\<rparr>\<rparr>)"
  have "creach (\<lambda>p. 0) 0 demo_start (4 + 4) ?s"
    using reserve_run [OF demo_reserve, of 8 6] by (simp add: demo_defs)
  from fill_run [OF this, of 8 6 2] show ?thesis
    by (simp add: demo_waiting_def demo_defs)
qed

theorem mpsc_concurrent_fifo_witness:
  "\<exists>s rest. creach (\<lambda>p. 0) 0 demo_start 9 s \<and> hist s = [(7, 5)] \<and> [5] = taken s @ rest \<and> length rest \<le> 4"
proof -
  obtain s where s: "creach (\<lambda>p. 0) 0 demo_start 9 s" "hist s = [(7, 5)]" using demo_run by blast
  have "ring_size (cm demo_start) = 4" by (simp add: demo_start_def init_header_def)
  with mpsc_concurrent_fifo [OF s(1) demo_cinit] s show ?thesis by auto
qed

text \<open>
  C6: while a producer holds a reserved slot no other thread touches it: its cursor is unpublished
  and reserved by nobody else, and its slot is neither that of another reservation nor that of an
  element the consumer may still read.
\<close>

theorem mpsc_slot_exclusive:
  assumes "creach own cid s0 n s" and "cinit cid c0 s0" and "c0 + n + ring_size (cm s0) < 2 ^ 64"
    and "claim (cp s p) = Some i"
  shows "(\<forall>p' j. p' \<noteq> p \<longrightarrow> claim (cp s p') = Some j \<longrightarrow> j mod ring_size (cm s0) \<noteq> i mod ring_size (cm s0)) \<and>
    (\<forall>j. RL (cm s) \<le> j \<longrightarrow> j < TL (cm s) \<longrightarrow> j mod ring_size (cm s0) \<noteq> i mod ring_size (cm s0))"
proof -
  have inv: "cinv cid c0 s" and size: "ring_size (cm s) = ring_size (cm s0)"
    using reach_cinv [OF assms(1-3)] by simp_all
  then have c: "cursors_ok (cm s)" and clo: "claims_ok (TL (cm s)) (RS (cm s)) (claims s) (lost s)"
    by (simp_all add: cinv_def)
  note i = claims_okD(1) [OF clo, of p i]
  have "j mod ring_size (cm s) \<noteq> i mod ring_size (cm s)" if "p' \<noteq> p" "claim (cp s p') = Some j" for p' j
    using that assms(4) i claims_okD(1) [OF clo, of p' j] claims_okD(2) [OF clo, of p i p'] c
    by (intro slot_neq [OF c]) (auto simp: cursors_ok_def)
  moreover have "j mod ring_size (cm s) \<noteq> i mod ring_size (cm s)" if "RL (cm s) \<le> j" "j < TL (cm s)" for j
    using that i assms(4) c by (intro slot_neq [OF c]) (auto simp: cursors_ok_def)
  ultimately show ?thesis using size by auto
qed

theorem mpsc_slot_exclusive_witness:
  "creach (\<lambda>p. 0) 0 demo_start 11 demo_waiting \<and> claim (cp demo_waiting 7) = Some 1 \<and>
   claim (cp demo_waiting 8) = Some 2 \<and>
   2 mod ring_size (cm demo_start) \<noteq> 1 mod ring_size (cm demo_start)"
proof -
  have c: "claim (cp demo_waiting 7) = Some 1" "claim (cp demo_waiting 8) = Some 2"
    "1 + 11 + ring_size (cm demo_start) < 2 ^ 64"
    by (simp_all add: demo_waiting_def demo_defs)
  note x = mpsc_slot_exclusive [OF demo_wait demo_cinit c(3) c(1)]
  have "2 mod ring_size (cm demo_start) \<noteq> 1 mod ring_size (cm demo_start)"
    using conjunct1 [OF x, rule_format, of 8 2] c(2) by simp
  with c demo_wait show ?thesis by simp
qed



lemma creach_trans:
  assumes "creach own cid s k s'" "creach own cid s0 n s"
  shows "creach own cid s0 (n + k) s'"
  using assms by (induction rule: creach.induct) (auto intro: creach.intros)

lemma cstep_lost: "cstep own cid s s' \<Longrightarrow> lost s \<subseteq> lost s'"
  by (erule cstep.cases) (auto simp: set_pc_def set_threshold_def set_head_threshold_def)

lemma creach_lost: "creach own cid s k s' \<Longrightarrow> lost s \<subseteq> lost s'"
  by (induction rule: creach.induct) (use cstep_lost in blast)+

text \<open>
  A slot that a producer gives up after \<^verbatim>\<open>set_release_alert\<close> is never published, and from then
  on the tail stays at or below it: however the run continues, nothing reserved after it reaches the
  consumer (until the queue is made \<^verbatim>\<open>Consistent\<close>).
\<close>

theorem mpsc_give_up_blocks:
  assumes "creach own cid s0 n s" and "i \<in> lost s" and "creach own cid s k s'"
    and "cinit cid c0 s0" and "c0 + n + k + ring_size (cm s0) < 2 ^ 64"
  shows "TL (cm s') \<le> i \<and> length (hist s') \<le> i - c0"
proof -
  have "cinv cid c0 s'"
    using reach_cinv [OF creach_trans [OF assms(3,1)] assms(4)] assms(5) by simp
  moreover have "i \<in> lost s'" using creach_lost [OF assms(3)] assms(2) by blast
  ultimately have "TL (cm s') \<le> i" "length (hist s') = TL (cm s') - c0"
    by (auto simp: cinv_def claims_ok_def posted_ok_def)
  then show ?thesis by simp
qed

definition demo_gave_up :: "nat cstate" where
  "demo_gave_up = set_pc 8 PIdle (demo_waiting\<lparr>co := (\<lambda>_. demo_q)(0 := set_release_alert True demo_q), lost := {2}\<rparr>)"

lemma demo_give_up: "creach (\<lambda>p. 0) 0 demo_start 13 demo_gave_up"
proof -
  let ?s = "demo_waiting\<lparr>co := (co demo_waiting)(0 := set_release_alert True (co demo_waiting 0))\<rparr>"
  have 1: "creach (\<lambda>p. 0) 0 demo_start (Suc 11) ?s"
    by (rule reach_step [OF demo_wait]) (rule alert)
  have "creach (\<lambda>p. 0) 0 demo_start (Suc (Suc 11)) (set_pc 8 PIdle (?s\<lparr>lost := insert (unat (2::u64)) (lost ?s)\<rparr>))"
    by (rule reach_step [OF 1], rule push_give_up [of _ 8 6 2 2])
      (simp_all add: demo_waiting_def demo_defs set_release_alert_def)
  moreover have "set_pc 8 PIdle (?s\<lparr>lost := insert (unat (2::u64)) (lost ?s)\<rparr>) = demo_gave_up"
    by (simp add: demo_gave_up_def demo_waiting_def demo_defs)
  ultimately show ?thesis by simp
qed

theorem mpsc_give_up_blocks_witness:
  "creach (\<lambda>p. 0) 0 demo_start 13 demo_gave_up \<and> (2::nat) \<in> lost demo_gave_up \<and>
   length (hist demo_gave_up) \<le> 1"
proof -
  have "ring_size (cm demo_start) = 4" "2 \<in> lost demo_gave_up"
    by (simp_all add: demo_gave_up_def demo_defs)
  with mpsc_give_up_blocks [OF demo_give_up _ reach_start demo_cinit, of 2] demo_give_up
  show ?thesis by simp
qed

end
