(* ===== verification/Spsc_Queue.thy ===== *)
theory Spsc_Queue
  imports Mpsc_Queue
begin

section \<open>The single-producer and single-consumer queues\<close>

text \<open>
  \<^verbatim>\<open>SPSCQueue\<close> and \<^verbatim>\<open>SPMCQueue\<close> of \<^verbatim>\<open>include/adk/lock_free_msg_queue.h\<close>. Both share the memory,
  the object and \<^verbatim>\<open>Create\<close> of \<^verbatim>\<open>MPSCQueue\<close> (they are reinterpreted pointers to it). The side with
  one thread moves its cursor with a plain increment, and where the multi-producer queue waits, these
  assert. \<^verbatim>\<open>Push2\<close>/\<^verbatim>\<open>Pop2\<close> are the variants for rings of 8192 slots of 16 bytes that keep
  \<^verbatim>\<open>reserve\<close> and \<^verbatim>\<open>head\<close> in the object; \<^verbatim>\<open>ReorderPush\<close>/\<^verbatim>\<open>ReorderPop\<close> place an element by its
  sequence number and mark the slot in the sign bit of \<^verbatim>\<open>pos\<close>.
\<close>

subsection \<open>\<^verbatim>\<open>SPSCQueue\<close>\<close>

fun spsc_AllocEntry :: "'a queue \<Rightarrow> 'a queue \<times> (ErrorCode + nat)" where
  "spsc_AllocEntry (m, q) =
     (let r = mh_reserve m;
          q1 = q\<lparr>q_reserve_threshold := mh_release m + q_queue_size q\<rparr>;
          take = (\<lambda>q'. (((set_pos (slot_of q' r) r m)\<lparr>mh_reserve := r + 1\<rparr>, q'), Inr (slot_of q' r)))
      in if q_reserve_threshold q \<le> r
         then (if q_reserve_threshold q1 \<le> r
               then ((m\<lparr>mh_nr_forward_fail := mh_nr_forward_fail m + 1\<rparr>, q1), Inl kQueueFull)
               else take q1)
         else take q)"

fun spsc_PostEntry :: "nat \<Rightarrow> 'a queue \<Rightarrow> ('a queue \<times> ErrorCode) run" where
  "spsc_PostEntry e (m, q) =
     rassert (pos (mh_entries m ! e) = mh_tail m) (Ret ((m\<lparr>mh_tail := mh_tail m + 1\<rparr>, q), kSuccess))"

text \<open>\<^verbatim>\<open>UpdateQueueLenth\<close> of this class keeps the maximum only.\<close>

definition spsc_UpdateQueueLenth :: "u64 \<Rightarrow> 'a qmem \<Rightarrow> qobj \<Rightarrow> 'a qmem" where
  "spsc_UpdateQueueLenth monotonic_head_index m q =
     (let current_queue_length = (ucast (q_head_threshold q - monotonic_head_index) :: u32)
      in m\<lparr>mh_max_queue_length := (if mh_max_queue_length m < current_queue_length
                                    then current_queue_length else mh_max_queue_length m)\<rparr>)"

definition spsc_HaveData :: "'a qmem \<Rightarrow> qobj \<Rightarrow> 'a queue \<times> u64 option" where
  "spsc_HaveData m q =
     (let h = mh_head m; q1 = q\<lparr>q_head_threshold := mh_tail m\<rparr>
      in if q_head_threshold q \<le> h
         then (if q_head_threshold q1 \<le> h then ((m, q1), None)
               else ((spsc_UpdateQueueLenth h m q1, q1), Some h))
         else ((m, q), Some h))"

fun spsc_WaitEntry :: "bool \<Rightarrow> 'a queue \<Rightarrow> 'a queue \<times> (ErrorCode + nat)" where
  "spsc_WaitEntry recycle_mode (m, q) =
     (case spsc_HaveData m q of
        (s, None) \<Rightarrow> (s, Inl kQueueEmpty)
      | ((m1, q1), Some h) \<Rightarrow>
          (let m2 = (if recycle_mode then set_pos (slot_of q1 h) h m1 else m1)
           in ((m2\<lparr>mh_head := mh_head m2 + 1\<rparr>, q1), Inr (slot_of q1 h))))"

fun spsc_FreeEntry :: "nat \<Rightarrow> 'a queue \<Rightarrow> ('a queue \<times> ErrorCode) run" where
  "spsc_FreeEntry e (m, q) =
     rassert (mh_release m = pos (mh_entries m ! e)) (Ret ((m\<lparr>mh_release := mh_release m + 1\<rparr>, q), kSuccess))"

fun spsc_UpdateTail :: "bool \<Rightarrow> nat \<Rightarrow> 'a queue \<Rightarrow> 'a queue" where
  "spsc_UpdateTail batch_mode e (m, q) =
     (let p = pos (mh_entries m ! e)
      in if batch_mode then (m\<lparr>mh_tail := p + 1\<rparr>, q)
         else (let p' = p + (q_queue_size q + 1) in ((set_pos e p' m)\<lparr>mh_tail := p'\<rparr>, q)))"

fun spsc_Push :: "u64 \<Rightarrow> 'a queue \<Rightarrow> 'a \<Rightarrow> ('a queue \<times> ErrorCode) run" where
  "spsc_Push sz (m, q) payload =
     rassert (payload_fits sz q)
       (case spsc_AllocEntry (m, q) of
          (s, Inl ec) \<Rightarrow> Ret (s, ec)
        | ((m1, q1), Inr e) \<Rightarrow> spsc_PostEntry e (set_buffer e payload m1, q1))"

fun spsc_Pop :: "u64 \<Rightarrow> 'a queue \<Rightarrow> ('a queue \<times> (ErrorCode + 'a)) run" where
  "spsc_Pop sz (m, q) =
     rassert (payload_fits sz q)
       (case spsc_WaitEntry False (m, q) of
          (s, Inl ec) \<Rightarrow> Ret (s, Inl ec)
        | ((m1, q1), Inr e) \<Rightarrow>
            rbind (spsc_FreeEntry e (m1, q1)) (\<lambda>(s, ec). Ret (s, Inr (buffer (mh_entries m1 ! e)))))"

text \<open>\<^verbatim>\<open>Pop<Element>()\<close> drops the first element; \<^verbatim>\<open>Head()\<close> shows it and \<^verbatim>\<open>Pop()\<close> gives it back.\<close>

fun spsc_Pop_drop :: "'a queue \<Rightarrow> ('a queue \<times> ErrorCode) run" where
  "spsc_Pop_drop (m, q) =
     (case spsc_WaitEntry False (m, q) of
        (s, Inl ec) \<Rightarrow> Ret (s, ec)
      | (s, Inr e) \<Rightarrow> spsc_FreeEntry e s)"

fun spsc_Head :: "u64 \<Rightarrow> nat option \<Rightarrow> 'a queue \<Rightarrow> ('a queue \<times> nat option \<times> 'a option) run" where
  "spsc_Head sz g (m, q) =
     rassert (payload_fits sz q)
       (case spsc_HaveData m q of
          (s, None) \<Rightarrow> Ret (s, g, None)
        | ((m1, q1), Some h) \<Rightarrow>
            Ret ((m1, q1), Some (slot_of q1 h), Some (buffer (mh_entries m1 ! slot_of q1 h))))"

fun spsc_Pop_head :: "nat option \<Rightarrow> 'a queue \<Rightarrow> ('a queue \<times> ErrorCode) run" where
  "spsc_Pop_head g (m, q) =
     (let m1 = spsc_UpdateQueueLenth (mh_head m) m q
      in case g of
           None \<Rightarrow> AssertFail
         | Some e \<Rightarrow> rassert (pos (mh_entries m1 ! e) = mh_head m1)
                      (spsc_FreeEntry e (m1\<lparr>mh_head := mh_head m1 + 1\<rparr>, q)))"

subsection \<open>The variants for 8192 slots\<close>

text \<open>
  \<^verbatim>\<open>Init3\<close> (\<^verbatim>\<open>DoInit3\<close>) checks that the ring has the geometry these variants are compiled for and
  clears it (\<open>zero\<close> is the element whose bytes are all zero). The variants address slot \<open>e\<close> at byte
  \<^verbatim>\<open>e << 4\<close>: with entries of another size the access straddles slots, which is left undefined here.
\<close>

fun spsc_Init3 :: "'a \<Rightarrow> 'a queue \<Rightarrow> 'a queue \<times> ErrorCode" where
  "spsc_Init3 zero (m, q) =
     (if q_queue_mask q \<noteq> 8191 \<or> q_queue_size q \<noteq> 8192 then ((m, q), kFailure)
      else if q_entry_bits q \<noteq> 4 \<or> q_entry_size q \<noteq> 16 then ((m, q), kFailure)
      else ((m\<lparr>mh_entries := map (\<lambda>_. \<lparr>pos = 0, buffer = zero\<rparr>) (mh_entries m)\<rparr>, q), kSuccess))"








subsection \<open>The reordering variants\<close>

fun ReorderAllocEntry :: "u64 \<Rightarrow> 'a queue \<Rightarrow> 'a queue \<times> (ErrorCode + nat)" where
  "ReorderAllocEntry seq (m, q) =
     (let q1 = q\<lparr>q_reserve_threshold := mh_release m + q_queue_size q\<rparr>
      in if q_reserve_threshold q \<le> seq
         then (if q_reserve_threshold q1 \<le> seq
               then ((m\<lparr>mh_nr_forward_fail := mh_nr_forward_fail m + 1\<rparr>, q1), Inl kQueueFull)
               else ((m, q1), Inr (slot_of q1 seq)))
         else ((m, q), Inr (slot_of q seq)))"

fun RecorderPostEntry :: "nat \<Rightarrow> u64 \<Rightarrow> 'a queue \<Rightarrow> 'a queue \<times> ErrorCode" where
  "RecorderPostEntry e seq (m, q) = ((set_pos e (- seq) m, q), kSuccess)"

fun RecorderWaitEntry :: "'a queue \<Rightarrow> 'a queue \<times> (ErrorCode + nat)" where
  "RecorderWaitEntry (m, q) =
     (let h = mh_head m; e = slot_of q h
      in if pos (mh_entries m ! e) AND push_bit 63 1 = 0 then ((m, q), Inl kQueueEmpty)
         else ((m\<lparr>mh_head := h + 1\<rparr>, q), Inr e))"

fun RecorderFreeEntry :: "nat \<Rightarrow> 'a queue \<Rightarrow> 'a queue \<times> ErrorCode" where
  "RecorderFreeEntry e (m, q) =
     (((set_pos e (- pos (mh_entries m ! e)) m)\<lparr>mh_release := mh_release m + 1\<rparr>, q), kSuccess)"

fun ReorderPush :: "'a queue \<Rightarrow> 'a \<Rightarrow> u64 \<Rightarrow> 'a queue \<times> ErrorCode" where
  "ReorderPush (m, q) payload seq =
     (case ReorderAllocEntry seq (m, q) of
        (s, Inl ec) \<Rightarrow> (s, ec)
      | ((m1, q1), Inr e) \<Rightarrow> RecorderPostEntry e seq (set_buffer e payload m1, q1))"

fun ReorderPop :: "'a queue \<Rightarrow> 'a queue \<times> (ErrorCode + 'a)" where
  "ReorderPop (m, q) =
     (case RecorderWaitEntry (m, q) of
        (s, Inl ec) \<Rightarrow> (s, Inl ec)
      | ((m1, q1), Inr e) \<Rightarrow> (fst (RecorderFreeEntry e (m1, q1)), Inr (buffer (mh_entries m1 ! e))))"

subsection \<open>\<^verbatim>\<open>SPMCQueue\<close>\<close>

fun spmc_AllocEntry :: "'a queue \<Rightarrow> 'a queue \<times> (ErrorCode + nat)" where
  "spmc_AllocEntry (m, q) =
     (let r = mh_reserve m;
          q1 = q\<lparr>q_reserve_threshold := mh_release m + q_queue_size q\<rparr>;
          take = (\<lambda>q'. (((set_pos (slot_of q' r) r m)\<lparr>mh_reserve := r + 1\<rparr>, q'), Inr (slot_of q' r)))
      in if q_reserve_threshold q \<le> r
         then (if q_reserve_threshold q1 \<le> r then ((m, q1), Inl kQueueFull) else take q1)
         else take q)"

fun spmc_PostEntry :: "nat \<Rightarrow> 'a queue \<Rightarrow> ('a queue \<times> ErrorCode) run" where
  "spmc_PostEntry e (m, q) =
     rassert (pos (mh_entries m ! e) = mh_tail m) (Ret ((m\<lparr>mh_tail := mh_tail m + 1\<rparr>, q), kSuccess))"

definition GetPostEntry :: "'a qmem \<Rightarrow> qobj \<Rightarrow> 'a queue \<times> u64 option" where
  "GetPostEntry m q =
     (let temp_head = mh_head m; q1 = q\<lparr>q_head_threshold := mh_tail m\<rparr>
      in if q_head_threshold q \<le> temp_head
         then (if q_head_threshold q1 \<le> temp_head then ((m, q1), None)
               else ((m\<lparr>mh_head := temp_head + 1\<rparr>, q1), Some temp_head))
         else ((m\<lparr>mh_head := temp_head + 1\<rparr>, q), Some temp_head))"

fun spmc_WaitEntry :: "'a queue \<Rightarrow> 'a queue \<times> (ErrorCode + nat)" where
  "spmc_WaitEntry (m, q) =
     (case GetPostEntry m q of
        (s, None) \<Rightarrow> (s, Inl kQueueEmpty)
      | ((m1, q1), Some h) \<Rightarrow> ((m1, q1), Inr (slot_of q1 h)))"

fun spmc_FreeEntry :: "nat \<Rightarrow> 'a queue \<Rightarrow> ('a queue \<times> ErrorCode) run" where
  "spmc_FreeEntry e (m, q) =
     (if mh_release m \<noteq> pos (mh_entries m ! e)
      then (if q_release_alert q then Ret ((m, q), kWouldblock) else Hang)
      else Ret ((m\<lparr>mh_release := mh_release m + 1\<rparr>, q), kSuccess))"

fun spmc_Push :: "u64 \<Rightarrow> 'a queue \<Rightarrow> 'a \<Rightarrow> ('a queue \<times> ErrorCode) run" where
  "spmc_Push sz (m, q) payload =
     rassert (payload_fits sz q)
       (case spmc_AllocEntry (m, q) of
          (s, Inl ec) \<Rightarrow> Ret (s, ec)
        | ((m1, q1), Inr e) \<Rightarrow> spmc_PostEntry e (set_buffer e payload m1, q1))"

text \<open>\<^verbatim>\<open>Pop\<close> copies the element out and returns what \<^verbatim>\<open>FreeEntry\<close> returns.\<close>

fun spmc_Pop :: "u64 \<Rightarrow> 'a queue \<Rightarrow> ('a queue \<times> (ErrorCode + 'a)) run" where
  "spmc_Pop sz (m, q) =
     rassert (payload_fits sz q)
       (case spmc_WaitEntry (m, q) of
          (s, Inl ec) \<Rightarrow> Ret (s, Inl ec)
        | ((m1, q1), Inr e) \<Rightarrow>
            rbind (spmc_FreeEntry e (m1, q1)) (\<lambda>(s, ec).
              Ret (s, if ec = kSuccess then Inr (buffer (mh_entries m1 ! e)) else Inl ec)))"

section \<open>The plain calls keep the contract of the bounded queue\<close>

lemma exact_next:
  assumes "mpsc_exact sz (m, q)"
  shows "mq_inv m q" "payload_fits sz q" "mh_reserve m = mh_tail m" "geo m q"
    "TL m mod ring_size m < length (mh_entries m)"
    "slot_of (q\<lparr>q_reserve_threshold := t\<rparr>) (mh_tail m) = TL m mod ring_size m"
    "slot_of q (mh_tail m) = TL m mod ring_size m"
    "slot_of (q\<lparr>q_head_threshold := t\<rparr>) (mh_head m) = HD m mod ring_size m"
    "slot_of q (mh_head m) = HD m mod ring_size m"
proof -
  show i: "mq_inv m q" and "payload_fits sz q" and "mh_reserve m = mh_tail m"
    using assms by (auto simp: word_unat_eq_iff)
  show g: "geo m q" using i by (rule mq_invD)
  show "TL m mod ring_size m < length (mh_entries m)"
    using length_entries [OF g] geo_size_pos [OF g] by simp
  show "slot_of q (mh_tail m) = TL m mod ring_size m" "slot_of q (mh_head m) = HD m mod ring_size m"
    using slot_of_mod [OF g] by simp_all
  then show "slot_of (q\<lparr>q_reserve_threshold := t\<rparr>) (mh_tail m) = TL m mod ring_size m"
    "slot_of (q\<lparr>q_head_threshold := t\<rparr>) (mh_head m) = HD m mod ring_size m"
    by (simp_all add: slot_of_def GetInQueueIndex_def)
qed

text \<open>The memory after a push and the common step from it to the contract.\<close>

definition after_push :: "'a \<Rightarrow> 'a qmem \<Rightarrow> 'a qmem" where
  "after_push x m = (set_buffer (TL m mod ring_size m) x
     ((set_pos (TL m mod ring_size m) (mh_tail m) m)\<lparr>mh_reserve := mh_tail m + 1\<rparr>))\<lparr>mh_tail := mh_tail m + 1\<rparr>"

lemma after_push_pushed:
  assumes "mpsc_exact sz (m, q)" and "unat t \<le> RL m + ring_size m"
  shows "pushed x m q (after_push x m) (q\<lparr>q_reserve_threshold := t\<rparr>)" and "stamped_exact m (after_push x m)"
  using exact_next(3,5) [OF assms(1)] assms(2)
  by (auto simp: pushed_def stamped_exact_def after_push_def slot_simps set_pos_def set_buffer_def nth_list_update)

lemma spsc_Push_room:
  assumes ex: "mpsc_exact sz (m, q)" and room: "TL m < RL m + ring_size m"
  obtains t where "unat t \<le> RL m + ring_size m"
    and "spsc_Push sz (m, q) x = Ret ((after_push x m, q\<lparr>q_reserve_threshold := t\<rparr>), kSuccess)"
    and "spmc_Push sz (m, q) x = Ret ((after_push x m, q\<lparr>q_reserve_threshold := t\<rparr>), kSuccess)"
proof -
  note n = exact_next [OF ex]
  have f: "unat (mh_release m + q_queue_size q) = RL m + ring_size m" by (rule unat_full_threshold [OF n(1)])
  have stamp: "pos (mh_entries (set_pos (TL m mod ring_size m) (mh_tail m) m) ! (TL m mod ring_size m)) = mh_tail m"
    using n(5) by (simp add: slot_simps)
  show thesis
  proof (cases "q_reserve_threshold q \<le> mh_reserve m")
    case True
    then show thesis
      using that [of "mh_release m + q_queue_size q"] n f room stamp
      by (simp add: Let_def word_le_nat_alt pos_set_buffer after_push_def)
  next
    case False
    then show thesis
      using that [of "q_reserve_threshold q"] n mq_invD(7) [OF n(1)] stamp
      by (simp add: Let_def pos_set_buffer after_push_def)
  qed
qed

lemma exact_thresholds:
  assumes ex: "mpsc_exact sz (m, q)" and r: "same_ring m m'"
    and t: "unat t \<le> RL m + ring_size m" and h: "unat h \<le> TL m"
  shows "mpsc_exact sz (m', q\<lparr>q_reserve_threshold := t, q_head_threshold := h\<rparr>)"
  using mpsc_exact_same [OF ex mpsc_ok_cong [OF mpsc_exact_ok [OF ex] r t h] r] .

lemma spsc_Push_full:
  assumes ex: "mpsc_exact sz (m, q)" and full: "TL m = RL m + ring_size m"
  shows "\<exists>m' q'. spsc_Push sz (m, q) x = Ret ((m', q'), kQueueFull) \<and> same_ring m m' \<and> mpsc_exact sz (m', q')"
    and "\<exists>m' q'. spmc_Push sz (m, q) x = Ret ((m', q'), kQueueFull) \<and> same_ring m m' \<and> mpsc_exact sz (m', q')"
proof -
  note n = exact_next [OF ex]
  let ?t = "mh_release m + q_queue_size q" let ?m = "m\<lparr>mh_nr_forward_fail := mh_nr_forward_fail m + 1\<rparr>"
  have f: "unat ?t = RL m + ring_size m" by (rule unat_full_threshold [OF n(1)])
  have same: "same_ring m ?m" by (simp add: same_ring_def)
  have "mpsc_exact sz (m', q\<lparr>q_reserve_threshold := ?t\<rparr>)" if "same_ring m m'" for m'
    using exact_thresholds [OF ex that, of ?t "q_head_threshold q"] f mq_invD(8) [OF n(1)] by simp
  then have ok: "mpsc_exact sz (?m, q\<lparr>q_reserve_threshold := ?t\<rparr>)" "mpsc_exact sz (m, q\<lparr>q_reserve_threshold := ?t\<rparr>)"
    using same same_ring_samples(1) by blast+
  have "spsc_Push sz (m, q) x = Ret ((?m, q\<lparr>q_reserve_threshold := ?t\<rparr>), kQueueFull)"
    and "spmc_Push sz (m, q) x = Ret ((m, q\<lparr>q_reserve_threshold := ?t\<rparr>), kQueueFull)"
    using n f full mq_invD(7) [OF n(1)] by (simp_all add: Let_def word_le_nat_alt)
  with ok same show "\<exists>m' q'. spsc_Push sz (m, q) x = Ret ((m', q'), kQueueFull) \<and> same_ring m m' \<and> mpsc_exact sz (m', q')"
    and "\<exists>m' q'. spmc_Push sz (m, q) x = Ret ((m', q'), kQueueFull) \<and> same_ring m m' \<and> mpsc_exact sz (m', q')"
    using same_ring_samples(1) by blast+
qed

lemma same_ring_spsc [simp, intro]: "same_ring m (spsc_UpdateQueueLenth h m q)"
  by (simp add: same_ring_def spsc_UpdateQueueLenth_def Let_def)

lemma HaveData_some:
  assumes ex: "mpsc_exact sz (m, q)" and some: "HD m < TL m"
  obtains m1 t where "spsc_HaveData m q = ((m1, q\<lparr>q_head_threshold := t\<rparr>), Some (mh_head m))"
    and "same_ring m m1" and "unat t \<le> TL m"
proof (cases "q_head_threshold q \<le> mh_head m")
  case True
  then show thesis
    using that [of "spsc_UpdateQueueLenth (mh_head m) m (q\<lparr>q_head_threshold := mh_tail m\<rparr>)" "mh_tail m"] some
    by (simp add: spsc_HaveData_def Let_def word_le_nat_alt)
next
  case False
  then show thesis
    using that [of m "q_head_threshold q"] mq_invD(8) [OF exact_next(1) [OF ex]]
    by (simp add: spsc_HaveData_def Let_def)
qed

lemma spsc_Pop_some:
  assumes ex: "mpsc_exact sz (m, q)" and some: "HD m < TL m"
  shows "\<exists>m' q'. spsc_Pop sz (m, q) = Ret ((m', q'), Inr (hd (contents m))) \<and> popped m q m' q'"
proof -
  note n = exact_next [OF ex]
  from HaveData_some [OF ex some] obtain m1 t where
    h: "spsc_HaveData m q = ((m1, q\<lparr>q_head_threshold := t\<rparr>), Some (mh_head m))" "same_ring m m1" "unat t \<le> TL m" .
  have "hd (contents m) = buffer (mh_entries m ! (HD m mod ring_size m))"
    using contents_Cons [OF some] by simp
  then show ?thesis
    using h n head_stamp [OF ex some] by (auto simp: same_ring_def popped_def)
qed

lemma spmc_Pop_some:
  assumes ex: "mpsc_exact sz (m, q)" and some: "HD m < TL m"
  shows "\<exists>m' q'. spmc_Pop sz (m, q) = Ret ((m', q'), Inr (hd (contents m))) \<and> popped m q m' q'"
proof -
  note n = exact_next [OF ex]
  obtain t where "GetPostEntry m q = ((m\<lparr>mh_head := mh_head m + 1\<rparr>, q\<lparr>q_head_threshold := t\<rparr>), Some (mh_head m))"
    and "unat t \<le> TL m"
  proof (cases "q_head_threshold q \<le> mh_head m")
    case True
    then show thesis using that [of "mh_tail m"] some by (simp add: GetPostEntry_def Let_def word_le_nat_alt)
  next
    case False
    then show thesis
      using that [of "q_head_threshold q"] mq_invD(8) [OF n(1)] by (simp add: GetPostEntry_def Let_def)
  qed
  moreover have "hd (contents m) = buffer (mh_entries m ! (HD m mod ring_size m))"
    using contents_Cons [OF some] by simp
  ultimately show ?thesis
    using n head_stamp [OF ex some] same_ring_samples(1) [of m] by (auto simp: popped_def)
qed

lemma spsc_Pop_none:
  assumes ex: "mpsc_exact sz (m, q)" and none: "HD m = TL m"
  shows "\<exists>q'. spsc_Pop sz (m, q) = Ret ((m, q'), Inl kQueueEmpty) \<and> mpsc_exact sz (m, q')"
    and "\<exists>q'. spmc_Pop sz (m, q) = Ret ((m, q'), Inl kQueueEmpty) \<and> mpsc_exact sz (m, q')"
proof -
  note n = exact_next [OF ex]
  have "mpsc_exact sz (m, q\<lparr>q_head_threshold := mh_tail m\<rparr>)"
    using exact_thresholds [OF ex, of m "q_reserve_threshold q" "mh_tail m"] mq_invD(7) [OF n(1)] by simp
  moreover have "spsc_Pop sz (m, q) = Ret ((m, q\<lparr>q_head_threshold := mh_tail m\<rparr>), Inl kQueueEmpty)"
    and "spmc_Pop sz (m, q) = Ret ((m, q\<lparr>q_head_threshold := mh_tail m\<rparr>), Inl kQueueEmpty)"
    using n none mq_invD(8) [OF n(1)] by (simp_all add: spsc_HaveData_def GetPostEntry_def Let_def word_le_nat_alt)
  ultimately show "\<exists>q'. spsc_Pop sz (m, q) = Ret ((m, q'), Inl kQueueEmpty) \<and> mpsc_exact sz (m, q')"
    and "\<exists>q'. spmc_Pop sz (m, q) = Ret ((m, q'), Inl kQueueEmpty) \<and> mpsc_exact sz (m, q')"
    by blast+
qed

interpretation spsc: ring_calls "spsc_Push sz" "spsc_Pop sz" "mpsc_exact sz" sz
  for sz
proof (unfold_locales, goal_cases)
  case (1 s) then show ?case by (cases s) simp
next
  case (2 m q x)
  obtain t where "unat t \<le> RL m + ring_size m"
    "spsc_Push sz (m, q) x = Ret ((after_push x m, q\<lparr>q_reserve_threshold := t\<rparr>), kSuccess)"
    using spsc_Push_room [OF 2(1,2), of x] .
  then show ?case
    using after_push_pushed [OF 2(1), of t x] mpsc_exact_pushed [OF 2] by blast
next
  case (3 m q x) then show ?case using spsc_Push_full(1) [OF 3] by blast
next
  case (4 m q) then show ?case using spsc_Pop_some [OF 4] mpsc_exact_popped [OF 4] by blast
next
  case (5 m q) then show ?case using spsc_Pop_none(1) [OF 5] by blast
qed

interpretation spmc: ring_calls "spmc_Push sz" "spmc_Pop sz" "mpsc_exact sz" sz
  for sz
proof (unfold_locales, goal_cases)
  case (1 s) then show ?case by (cases s) simp
next
  case (2 m q x)
  obtain t where "unat t \<le> RL m + ring_size m"
    "spmc_Push sz (m, q) x = Ret ((after_push x m, q\<lparr>q_reserve_threshold := t\<rparr>), kSuccess)"
    using spsc_Push_room [OF 2(1,2), of x] .
  then show ?case
    using after_push_pushed [OF 2(1), of t x] mpsc_exact_pushed [OF 2] by blast
next
  case (3 m q x) then show ?case using spsc_Push_full(2) [OF 3] by blast
next
  case (4 m q) then show ?case using spmc_Pop_some [OF 4] mpsc_exact_popped [OF 4] by blast
next
  case (5 m q) then show ?case using spsc_Pop_none(2) [OF 5] by blast
qed

section \<open>The specialised variants do what the plain calls do\<close>











section \<open>Properties\<close>

text \<open>
  C22: a created \<^verbatim>\<open>SPSCQueue\<close> and a created \<^verbatim>\<open>SPMCQueue\<close> are bounded first-in first-out buffers:
  over any sequence of calls every assertion holds, every call returns and the results are those of
  the abstract queue.
\<close>

theorem spsc_spmc_fifo:
  assumes "create_pre plat payload n" and "\<And>b. memalign_ok b" and "unat sz \<le> unat payload"
    and "pushes ops \<le> 2 ^ 64 - 2 - unat (RoundToPowerOf2 n)"
  shows "\<exists>s s1 s2. mpsc_Create plat memalign_ok junk name payload n = Ret (Some s) \<and>
    impl_run (spsc_Push sz) (spsc_Pop sz) s ops = Ret (s1, snd (spec_run (unat (RoundToPowerOf2 n)) [] ops)) \<and>
    impl_run (spmc_Push sz) (spmc_Pop sz) s ops = Ret (s2, snd (spec_run (unat (RoundToPowerOf2 n)) [] ops))"
proof -
  obtain m q where c: "mpsc_Create plat memalign_ok junk name payload n = Ret (Some (m, q))"
    "mpsc_exact sz (m, q)" "contents m = []" "ring_size m = unat (RoundToPowerOf2 n)"
    "cursor_budget m = 2 ^ 64 - 2 - unat (RoundToPowerOf2 n)"
    using mpsc_Create_exact [OF assms(1-3), where junk = junk and name = name] .
  with spsc.run_refines [OF c(2), of ops] spmc.run_refines [OF c(2), of ops] assms(4) show ?thesis by auto
qed

theorem spsc_spmc_fifo_witness:
  "\<exists>s s1 s2. mpsc_Create demo_platform (\<lambda>_. True) (\<lambda>_. 0::nat) ''q'' 8 3 = Ret (Some s) \<and>
     impl_run (spsc_Push 8) (spsc_Pop 8) s [OpPush 5, OpPop, OpPop] =
       Ret (s1, [OutPush kSuccess, OutPop (Inr 5), OutPop (Inl kQueueEmpty)]) \<and>
     impl_run (spmc_Push 8) (spmc_Pop 8) s [OpPush 5, OpPop, OpPop] =
       Ret (s2, [OutPush kSuccess, OutPop (Inr 5), OutPop (Inl kQueueEmpty)])"
  using spsc_spmc_fifo [OF demo_pre(1), of "\<lambda>_. True" 8 "[OpPush 5, OpPop, OpPop]" "\<lambda>_. 0" "''q''"]
  by (simp add: demo_pre(2) del: impl_run.simps)



end
