(* ===== verification/Reorder_Spec.thy ===== *)
theory Reorder_Spec
  imports Prelude
begin

section \<open>The contract of a reorder buffer\<close>

text \<open>
  Two queue classes of the kit put elements back into the order of their sequence numbers. What they
  promise is stated here: an abstract buffer with a next expected sequence number and a partial map of
  the elements that have arrived, a driver that runs a sequence of calls, and the locale
  \<open>reorder_buffer\<close> whose laws each class discharges. The producer may place any number of the window
  that starts at the next expected one; the consumer gets the elements in the order of the numbers.
\<close>

datatype 'a rop = RPush nat 'a | RPop

datatype 'a rout = ROutPush ErrorCode | ROutPop "ErrorCode + 'a"

type_synonym 'a rstate = "nat \<times> (nat \<Rightarrow> 'a option)"

fun rspec_step :: "nat \<Rightarrow> 'a rstate \<Rightarrow> 'a rop \<Rightarrow> 'a rstate \<times> 'a rout" where
  "rspec_step n (nxt, P) (RPush i x) =
     (if i < nxt + n then ((nxt, P(i := Some x)), ROutPush kSuccess) else ((nxt, P), ROutPush kQueueFull))"
| "rspec_step n (nxt, P) RPop =
     (case P nxt of None \<Rightarrow> ((nxt, P), ROutPop (Inl kQueueEmpty))
                  | Some x \<Rightarrow> ((Suc nxt, P(nxt := None)), ROutPop (Inr x)))"

fun rspec_run :: "nat \<Rightarrow> 'a rstate \<Rightarrow> 'a rop list \<Rightarrow> 'a rstate \<times> 'a rout list" where
  "rspec_run n a [] = (a, [])"
| "rspec_run n a (op # ops) =
     (let (a', out) = rspec_step n a op; (a'', outs) = rspec_run n a' ops in (a'', out # outs))"

text \<open>A call sequence is proper when no sequence number is pushed that was already delivered.\<close>

fun rproper :: "nat \<Rightarrow> 'a rstate \<Rightarrow> 'a rop list \<Rightarrow> bool" where
  "rproper n a [] \<longleftrightarrow> True"
| "rproper n a (RPush i x # ops) \<longleftrightarrow> fst a \<le> i \<and> i < 2 ^ 63 \<and> rproper n (fst (rspec_step n a (RPush i x))) ops"
| "rproper n a (RPop # ops) \<longleftrightarrow> rproper n (fst (rspec_step n a RPop)) ops"

text \<open>A sequence of calls on an implementation.\<close>

fun rimpl_step ::
  "('s \<Rightarrow> 'a \<Rightarrow> nat \<Rightarrow> ('s \<times> ErrorCode) run) \<Rightarrow> ('s \<Rightarrow> ('s \<times> (ErrorCode + 'a)) run) \<Rightarrow>
   's \<Rightarrow> 'a rop \<Rightarrow> ('s \<times> 'a rout) run" where
  "rimpl_step rpush rpop s (RPush i x) = rbind (rpush s x i) (\<lambda>(s', ec). Ret (s', ROutPush ec))"
| "rimpl_step rpush rpop s RPop = rbind (rpop s) (\<lambda>(s', r). Ret (s', ROutPop r))"

fun rimpl_run ::
  "('s \<Rightarrow> 'a \<Rightarrow> nat \<Rightarrow> ('s \<times> ErrorCode) run) \<Rightarrow> ('s \<Rightarrow> ('s \<times> (ErrorCode + 'a)) run) \<Rightarrow>
   's \<Rightarrow> 'a rop list \<Rightarrow> ('s \<times> 'a rout list) run" where
  "rimpl_run rpush rpop s [] = Ret (s, [])"
| "rimpl_run rpush rpop s (op # ops) =
     rbind (rimpl_step rpush rpop s op) (\<lambda>(s', out).
     rbind (rimpl_run rpush rpop s' ops) (\<lambda>(s'', outs). Ret (s'', out # outs)))"

text \<open>The elements a run delivers.\<close>

fun rdelivered :: "'a rout list \<Rightarrow> 'a list" where
  "rdelivered [] = []"
| "rdelivered (ROutPop (Inr x) # outs) = x # rdelivered outs"
| "rdelivered (_ # outs) = rdelivered outs"

text \<open>The next expected number moves by at most one per call, so a bound on the calls keeps it in range.\<close>

fun rpops :: "'a rop list \<Rightarrow> nat" where
  "rpops [] = 0"
| "rpops (RPush i x # ops) = rpops ops"
| "rpops (RPop # ops) = Suc (rpops ops)"

lemma rspec_step_next: "fst (fst (rspec_step n a RPop)) \<le> Suc (fst a)"
  by (cases a) (simp split: option.split)

locale reorder_buffer =
  fixes rpush :: "'s \<Rightarrow> 'a \<Rightarrow> nat \<Rightarrow> ('s \<times> ErrorCode) run"
    and rpop :: "'s \<Rightarrow> ('s \<times> (ErrorCode + 'a)) run"
    and rrel :: "'s \<Rightarrow> 'a rstate \<Rightarrow> bool"
    and rsize :: nat
  assumes push_sim: "rrel s (nxt, P) \<Longrightarrow> nxt \<le> i \<Longrightarrow> i < 2 ^ 63 \<Longrightarrow>
      \<exists>s'. rimpl_step rpush rpop s (RPush i x) = Ret (s', snd (rspec_step rsize (nxt, P) (RPush i x))) \<and>
           rrel s' (fst (rspec_step rsize (nxt, P) (RPush i x)))"
    and pop_sim: "rrel s (nxt, P) \<Longrightarrow> nxt + rsize < 2 ^ 63 \<Longrightarrow>
      \<exists>s'. rimpl_step rpush rpop s RPop = Ret (s', snd (rspec_step rsize (nxt, P) RPop)) \<and>
           rrel s' (fst (rspec_step rsize (nxt, P) RPop))"
begin

lemma reorder_run:
  assumes "rrel s a" and "rproper rsize a ops" and "fst a + rpops ops + rsize < 2 ^ 63"
  shows "\<exists>s'. rimpl_run rpush rpop s ops = Ret (s', snd (rspec_run rsize a ops)) \<and>
    rrel s' (fst (rspec_run rsize a ops))"
  using assms
proof (induction ops arbitrary: s a)
  case (Cons op ops)
  obtain nxt P where a: "a = (nxt, P)" by (cases a)
  let ?a = "fst (rspec_step rsize (nxt, P) op)"
  obtain s' where step: "rimpl_step rpush rpop s op = Ret (s', snd (rspec_step rsize (nxt, P) op))" "rrel s' ?a"
  proof (cases op)
    case (RPush i x)
    then show thesis
      using that push_sim [of s nxt P i x] Cons.prems a by (simp del: rimpl_step.simps rspec_step.simps) blast
  next
    case RPop
    then show thesis
      using that pop_sim [of s nxt P] Cons.prems a by (simp del: rimpl_step.simps rspec_step.simps) blast
  qed
  have "rproper rsize ?a ops" "fst ?a + rpops ops + rsize < 2 ^ 63"
    using Cons.prems a rspec_step_next [of rsize "(nxt, P)"] by (cases op; simp split: if_splits option.splits)+
  from Cons.IH [OF step(2) this] step show ?case
    using a by (auto simp: Let_def case_prod_unfold simp del: rimpl_step.simps rspec_step.simps)
qed simp

end

text \<open>The abstract buffer delivers consecutive sequence numbers; \<open>sent\<close> gives the element of each.\<close>

fun consistent_pushes :: "(nat \<Rightarrow> 'a) \<Rightarrow> 'a rop list \<Rightarrow> bool" where
  "consistent_pushes sent [] \<longleftrightarrow> True"
| "consistent_pushes sent (RPush i x # ops) \<longleftrightarrow> x = sent i \<and> consistent_pushes sent ops"
| "consistent_pushes sent (RPop # ops) \<longleftrightarrow> consistent_pushes sent ops"

lemma rspec_in_order:
  assumes "consistent_pushes sent ops" and "\<And>i x. P i = Some x \<Longrightarrow> x = sent i"
  shows "rdelivered (snd (rspec_run n (nxt, P) ops)) =
    map sent [nxt..<fst (fst (rspec_run n (nxt, P) ops))] \<and> nxt \<le> fst (fst (rspec_run n (nxt, P) ops))"
  using assms
proof (induction ops arbitrary: nxt P)
  case (Cons op ops)
  show ?case
  proof (cases op)
    case (RPush i x)
    have "\<And>j y. (P(i := Some x)) j = Some y \<Longrightarrow> y = sent j"
      using Cons.prems RPush by (auto split: if_splits)
    moreover have "consistent_pushes sent ops" using Cons.prems RPush by simp
    ultimately show ?thesis
      using Cons.IH [of P nxt, OF _ Cons.prems(2)] Cons.IH [of "P(i := Some x)" nxt] RPush
      by (simp add: Let_def case_prod_unfold del: fun_upd_apply)
  next
    case RPop
    show ?thesis
    proof (cases "P nxt")
      case None
      then show ?thesis using Cons.IH [of P nxt] Cons.prems RPop by (simp add: Let_def case_prod_unfold)
    next
      case (Some x)
      have "\<And>j y. (P(nxt := None)) j = Some y \<Longrightarrow> y = sent j"
        using Cons.prems by (auto split: if_splits)
      moreover have "x = sent nxt" using Some Cons.prems by simp
      ultimately show ?thesis
        using Cons.IH [of "P(nxt := None)" "Suc nxt"] Cons.prems(1) RPop Some
        by (simp add: Let_def case_prod_unfold upt_conv_Cons del: fun_upd_apply)
    qed
  qed
qed simp

end
