(* ===== verification/Reorder_Queue.thy ===== *)
theory Reorder_Queue
  imports Spsc_Queue Reorder_Spec
begin

section \<open>Queues that reorder by sequence number\<close>

text \<open>
  \<^verbatim>\<open>SPSCQueue::ReorderPush\<close> and \<^verbatim>\<open>ReorderPop\<close>, which mark a filled slot in the sign bit of \<^verbatim>\<open>pos\<close>,
  and \<^verbatim>\<open>SCSequentialQueue\<close>, which stamps the slot with the number itself. Both keep the contract
  of the reorder buffer.
\<close>

subsection \<open>\<^verbatim>\<open>SCSequentialQueue\<close>\<close>

fun scs_AllocEntry :: "u64 \<Rightarrow> 'a queue \<Rightarrow> 'a queue \<times> (ErrorCode + nat)" where
  "scs_AllocEntry enqueue_seq (m, q) =
     (let q1 = q\<lparr>q_reserve_threshold := mh_release m + q_queue_size q\<rparr>
      in if q_reserve_threshold q \<le> enqueue_seq
         then (if q_reserve_threshold q1 \<le> enqueue_seq then ((m, q1), Inl kQueueFull)
               else ((m, q1), Inr (slot_of q1 enqueue_seq)))
         else ((m, q), Inr (slot_of q enqueue_seq)))"

fun scs_PostEntry :: "nat \<Rightarrow> u64 \<Rightarrow> 'a queue \<Rightarrow> 'a queue \<times> ErrorCode" where
  "scs_PostEntry e enqueue_seq (m, q) = ((set_pos e enqueue_seq m, q), kSuccess)"

fun scs_WaitEntry :: "'a queue \<Rightarrow> 'a queue \<times> (ErrorCode + nat)" where
  "scs_WaitEntry (m, q) =
     (let h = mh_head m; e = slot_of q h
      in if pos (mh_entries m ! e) \<noteq> h then ((m, q), Inl kQueueEmpty)
         else ((m\<lparr>mh_head := h + 1\<rparr>, q), Inr e))"

fun scs_FreeEntry :: "nat \<Rightarrow> 'a queue \<Rightarrow> ('a queue \<times> ErrorCode) run" where
  "scs_FreeEntry e (m, q) =
     rassert (mh_release m = pos (mh_entries m ! e)) (Ret ((m\<lparr>mh_release := mh_release m + 1\<rparr>, q), kSuccess))"

fun scs_Push :: "u64 \<Rightarrow> 'a queue \<Rightarrow> 'a \<Rightarrow> u64 \<Rightarrow> ('a queue \<times> ErrorCode) run" where
  "scs_Push sz (m, q) payload enqueue_seq =
     rassert (payload_fits sz q)
       (case scs_AllocEntry enqueue_seq (m, q) of
          (s, Inl ec) \<Rightarrow> Ret (s, ec)
        | ((m1, q1), Inr e) \<Rightarrow> Ret (scs_PostEntry e enqueue_seq (set_buffer e payload m1, q1)))"

fun scs_Pop :: "u64 \<Rightarrow> 'a queue \<Rightarrow> ('a queue \<times> (ErrorCode + 'a)) run" where
  "scs_Pop sz (m, q) =
     rassert (payload_fits sz q)
       (case scs_WaitEntry (m, q) of
          (s, Inl ec) \<Rightarrow> Ret (s, Inl ec)
        | ((m1, q1), Inr e) \<Rightarrow>
            rbind (scs_FreeEntry e (m1, q1)) (\<lambda>(s, ec). Ret (s, Inr (buffer (mh_entries m1 ! e)))))"

definition scs_length :: "'a qmem \<Rightarrow> qobj \<Rightarrow> u64" where
  "scs_length m q =
     (let queue_length = mh_tail m - mh_release m
      in if queue_length \<le> q_queue_size q then queue_length else q_queue_size q)"

definition scs_Seek :: "u64 \<Rightarrow> 'a qmem \<Rightarrow> 'a qmem" where
  "scs_Seek enqueue_seq m =
     m\<lparr>mh_reserve := enqueue_seq, mh_tail := enqueue_seq, mh_head := enqueue_seq, mh_release := enqueue_seq\<rparr>"

section \<open>The sign bit marks a slot\<close>

lemma sign_bit_iff: "(p::u64) AND push_bit 63 1 = 0 \<longleftrightarrow> \<not> bit p 63"
  by (simp add: bit_iff_and_push_bit_not_eq_0 del: push_bit_of_1)

lemma sign_minus:
  assumes "0 < i" "i < 2 ^ 63"
  shows "bit (- (of_nat i :: u64)) 63"
proof -
  have "unat (- (of_nat i :: u64)) = 2 ^ 64 - i"
    using assms by (intro unat_minus64) simp_all
  then have "odd (unat (- (of_nat i :: u64)) div 2 ^ 63)"
  proof -
    have "(2 ^ 64 - i) div 2 ^ 63 = 1"
      using assms by (intro div_nat_eqI) auto
    with \<open>unat (- (of_nat i :: u64)) = 2 ^ 64 - i\<close> show ?thesis by simp
  qed
  then have "bit (unat (- (of_nat i :: u64))) 63"
    by (simp add: bit_iff_odd)
  then show ?thesis by (simp add: bit_unsigned_iff)
qed

lemma sign_pos:
  assumes "i < 2 ^ 63"
  shows "\<not> bit (of_nat i :: u64) 63"
proof -
  have "unat (of_nat i :: u64) = i" using assms by (intro unat_of_nat64) simp
  then have "\<not> bit (unat (of_nat i :: u64)) 63" using assms by (simp add: bit_iff_odd)
  then show ?thesis by (simp add: bit_unsigned_iff)
qed

section \<open>The sign-bit variant\<close>

abbreviation spsc_rpush :: "'a queue \<Rightarrow> 'a \<Rightarrow> nat \<Rightarrow> ('a queue \<times> ErrorCode) run" where
  "spsc_rpush s x i \<equiv> Ret (ReorderPush s x (of_nat i))"

abbreviation spsc_rpop :: "'a queue \<Rightarrow> ('a queue \<times> (ErrorCode + 'a)) run" where
  "spsc_rpop s \<equiv> Ret (ReorderPop s)"

fun rslot :: "'a entry \<Rightarrow> nat \<Rightarrow> 'a option \<Rightarrow> bool" where
  "rslot e i (Some x) \<longleftrightarrow> pos e = - of_nat i \<and> buffer e = x"
| "rslot e i None \<longleftrightarrow> \<not> bit (pos e) 63"

fun reorder_rel :: "'a queue \<Rightarrow> 'a rstate \<Rightarrow> bool" where
  "reorder_rel (m, q) (nxt, P) \<longleftrightarrow> geo m q \<and> RL m = nxt \<and> HD m = nxt \<and> 0 < nxt \<and>
     nxt + ring_size m \<le> 2 ^ 63 \<and> unat (q_reserve_threshold q) \<le> nxt + ring_size m \<and>
     (\<forall>i. nxt \<le> i \<longrightarrow> i < nxt + ring_size m \<longrightarrow> rslot (mh_entries m ! (i mod ring_size m)) i (P i)) \<and>
     (\<forall>i. i < nxt \<or> nxt + ring_size m \<le> i \<longrightarrow> P i = None)"

lemma reorder_slot:
  assumes "reorder_rel (m, q) (nxt, P)" "nxt \<le> i" "i < 2 ^ 63"
  shows "slot_of q (of_nat i) = i mod ring_size m" "i mod ring_size m < length (mh_entries m)"
    "slot_of (q\<lparr>q_reserve_threshold := t\<rparr>) (of_nat i) = i mod ring_size m"
proof -
  have g: "geo m q" using assms(1) by simp
  show "slot_of q (of_nat i) = i mod ring_size m"
    using slot_of_mod [OF g] assms(3) unat_of_nat64 [of i] by simp
  then show "slot_of (q\<lparr>q_reserve_threshold := t\<rparr>) (of_nat i) = i mod ring_size m"
    by (simp add: slot_of_def GetInQueueIndex_def)
  show "i mod ring_size m < length (mh_entries m)"
    using length_entries [OF g] geo_size_pos [OF g] by simp
qed

text \<open>Writing the slot of a cursor of the window leaves the other slots of the window alone.\<close>

lemma reorder_rel_write:
  assumes rel: "reorder_rel (m, q) (nxt, P)" and i: "nxt \<le> i" "i < nxt + ring_size m"
    and t: "unat t \<le> nxt + ring_size m"
  shows "reorder_rel (set_pos (i mod ring_size m) (- of_nat i) (set_buffer (i mod ring_size m) x m),
           q\<lparr>q_reserve_threshold := t\<rparr>) (nxt, P(i := Some x))"
proof -
  have g: "geo m q" using rel by simp
  have in_ring: "i mod ring_size m < length (mh_entries m)"
    using length_entries [OF g] geo_size_pos [OF g] by simp
  let ?m = "set_pos (i mod ring_size m) (- of_nat i) (set_buffer (i mod ring_size m) x m)"
  have "geo ?m (q\<lparr>q_reserve_threshold := t\<rparr>)"
    by (rule geo_cong [OF g]) simp_all
  moreover have "rslot (mh_entries ?m ! (j mod ring_size m)) j ((P(i := Some x)) j)"
    if j: "nxt \<le> j" "j < nxt + ring_size m" for j
  proof (cases "j = i")
    case True
    then show ?thesis using in_ring by (simp add: slot_simps)
  next
    case False
    then have "j mod ring_size m \<noteq> i mod ring_size m"
      using mod_eq_window_iff [of nxt j "ring_size m" i] i j by simp
    then have "mh_entries ?m ! (j mod ring_size m) = mh_entries m ! (j mod ring_size m)"
      by (simp add: set_pos_def set_buffer_def)
    then show ?thesis using False rel j by simp
  qed
  ultimately show ?thesis
    using rel i t by simp
qed

lemma reorder_push:
  assumes rel: "reorder_rel (m, q) (nxt, P)" and i: "nxt \<le> i" "i < 2 ^ 63"
  obtains m' q' where "rimpl_step spsc_rpush spsc_rpop (m, q) (RPush i x) =
      Ret ((m', q'), snd (rspec_step (ring_size m) (nxt, P) (RPush i x)))"
    and "reorder_rel (m', q') (fst (rspec_step (ring_size m) (nxt, P) (RPush i x)))"
    and "ring_size m' = ring_size m"
proof -
  have g: "geo m q" and n: "RL m = nxt" and b: "nxt + ring_size m \<le> 2 ^ 63"
    and thr: "unat (q_reserve_threshold q) \<le> nxt + ring_size m"
    using rel by simp_all
  let ?t = "mh_release m + q_queue_size q"
  have t: "unat ?t = nxt + ring_size m"
    using n b unat_queue_size [OF g] unat_add64 [of "mh_release m" "q_queue_size q"] by simp
  have u: "unat (of_nat i :: u64) = i" using i unat_of_nat64 [of i] by simp
  note sl = reorder_slot [OF rel i]
  show thesis
  proof (cases "i < nxt + ring_size m")
    case True
    then obtain t' where a: "ReorderAllocEntry (of_nat i) (m, q) = ((m, q\<lparr>q_reserve_threshold := t'\<rparr>), Inr (i mod ring_size m))"
      and t': "unat t' \<le> nxt + ring_size m"
    proof (cases "q_reserve_threshold q \<le> of_nat i")
      case True
      then show thesis
        using that [of ?t] t \<open>i < nxt + ring_size m\<close> u sl by (simp add: Let_def word_le_nat_alt)
    next
      case False
      then show thesis using that [of "q_reserve_threshold q"] thr sl by (simp add: Let_def)
    qed
    then show thesis
      using that [of "set_pos (i mod ring_size m) (- of_nat i) (set_buffer (i mod ring_size m) x m)" "q\<lparr>q_reserve_threshold := t'\<rparr>"]
        reorder_rel_write [OF rel i(1) True t'] True
      by (simp del: reorder_rel.simps ReorderAllocEntry.simps)
  next
    case False
    then have "ReorderPush (m, q) x (of_nat i) =
        ((m\<lparr>mh_nr_forward_fail := mh_nr_forward_fail m + 1\<rparr>, q\<lparr>q_reserve_threshold := ?t\<rparr>), kQueueFull)"
      using t thr u by (simp add: Let_def word_le_nat_alt)
    moreover have "reorder_rel (m\<lparr>mh_nr_forward_fail := mh_nr_forward_fail m + 1\<rparr>, q\<lparr>q_reserve_threshold := ?t\<rparr>) (nxt, P)"
      using rel t by (simp add: geo_def)
    ultimately show thesis
      using that [of "m\<lparr>mh_nr_forward_fail := mh_nr_forward_fail m + 1\<rparr>" "q\<lparr>q_reserve_threshold := ?t\<rparr>"] False
      by (simp del: reorder_rel.simps ReorderPush.simps)
  qed
qed

lemma reorder_pop:
  assumes rel: "reorder_rel (m, q) (nxt, P)" and b: "nxt + ring_size m < 2 ^ 63"
  obtains m' q' where "rimpl_step spsc_rpush spsc_rpop (m, q) RPop =
      Ret ((m', q'), snd (rspec_step (ring_size m) (nxt, P) RPop))"
    and "reorder_rel (m', q') (fst (rspec_step (ring_size m) (nxt, P) RPop))"
    and "ring_size m' = ring_size m"
proof -
  let ?n = "ring_size m" let ?e = "nxt mod ?n"
  have g: "geo m q" and nz: "0 < nxt"
    and small: "nxt < 2 ^ 63" and thr: "unat (q_reserve_threshold q) \<le> nxt + ?n"
    using rel b by auto
  have h: "mh_head m = of_nat nxt" "mh_release m = of_nat nxt"
    using rel unat_of_nat64 [of nxt] small by (simp_all add: word_unat_eq_iff)
  have n0: "0 < ?n" by (rule geo_size_pos [OF g])
  note sl = reorder_slot [OF rel order_refl small]
  show thesis
  proof (cases "P nxt")
    case None
    then have "\<not> bit (pos (mh_entries m ! ?e)) 63" using rel n0 by force
    then have "RecorderWaitEntry (m, q) = ((m, q), Inl kQueueEmpty)"
      using sl h by (simp add: Let_def sign_bit_iff del: push_bit_of_1)
    then show thesis
      using that [of m q] None rel by (simp del: reorder_rel.simps RecorderWaitEntry.simps)
  next
    case (Some x)
    then have p: "pos (mh_entries m ! ?e) = - of_nat nxt" "buffer (mh_entries m ! ?e) = x" using rel n0 by force+
    then have bt: "bit (pos (mh_entries m ! ?e)) 63" using sign_minus [OF nz small] by simp
    let ?m = "(set_pos ?e (of_nat nxt) (m\<lparr>mh_head := of_nat nxt + 1\<rparr>))\<lparr>mh_release := of_nat nxt + 1\<rparr>"
    have "ReorderPop (m, q) = ((?m, q), Inr x)"
      using sl h p bt by (simp add: Let_def sign_bit_iff del: push_bit_of_1)
    moreover have "reorder_rel (?m, q) (Suc nxt, P(nxt := None))"
    proof -
      have nx: "unat (of_nat nxt + 1 :: u64) = Suc nxt"
        using unat_inc64 [of "of_nat nxt"] unat_of_nat64 [of nxt] small by simp
      have "geo ?m q" by (rule geo_cong [OF g]) simp_all
      moreover have "rslot (mh_entries ?m ! (j mod ?n)) j ((P(nxt := None)) j)"
        if j: "Suc nxt \<le> j" "j < Suc nxt + ?n" for j
      proof (cases "j = nxt + ?n")
        case True
        then have "P j = None" "j mod ?n = ?e" "j \<noteq> nxt" using rel j by simp_all
        then show ?thesis using sl(2) sign_pos [OF small] by (simp add: slot_simps)
      next
        case False
        then have "j mod ?n \<noteq> ?e"
          using mod_eq_window_iff [of nxt j ?n nxt] j by simp
        then have "mh_entries ?m ! (j mod ?n) = mh_entries m ! (j mod ?n)" by (simp add: set_pos_def)
        then show ?thesis using False rel j by simp
      qed
      ultimately show ?thesis using rel nx thr b by simp
    qed
    ultimately show thesis
      using that [of ?m q] Some by (simp del: reorder_rel.simps ReorderPop.simps)
  qed
qed

interpretation spsc_reorder: reorder_buffer spsc_rpush spsc_rpop
  "\<lambda>s a. reorder_rel s a \<and> ring_size (fst s) = n" n
  for n
proof (unfold_locales, goal_cases)
  case (1 s nxt P i x)
  obtain m q where s: "s = (m, q)" by (cases s)
  from 1 s show ?case
    using reorder_push [of m q nxt P i x] by (metis fst_conv)
next
  case (2 s nxt P)
  obtain m q where s: "s = (m, q)" by (cases s)
  from 2 s show ?case
    using reorder_pop [of m q nxt P] by (metis fst_conv)
qed

section \<open>Properties\<close>

lemma reorder_fresh:
  assumes "mpsc_Create plat memalign_ok junk name payload n = Ret (Some (m, q))" and "mpsc_exact sz (m, q)"
    and "contents m = []"
  shows "reorder_rel (m, q) (1, \<lambda>_. None)"
proof -
  have i: "mq_inv m q" and g: "geo m q" using exact_next [OF assms(2)] by simp_all
  obtain es where es: "InitEntries (RoundToPowerOf2 n) payload
      (unat (ucast ((ucast (max (page_size plat) (sizeof_header plat + sizeof_queue plat)) :: u32)
        + RoundToPowerOf2 n * CalcEntrySize payload) :: u64)
       - unat (ucast (max (page_size plat) (sizeof_header plat + sizeof_queue plat)) :: u32)) junk = Ret es"
    "mh_entries m = es"
    and cur: "mh_release m = 1" "mh_head m = 1"
    using assms(1) by (auto simp: mpsc_Create_def Let_def rbind_Ret_iff init_header_def QUEUE_CURSOR_INIT_VALUE_def
        split: if_splits)
  have zero: "pos e = 0" if "InitEntries_from k j room sz' junk = Ret es'" "e \<in> set es'" for k j room sz' es' e
    using that by (induction k arbitrary: j es') (auto simp: rbind_Ret_iff split: if_splits)
  have "pos (mh_entries m ! j) = 0" if "j < length (mh_entries m)" for j
    using zero [of "unat (RoundToPowerOf2 n)" 0 _ "unat (CalcEntrySize payload)" es "mh_entries m ! j"] es that
    unfolding InitEntries_def by auto
  then have "\<not> bit (pos (mh_entries m ! (j mod ring_size m))) 63" for j
    using length_entries [OF g] geo_size_pos [OF g] by simp
  then show ?thesis
    using g cur i mq_invD(7) [OF i] geo_size_le [OF g] by simp
qed

text \<open>
  C24: a created queue used through \<^verbatim>\<open>ReorderPush\<close> and \<^verbatim>\<open>ReorderPop\<close> is a reorder buffer. Whatever
  the order in which the producer places the numbers (none that was already delivered), the
  results are those of the abstract buffer, and the elements delivered are the ones sent under the consecutive
  numbers from 1 on.
\<close>

theorem reorder_in_order:
  assumes "create_pre plat payload n" and "\<And>b. memalign_ok b"
    and "rproper (unat (RoundToPowerOf2 n)) (1, \<lambda>_. None) ops"
    and "rpops ops + unat (RoundToPowerOf2 n) < 2 ^ 63 - 1"
    and "consistent_pushes sent ops"
  shows "\<exists>s s' outs k. mpsc_Create plat memalign_ok junk name payload n = Ret (Some s) \<and>
    rimpl_run spsc_rpush spsc_rpop s ops = Ret (s', outs) \<and>
    outs = snd (rspec_run (unat (RoundToPowerOf2 n)) (1, \<lambda>_. None) ops) \<and>
    rdelivered outs = map sent [1..<k]"
proof -
  have "unat (0::u64) \<le> unat payload" by simp
  from mpsc_Create_exact [OF assms(1,2) this, where junk = junk and name = name]
  obtain m q where c: "mpsc_Create plat memalign_ok junk name payload n = Ret (Some (m, q))"
    "mpsc_exact 0 (m, q)" "contents m = []" "ring_size m = unat (RoundToPowerOf2 n)" .
  have "reorder_rel (m, q) (1, \<lambda>_. None) \<and> ring_size (fst (m, q)) = unat (RoundToPowerOf2 n)"
    using reorder_fresh [OF c(1-3)] c(4) by simp
  from spsc_reorder.reorder_run [OF this, of ops] assms(3,4) obtain s' where
    "rimpl_run spsc_rpush spsc_rpop (m, q) ops = Ret (s', snd (rspec_run (unat (RoundToPowerOf2 n)) (1, \<lambda>_. None) ops))"
    by auto
  then show ?thesis
    using rspec_in_order [OF assms(5), of "\<lambda>_. None" "unat (RoundToPowerOf2 n)" 1] c by blast
qed

definition demo_rops :: "nat rop list" where
  "demo_rops = [RPush 2 20, RPop, RPush 1 10, RPop, RPop]"

lemma demo_rspec:
  "snd (rspec_run 4 (Suc 0, \<lambda>_. None) demo_rops) =
     [ROutPush kSuccess, ROutPop (Inl kQueueEmpty), ROutPush kSuccess, ROutPop (Inr 10), ROutPop (Inr 20)]"
  "rproper 4 (Suc 0, \<lambda>_. None) demo_rops" "rpops demo_rops = 3" "consistent_pushes (\<lambda>i. 10 * i) demo_rops"
  by (simp_all add: demo_rops_def)

theorem reorder_in_order_witness:
  "\<exists>s s' outs k. mpsc_Create demo_platform (\<lambda>_. True) (\<lambda>_. 0::nat) ''q'' 8 3 = Ret (Some s) \<and>
     rimpl_run spsc_rpush spsc_rpop s demo_rops = Ret (s', outs) \<and>
     outs = [ROutPush kSuccess, ROutPop (Inl kQueueEmpty), ROutPush kSuccess, ROutPop (Inr 10), ROutPop (Inr 20)] \<and>
     rdelivered outs = map (\<lambda>i. 10 * i) [1..<k]"
  using reorder_in_order [OF demo_pre(1), of "\<lambda>_. True" demo_rops "\<lambda>i. 10 * i" "\<lambda>_. 0" "''q''"]
  by (simp add: demo_pre(2) demo_rspec)

section \<open>The stamped variant\<close>

fun sslot :: "'a entry \<Rightarrow> nat \<Rightarrow> 'a option \<Rightarrow> bool" where
  "sslot e i (Some x) \<longleftrightarrow> pos e = of_nat i \<and> buffer e = x"
| "sslot e i None \<longleftrightarrow> pos e \<noteq> of_nat i"

fun scs_rel :: "u64 \<Rightarrow> 'a queue \<Rightarrow> 'a rstate \<Rightarrow> bool" where
  "scs_rel sz (m, q) (nxt, P) \<longleftrightarrow> geo m q \<and> payload_fits sz q \<and> RL m = nxt \<and> HD m = nxt \<and>
     nxt + ring_size m \<le> 2 ^ 63 \<and> unat (q_reserve_threshold q) \<le> nxt + ring_size m \<and>
     (\<forall>i. nxt \<le> i \<longrightarrow> i < nxt + ring_size m \<longrightarrow> sslot (mh_entries m ! (i mod ring_size m)) i (P i)) \<and>
     (\<forall>i. i < nxt \<or> nxt + ring_size m \<le> i \<longrightarrow> P i = None)"

abbreviation scs_rpush :: "u64 \<Rightarrow> 'a queue \<Rightarrow> 'a \<Rightarrow> nat \<Rightarrow> ('a queue \<times> ErrorCode) run" where
  "scs_rpush sz s x i \<equiv> scs_Push sz s x (of_nat i)"

lemma scs_slot:
  assumes "geo m q" "i < 2 ^ 63"
  shows "slot_of q (of_nat i) = i mod ring_size m" "i mod ring_size m < length (mh_entries m)"
    "slot_of (q\<lparr>q_reserve_threshold := t\<rparr>) (of_nat i) = i mod ring_size m"
proof -
  show "slot_of q (of_nat i) = i mod ring_size m"
    using slot_of_mod [OF assms(1)] assms(2) unat_of_nat64 [of i] by simp
  then show "slot_of (q\<lparr>q_reserve_threshold := t\<rparr>) (of_nat i) = i mod ring_size m"
    by (simp add: slot_of_def GetInQueueIndex_def)
  show "i mod ring_size m < length (mh_entries m)"
    using length_entries [OF assms(1)] geo_size_pos [OF assms(1)] by simp
qed

lemma scs_rel_write:
  assumes rel: "scs_rel sz (m, q) (nxt, P)" and i: "nxt \<le> i" "i < nxt + ring_size m"
    and t: "unat t \<le> nxt + ring_size m"
  shows "scs_rel sz (set_pos (i mod ring_size m) (of_nat i) (set_buffer (i mod ring_size m) x m),
           q\<lparr>q_reserve_threshold := t\<rparr>) (nxt, P(i := Some x))"
proof -
  have g: "geo m q" and ib: "i < 2 ^ 63" using rel i by auto
  note sl = scs_slot [OF g ib]
  let ?m = "set_pos (i mod ring_size m) (of_nat i) (set_buffer (i mod ring_size m) x m)"
  have "geo ?m (q\<lparr>q_reserve_threshold := t\<rparr>)"
    by (rule geo_cong [OF g]) simp_all
  moreover have "sslot (mh_entries ?m ! (j mod ring_size m)) j ((P(i := Some x)) j)"
    if j: "nxt \<le> j" "j < nxt + ring_size m" for j
  proof (cases "j = i")
    case True
    then show ?thesis using sl(2) by (simp add: slot_simps)
  next
    case False
    then have "j mod ring_size m \<noteq> i mod ring_size m"
      using mod_eq_window_iff [of nxt j "ring_size m" i] i j by simp
    then have "mh_entries ?m ! (j mod ring_size m) = mh_entries m ! (j mod ring_size m)"
      by (simp add: set_pos_def set_buffer_def)
    then show ?thesis using False rel j by simp
  qed
  ultimately show ?thesis
    using rel i t by (simp add: payload_fits_def)
qed

lemma scs_push:
  assumes rel: "scs_rel sz (m, q) (nxt, P)" and i: "nxt \<le> i" "i < 2 ^ 63"
  shows "\<exists>m' q'. rimpl_step (scs_rpush sz) (scs_Pop sz) (m, q) (RPush i x) =
      Ret ((m', q'), snd (rspec_step (ring_size m) (nxt, P) (RPush i x))) \<and>
    scs_rel sz (m', q') (fst (rspec_step (ring_size m) (nxt, P) (RPush i x))) \<and> ring_size m' = ring_size m"
proof -
  have g: "geo m q" and n: "RL m = nxt" and b: "nxt + ring_size m \<le> 2 ^ 63" and f: "payload_fits sz q"
    and thr: "unat (q_reserve_threshold q) \<le> nxt + ring_size m"
    using rel by simp_all
  let ?t = "mh_release m + q_queue_size q"
  have t: "unat ?t = nxt + ring_size m"
    using n b unat_queue_size [OF g] unat_add64 [of "mh_release m" "q_queue_size q"] by simp
  have u: "unat (of_nat i :: u64) = i" using i unat_of_nat64 [of i] by simp
  note sl = scs_slot [OF g i(2)]
  show ?thesis
  proof (cases "i < nxt + ring_size m")
    case True
    then obtain t' where a: "scs_AllocEntry (of_nat i) (m, q) = ((m, q\<lparr>q_reserve_threshold := t'\<rparr>), Inr (i mod ring_size m))"
      and t': "unat t' \<le> nxt + ring_size m"
    proof (cases "q_reserve_threshold q \<le> of_nat i")
      case True
      then show thesis
        using that [of ?t] t \<open>i < nxt + ring_size m\<close> u sl by (simp add: Let_def word_le_nat_alt)
    next
      case False
      then show thesis using that [of "q_reserve_threshold q"] thr sl by (simp add: Let_def)
    qed
    then show ?thesis
      using scs_rel_write [OF rel i(1) True t', of x] True f
      by (intro exI [of _ "set_pos (i mod ring_size m) (of_nat i) (set_buffer (i mod ring_size m) x m)"]
          exI [of _ "q\<lparr>q_reserve_threshold := t'\<rparr>"])
        (simp del: scs_rel.simps scs_AllocEntry.simps)
  next
    case False
    then have "scs_AllocEntry (of_nat i) (m, q) = ((m, q\<lparr>q_reserve_threshold := ?t\<rparr>), Inl kQueueFull)"
      using t thr u by (simp add: Let_def word_le_nat_alt)
    moreover have "scs_rel sz (m, q\<lparr>q_reserve_threshold := ?t\<rparr>) (nxt, P)"
      using rel t by (simp add: geo_def payload_fits_def)
    ultimately show ?thesis
      using False f
      by (intro exI [of _ m] exI [of _ "q\<lparr>q_reserve_threshold := ?t\<rparr>"]) (simp del: scs_rel.simps scs_AllocEntry.simps)
  qed
qed

lemma scs_pop:
  assumes rel: "scs_rel sz (m, q) (nxt, P)" and b: "nxt + ring_size m < 2 ^ 63"
  shows "\<exists>m' q'. rimpl_step (scs_rpush sz) (scs_Pop sz) (m, q) RPop =
      Ret ((m', q'), snd (rspec_step (ring_size m) (nxt, P) RPop)) \<and>
    scs_rel sz (m', q') (fst (rspec_step (ring_size m) (nxt, P) RPop)) \<and> ring_size m' = ring_size m"
proof -
  let ?n = "ring_size m" let ?e = "nxt mod ?n"
  have g: "geo m q" and f: "payload_fits sz q" and small: "nxt < 2 ^ 63"
    and thr: "unat (q_reserve_threshold q) \<le> nxt + ?n"
    using rel b by auto
  have h: "mh_head m = of_nat nxt" "mh_release m = of_nat nxt"
    using rel unat_of_nat64 [of nxt] small by (simp_all add: word_unat_eq_iff)
  have n0: "0 < ?n" by (rule geo_size_pos [OF g])
  note sl = scs_slot [OF g small]
  have now: "sslot (mh_entries m ! ?e) nxt (P nxt)" using rel n0 by simp
  show ?thesis
  proof (cases "P nxt")
    case None
    then have "scs_WaitEntry (m, q) = ((m, q), Inl kQueueEmpty)"
      using now sl h by (simp add: Let_def)
    then show ?thesis
      using None rel f by (intro exI [of _ m] exI [of _ q]) (simp del: scs_rel.simps scs_WaitEntry.simps)
  next
    case (Some x)
    let ?m = "m\<lparr>mh_head := of_nat nxt + 1, mh_release := of_nat nxt + 1\<rparr>"
    have "scs_Pop sz (m, q) = Ret ((?m, q), Inr x)"
      using now Some sl h f by (simp add: Let_def)
    moreover have "scs_rel sz (?m, q) (Suc nxt, P(nxt := None))"
    proof -
      have nx: "unat (of_nat nxt + 1 :: u64) = Suc nxt"
        using unat_inc64 [of "of_nat nxt"] unat_of_nat64 [of nxt] small by simp
      have "geo ?m q" by (rule geo_cong [OF g]) simp_all
      moreover have "sslot (mh_entries m ! (j mod ?n)) j ((P(nxt := None)) j)"
        if j: "Suc nxt \<le> j" "j < Suc nxt + ?n" for j
      proof (cases "j = nxt + ?n")
        case True
        have "(of_nat nxt :: u64) \<noteq> of_nat j"
          using unat_of_nat64 [of nxt] unat_of_nat64 [of j] True n0 b small by (auto simp: word_unat_eq_iff)
        moreover have "P j = None" "j mod ?n = ?e" "j \<noteq> nxt" using rel True n0 by simp_all
        ultimately show ?thesis using now Some by simp
      next
        case False
        then show ?thesis using rel j by simp
      qed
      ultimately show ?thesis using rel nx thr b by simp
    qed
    ultimately show ?thesis
      using Some by (intro exI [of _ ?m] exI [of _ q]) (simp del: scs_rel.simps scs_Pop.simps)
  qed
qed

interpretation scs_reorder: reorder_buffer "scs_rpush sz" "scs_Pop sz"
  "\<lambda>s a. scs_rel sz s a \<and> ring_size (fst s) = n" n
  for sz n
proof (unfold_locales, goal_cases)
  case (1 s nxt P i x)
  obtain m q where s: "s = (m, q)" by (cases s)
  from 1 s show ?case
    using scs_push [of sz m q nxt P i x] by (metis fst_conv)
next
  case (2 s nxt P)
  obtain m q where s: "s = (m, q)" by (cases s)
  from 2 s show ?case
    using scs_pop [of sz m q nxt P] by (metis fst_conv)
qed

lemma created_pos_zero:
  assumes "mpsc_Create plat memalign_ok junk name payload n = Ret (Some (m, q))" and "j < length (mh_entries m)"
  shows "pos (mh_entries m ! j) = 0"
proof -
  have zero: "pos e = 0" if "InitEntries_from k j room sz' junk = Ret es'" "e \<in> set es'" for k j room sz' es' e
    using that by (induction k arbitrary: j es') (auto simp: rbind_Ret_iff split: if_splits)
  obtain room where "InitEntries (RoundToPowerOf2 n) payload room junk = Ret (mh_entries m)"
    using assms(1) by (auto simp: mpsc_Create_def Let_def rbind_Ret_iff init_header_def split: if_splits)
  then show ?thesis
    using zero assms(2) unfolding InitEntries_def by (metis nth_mem)
qed

text \<open>
  C25: a created \<^verbatim>\<open>SCSequentialQueue\<close>, positioned with \<^verbatim>\<open>Seek\<close> at any start number but 0, delivers the elements in the order of their sequence numbers from there on, whatever the order they
  were pushed in.
\<close>

theorem scs_in_order:
  assumes "create_pre plat payload n" and "\<And>b. memalign_ok b" and "unat sz \<le> unat payload"
    and "0 < first" and "first < 2 ^ 62"
    and "rproper (unat (RoundToPowerOf2 n)) (first, \<lambda>_. None) ops" and "rpops ops < 2 ^ 62 - 2 ^ 31"
    and "consistent_pushes sent ops"
  shows "\<exists>m q s' outs k. mpsc_Create plat memalign_ok junk name payload n = Ret (Some (m, q)) \<and>
    rimpl_run (scs_rpush sz) (scs_Pop sz) (scs_Seek (of_nat first) m, q) ops = Ret (s', outs) \<and>
    outs = snd (rspec_run (unat (RoundToPowerOf2 n)) (first, \<lambda>_. None) ops) \<and>
    rdelivered outs = map sent [first..<k]"
proof -
  obtain m q where c: "mpsc_Create plat memalign_ok junk name payload n = Ret (Some (m, q))"
    "mpsc_exact sz (m, q)" "contents m = []" "ring_size m = unat (RoundToPowerOf2 n)"
    using mpsc_Create_exact [OF assms(1-3), where junk = junk and name = name] .
  let ?m = "scs_Seek (of_nat first) m"
  note x = exact_next [OF c(2)]
  have small: "ring_size m \<le> 2 ^ 31" by (rule geo_size_le [OF x(4)])
  have u: "unat (of_nat first :: u64) = first" using assms(5) by (intro unat_of_nat64) simp
  have g: "geo ?m q" by (rule geo_cong [OF x(4)]) (simp_all add: scs_Seek_def)
  have "mh_release m = 1"
    using c(1) by (auto simp: mpsc_Create_def Let_def rbind_Ret_iff init_header_def QUEUE_CURSOR_INIT_VALUE_def
        split: if_splits)
  then have thr: "unat (q_reserve_threshold q) \<le> first + ring_size m"
    using mq_invD(7) [OF x(1)] assms(4) by simp
  have "scs_rel sz (?m, q) (first, \<lambda>_. None)"
  proof -
    have "pos (mh_entries m ! (i mod ring_size m)) \<noteq> of_nat i" if "first \<le> i" "i < first + ring_size m" for i
    proof -
      have "pos (mh_entries m ! (i mod ring_size m)) = 0"
        using created_pos_zero [OF c(1)] length_entries [OF x(4)] geo_size_pos [OF x(4)] by simp
      moreover have "unat (of_nat i :: u64) = i" using that assms(5) small by (intro unat_of_nat64) simp
      moreover have "i \<noteq> 0" using that assms(4) by simp
      ultimately show ?thesis by (metis unsigned_0)
    qed
    then show ?thesis
      using g x(2) u small thr assms(5) by (simp add: scs_Seek_def)
  qed
  then have "scs_rel sz (?m, q) (first, \<lambda>_. None) \<and> ring_size (fst (?m, q)) = unat (RoundToPowerOf2 n)"
    using c(4) by (simp add: scs_Seek_def)
  from scs_reorder.reorder_run [OF this, of ops] assms(5-7) small c(4) obtain s' where
    "rimpl_run (scs_rpush sz) (scs_Pop sz) (?m, q) ops = Ret (s', snd (rspec_run (unat (RoundToPowerOf2 n)) (first, \<lambda>_. None) ops))"
    by auto
  then show ?thesis
    using rspec_in_order [OF assms(8), of "\<lambda>_. None" "unat (RoundToPowerOf2 n)" first] c by blast
qed

definition demo_sops :: "nat rop list" where
  "demo_sops = [RPush 6 60, RPop, RPush 5 50, RPop, RPop]"

lemma demo_sspec:
  "snd (rspec_run 4 (5, \<lambda>_. None) demo_sops) =
     [ROutPush kSuccess, ROutPop (Inl kQueueEmpty), ROutPush kSuccess, ROutPop (Inr 50), ROutPop (Inr 60)]"
  "rproper 4 (5, \<lambda>_. None) demo_sops" "rpops demo_sops = 3" "consistent_pushes (\<lambda>i. 10 * i) demo_sops"
  by (simp_all add: demo_sops_def)

theorem scs_in_order_witness:
  "\<exists>m q s' outs k. mpsc_Create demo_platform (\<lambda>_. True) (\<lambda>_. 0::nat) ''q'' 8 3 = Ret (Some (m, q)) \<and>
     rimpl_run (scs_rpush 8) (scs_Pop 8) (scs_Seek (of_nat 5) m, q) demo_sops = Ret (s', outs) \<and>
     outs = [ROutPush kSuccess, ROutPop (Inl kQueueEmpty), ROutPush kSuccess, ROutPop (Inr 50), ROutPop (Inr 60)] \<and>
     rdelivered outs = map (\<lambda>i. 10 * i) [5..<k]"
  using scs_in_order [OF demo_pre(1), of "\<lambda>_. True" 8 5 demo_sops "\<lambda>i. 10 * i" "\<lambda>_. 0" "''q''"]
  by (simp add: demo_pre(2) demo_sspec del: of_nat_numeral)

text \<open>The length and the result of a push and a pop on a fresh queue positioned at 5.\<close>

definition scs_lengths :: "(u64 \<times> u64 \<times> u64) option" where
  "scs_lengths =
     (case mpsc_Create demo_platform (\<lambda>_. True) (\<lambda>_. 0::nat) ''q'' 8 3 of
        Ret (Some (m, q)) \<Rightarrow>
          let m0 = scs_Seek 5 m in
          (case scs_Push 8 (m0, q) 50 5 of
             Ret ((m1, q1), _) \<Rightarrow>
               (case scs_Pop 8 (m1, q1) of
                  Ret ((m2, q2), _) \<Rightarrow> Some (scs_length m0 q, scs_length m1 q1, scs_length m2 q2)
                | _ \<Rightarrow> None)
           | _ \<Rightarrow> None)
      | _ \<Rightarrow> None)"

text \<open>
  \<^verbatim>\<open>SCSequentialQueue::length\<close> does not count the elements. It subtracts the release cursor from the
  tail, which no operation of this queue moves: an empty queue positioned at 5 has length 0, it still has
  length 0 after an element was placed, and once that element was taken the queue, empty again, reports its
  capacity 4.
\<close>

theorem scs_length_wrong: "scs_lengths = Some (0, 0, 4)"
  by code_simp

end
