(* ===== verification/Reorder_Buffer.thy ===== *)
theory Reorder_Buffer
  imports Prelude
begin

section \<open>The reorder buffer of the sharding agent\<close>

text \<open>
  \<^verbatim>\<open>ReorderBuffer\<close> of \<^verbatim>\<open>aaf/code/sharding/reorder_buffer.h\<close> collects sequence numbers that arrive
  in any order and reports the end of the contiguous range received so far. A number of the window
  that starts at \<^verbatim>\<open>head_\<close> is kept in an array at its residue, one beyond it in an ordered set. The
  constant \<^verbatim>\<open>REORDER_BUFFER_SIZE\<close> (8192) is a parameter \<open>n\<close> of the definitions, and the ordered set
  a sorted list.
\<close>

definition REORDER_BUFFER_SIZE :: nat where "REORDER_BUFFER_SIZE = 8192"

record rbuf =
  rb_head :: u64
  rb_array :: "u64 list"
  rb_overflow :: "u64 list"

definition rb_new :: "nat \<Rightarrow> rbuf" where
  "rb_new n = \<lparr>rb_head = 0, rb_array = replicate n 0, rb_overflow = []\<rparr>"

definition PutSqn :: "nat \<Rightarrow> bool \<Rightarrow> u64 \<Rightarrow> rbuf \<Rightarrow> rbuf \<times> bool" where
  "PutSqn n handle_overflow sqn b =
     (if sqn < rb_head b then (b, True)
      else if sqn < rb_head b + of_nat n
      then (b\<lparr>rb_array := (rb_array b)[unat sqn mod n := sqn]\<rparr>, True)
      else if handle_overflow then (b\<lparr>rb_overflow := insort_insert sqn (rb_overflow b)\<rparr>, False)
      else (b, False))"

text \<open>
  The loop of \<^verbatim>\<open>PushHead\<close>, with a bound on its iterations: an iteration that finds its number moves
  to the next slot, so \<open>n + 1\<close> iterations are enough (\<open>PushHead_total\<close> below).
\<close>

fun PushHead_loop :: "nat \<Rightarrow> nat \<Rightarrow> rbuf \<Rightarrow> rbuf run" where
  "PushHead_loop n 0 b = Hang"
| "PushHead_loop n (Suc fuel) b =
     (if rb_head b = rb_array b ! (unat (rb_head b) mod n)
      then PushHead_loop n fuel (b\<lparr>rb_head := rb_head b + 1\<rparr>)
      else Ret b)"

definition PushHead :: "nat \<Rightarrow> rbuf \<Rightarrow> rbuf run" where
  "PushHead n b = PushHead_loop n (Suc n) b"

text \<open>The loop of \<^verbatim>\<open>GetNextSqn\<close> over the ordered set.\<close>

fun drain :: "nat \<Rightarrow> u64 list \<Rightarrow> rbuf \<Rightarrow> rbuf" where
  "drain n [] b = b\<lparr>rb_overflow := []\<rparr>"
| "drain n (x # xs) b =
     (case PutSqn n False x b of
        (b', False) \<Rightarrow> b'\<lparr>rb_overflow := x # xs\<rparr>
      | (b', True) \<Rightarrow> drain n xs b')"

definition GetNextSqn :: "nat \<Rightarrow> rbuf \<Rightarrow> (rbuf \<times> u64) run" where
  "GetNextSqn n b =
     rbind (PushHead n b) (\<lambda>b1.
       if rb_overflow b1 = [] then Ret (b1, rb_head b1 - 1)
       else rbind (PushHead n (drain n (rb_overflow b1) b1)) (\<lambda>b2. Ret (b2, rb_head b2 - 1)))"

section \<open>What the buffer knows\<close>












section \<open>Properties\<close>

datatype rb_op = Put u64 | Next

fun rb_run :: "nat \<Rightarrow> rb_op list \<Rightarrow> rbuf \<Rightarrow> rbuf run" where
  "rb_run n [] b = Ret b"
| "rb_run n (Put s # ops) b = rb_run n ops (fst (PutSqn n True s b))"
| "rb_run n (Next # ops) b = rbind (GetNextSqn n b) (\<lambda>(b', v). rb_run n ops b')"





text \<open>
  The report is not always the largest contiguous number, as the comment on it says: a call moves
  numbers from the ordered set into the window only once, so with more than one window of pending numbers it
  stops short and the rest is reported by later calls. Here the window has two slots and the numbers 1 to 5
  have all arrived; the first call reports 3.
\<close>

theorem next_sqn_not_maximal:
  "rbind (rb_run 2 [Put 5, Put 4, Put 3, Put 2, Put 1] (rb_new 2)) (GetNextSqn 2) =
     Ret (\<lparr>rb_head = 4, rb_array = [2, 3], rb_overflow = [4, 5]\<rparr>, 3)"
  by code_simp

end
