(* ===== verification/Concurrent_Queue.thy ===== *)
theory Concurrent_Queue
  imports Spsc_Queue
begin

section \<open>Queues side by side\<close>

text \<open>
  \<^verbatim>\<open>ConcurrentQueue\<close> and \<^verbatim>\<open>Connector\<close> of \<^verbatim>\<open>include/adk/lock_free_msg_queue.h\<close>: several
  single-producer single-consumer queues, one per worker of a pipeline stage, that the two ends visit
  in turn. The template parameter \<^verbatim>\<open>nr_queues\<close> is the length of \<open>cq_queues\<close>. A loop that retries
  a full queue gives \<open>Hang\<close> when no alert lets it out.
\<close>

record 'a ccq =
  cq_queues :: "'a queue list"
  cq_release_alert :: bool
  cq_producer_cursor :: u64
  cq_consumer_cursor :: u64

abbreviation nr_queues :: "'a ccq \<Rightarrow> nat" where "nr_queues c \<equiv> length (cq_queues c)"

text \<open>One call on the queue with a given index.\<close>

definition on_queue :: "nat \<Rightarrow> ('a queue \<Rightarrow> ('a queue \<times> 'r) run) \<Rightarrow> 'a ccq \<Rightarrow> ('a ccq \<times> 'r) run" where
  "on_queue i f c =
     rbind (aget (cq_queues c) i) (\<lambda>q.
     rbind (f q) (\<lambda>(q', r). Ret (c\<lparr>cq_queues := (cq_queues c)[i := q']\<rparr>, r)))"

text \<open>
  \<^verbatim>\<open>Init(name, queue_size)\<close> creates the queues. When a \<^verbatim>\<open>Create\<close> gives \<^verbatim>\<open>NULL\<close> the source stores
  the null pointer and goes on; the first use of it is outside the language, and the model stops here.
\<close>

fun ccq_Init_queues :: "(nat \<Rightarrow> 'a queue option run) \<Rightarrow> nat \<Rightarrow> nat \<Rightarrow> 'a queue list run" where
  "ccq_Init_queues create i 0 = Ret []"
| "ccq_Init_queues create i (Suc k) =
     rbind (create i) (\<lambda>r. case r of
       None \<Rightarrow> Undef
     | Some q \<Rightarrow> rbind (ccq_Init_queues create (Suc i) k) (\<lambda>qs. Ret (q # qs)))"

definition ccq_Init :: "(nat \<Rightarrow> 'a queue option run) \<Rightarrow> nat \<Rightarrow> 'a ccq run" where
  "ccq_Init create n =
     rbind (ccq_Init_queues create 0 n) (\<lambda>qs. Ret
       \<lparr>cq_queues = qs, cq_release_alert = False, cq_producer_cursor = 0, cq_consumer_cursor = 0\<rparr>)"

text \<open>\<^verbatim>\<open>Init(queue)\<close> and \<^verbatim>\<open>GetProducerByIndex\<close>: a view of a single queue.\<close>

definition ccq_GetProducerByIndex :: "nat \<Rightarrow> 'a ccq \<Rightarrow> 'a ccq option" where
  "ccq_GetProducerByIndex index c =
     (if nr_queues c \<le> index then None
      else Some \<lparr>cq_queues = [cq_queues c ! index], cq_release_alert = False,
                 cq_producer_cursor = 0, cq_consumer_cursor = 0\<rparr>)"

definition next_cursor :: "nat \<Rightarrow> u64 \<Rightarrow> u64" where
  "next_cursor n cur = (if cur + 1 = of_nat n then 0 else cur + 1)"

definition ccq_TryPush :: "u64 \<Rightarrow> 'a ccq \<Rightarrow> 'a \<Rightarrow> ('a ccq \<times> ErrorCode) run" where
  "ccq_TryPush sz c payload =
     (if nr_queues c = 1 then on_queue 0 (\<lambda>q. spsc_Push sz q payload) c
      else (let cur = next_cursor (nr_queues c) (cq_producer_cursor c)
            in on_queue (unat cur) (\<lambda>q. spsc_Push sz q payload) (c\<lparr>cq_producer_cursor := cur\<rparr>)))"

definition ccq_TryPush_at :: "u64 \<Rightarrow> 'a ccq \<Rightarrow> 'a \<Rightarrow> nat \<Rightarrow> ('a ccq \<times> ErrorCode) run" where
  "ccq_TryPush_at sz c payload index =
     rassert (index < nr_queues c) (on_queue index (\<lambda>q. spsc_Push sz q payload) c)"

text \<open>The retry loop of \<^verbatim>\<open>Push\<close>: one attempt, and again while the queue is full.\<close>

definition push_wait :: "u64 \<Rightarrow> nat \<Rightarrow> 'a ccq \<Rightarrow> 'a \<Rightarrow> ('a ccq \<times> ErrorCode) run" where
  "push_wait sz i c payload =
     rbind (on_queue i (\<lambda>q. spsc_Push sz q payload) c) (\<lambda>(c', ec).
       if ec = kQueueFull \<and> \<not> cq_release_alert c then Hang else Ret (c', ec))"

definition ccq_Push :: "u64 \<Rightarrow> 'a ccq \<Rightarrow> 'a \<Rightarrow> ('a ccq \<times> ErrorCode) run" where
  "ccq_Push sz c payload =
     (if nr_queues c = 1 then push_wait sz 0 c payload
      else (let c1 = (if cq_producer_cursor c = of_nat (nr_queues c) then c\<lparr>cq_producer_cursor := 0\<rparr> else c)
            in rbind (push_wait sz (unat (cq_producer_cursor c1)) c1 payload) (\<lambda>(c2, ec).
                 Ret (c2\<lparr>cq_producer_cursor := cq_producer_cursor c2 + 1\<rparr>, ec))))"

text \<open>\<^verbatim>\<open>BroadCast\<close> pushes to every queue in turn; it gives up in the middle when the alert is set.\<close>

fun BroadCast_from :: "u64 \<Rightarrow> nat \<Rightarrow> nat \<Rightarrow> 'a ccq \<Rightarrow> 'a \<Rightarrow> ('a ccq \<times> ErrorCode) run" where
  "BroadCast_from sz 0 i c payload = Ret (c, kSuccess)"
| "BroadCast_from sz (Suc k) i c payload =
     rbind (on_queue i (\<lambda>q. spsc_Push sz q payload) c) (\<lambda>(c', ec).
       if ec = kSuccess then BroadCast_from sz k (Suc i) c' payload
       else if cq_release_alert c then Ret (c', kQueueFull) else Hang)"

definition ccq_BroadCast :: "u64 \<Rightarrow> 'a ccq \<Rightarrow> 'a \<Rightarrow> ('a ccq \<times> ErrorCode) run" where
  "ccq_BroadCast sz c payload = BroadCast_from sz (nr_queues c) 0 c payload"

definition ccq_TryPop :: "u64 \<Rightarrow> 'a ccq \<Rightarrow> ('a ccq \<times> (ErrorCode + 'a)) run" where
  "ccq_TryPop sz c =
     (if nr_queues c = 1 then on_queue 0 (spsc_Pop sz) c
      else (let cur = next_cursor (nr_queues c) (cq_consumer_cursor c)
            in on_queue (unat cur) (spsc_Pop sz) (c\<lparr>cq_consumer_cursor := cur\<rparr>)))"

definition ccq_TryPop_at :: "u64 \<Rightarrow> 'a ccq \<Rightarrow> nat \<Rightarrow> ('a ccq \<times> (ErrorCode + 'a)) run" where
  "ccq_TryPop_at sz c index = rassert (index < nr_queues c) (on_queue index (spsc_Pop sz) c)"

subsection \<open>\<^verbatim>\<open>Connector\<close>\<close>

record 'a task =
  t_element :: 'a
  t_seq :: u32
  t_dim :: u16
  t_idx :: u16
  t_total_order_seq_num :: u64

record 'a connector =
  cn_ccq :: "'a task ccq"
  cn_seq :: u32
  cn_lb_cursor :: u32

text \<open>
  \<open>g\<close> is the thread-local \<^verbatim>\<open>g_pipeline_total_order_seq_num\<close>, which a receive sets and a forward
  passes on.
\<close>

definition SequencialForward :: "u64 \<Rightarrow> u64 \<Rightarrow> 'a connector \<Rightarrow> 'a \<Rightarrow> ('a connector \<times> ErrorCode) run" where
  "SequencialForward sz g cn element =
     rbind (ccq_Push sz (cn_ccq cn)
              \<lparr>t_element = element, t_seq = 0, t_dim = 1, t_idx = 0, t_total_order_seq_num = g\<rparr>)
       (\<lambda>(c', ec). Ret (cn\<lparr>cn_ccq := c'\<rparr>, ec))"

definition SequencialReceive ::
  "u64 \<Rightarrow> u64 \<Rightarrow> 'a connector \<Rightarrow> (('a connector \<times> u64) \<times> (ErrorCode + 'a)) run" where
  "SequencialReceive sz g cn =
     rbind (ccq_TryPop_at sz (cn_ccq cn) (unat (cn_lb_cursor cn))) (\<lambda>(c', r).
       case r of
         Inl ec \<Rightarrow> Ret ((cn\<lparr>cn_ccq := c'\<rparr>, g), Inl ec)
       | Inr task \<Rightarrow>
           (let cur = cn_lb_cursor cn + 1
            in Ret ((cn\<lparr>cn_ccq := c',
                        cn_lb_cursor := (if cur = of_nat (nr_queues (cn_ccq cn)) then 0 else cur)\<rparr>,
                     t_total_order_seq_num task), Inr (t_element task))))"

text \<open>\<^verbatim>\<open>Forward(element)\<close> and \<^verbatim>\<open>LoadBalanceForward\<close> retry \<^verbatim>\<open>TryPush\<close>, which moves on to the next queue.\<close>

fun Forward_loop :: "nat \<Rightarrow> u64 \<Rightarrow> 'a ccq \<Rightarrow> 'a \<Rightarrow> ('a ccq \<times> ErrorCode) run" where
  "Forward_loop 0 sz c t = Hang"
| "Forward_loop (Suc k) sz c t =
     rbind (ccq_TryPush sz c t) (\<lambda>(c', ec). if ec = kSuccess then Ret (c', ec) else Forward_loop k sz c' t)"

text \<open>Alone, one round over the queues without success means that none will succeed.\<close>

definition Forward :: "u64 \<Rightarrow> u64 \<Rightarrow> 'a connector \<Rightarrow> 'a \<Rightarrow> ('a connector \<times> ErrorCode) run" where
  "Forward sz g cn element =
     rbind (Forward_loop (nr_queues (cn_ccq cn)) sz (cn_ccq cn)
              \<lparr>t_element = element, t_seq = 0, t_dim = 1, t_idx = 0, t_total_order_seq_num = g\<rparr>)
       (\<lambda>(c', ec). Ret (cn\<lparr>cn_ccq := c'\<rparr>, ec))"

definition Receive :: "u64 \<Rightarrow> u64 \<Rightarrow> 'a connector \<Rightarrow> (('a connector \<times> u64) \<times> (ErrorCode + 'a)) run" where
  "Receive sz g cn =
     rbind (ccq_TryPop sz (cn_ccq cn)) (\<lambda>(c', r).
       case r of
         Inl ec \<Rightarrow> Ret ((cn\<lparr>cn_ccq := c'\<rparr>, g), Inl ec)
       | Inr task \<Rightarrow> Ret ((cn\<lparr>cn_ccq := c'\<rparr>, t_total_order_seq_num task), Inr (t_element task)))"

text \<open>
  \<^verbatim>\<open>Fanout\<close> sends \<^verbatim>\<open>dim\<close> copies with consecutive \<^verbatim>\<open>idx\<close> to the queues in turn; the counter is a
  \<^verbatim>\<open>short\<close> and the loop runs until it meets \<^verbatim>\<open>dim\<close>.
\<close>

fun Fanout_loop :: "nat \<Rightarrow> u64 \<Rightarrow> 'a task ccq \<Rightarrow> 'a task \<Rightarrow> 'a task ccq run" where
  "Fanout_loop 0 sz c t = Ret c"
| "Fanout_loop (Suc k) sz c t =
     (let cur = next_cursor (nr_queues c) (cq_producer_cursor c)
      in rbind (on_queue (unat cur) (\<lambda>q. spsc_Push sz q t) (c\<lparr>cq_producer_cursor := cur\<rparr>)) (\<lambda>(c', ec).
           if ec = kSuccess then Fanout_loop k sz c' (t\<lparr>t_idx := t_idx t + 1\<rparr>) else Hang))"

definition Fanout :: "u64 \<Rightarrow> u64 \<Rightarrow> 'a connector \<Rightarrow> 'a \<Rightarrow> u16 \<Rightarrow> ('a connector \<times> ErrorCode) run" where
  "Fanout sz g cn element dim =
     rbind (Fanout_loop (unat dim) sz ((cn_ccq cn)\<lparr>cq_producer_cursor := 0\<rparr>)
              \<lparr>t_element = element, t_seq = 0, t_dim = dim, t_idx = 0, t_total_order_seq_num = g\<rparr>)
       (\<lambda>c'. Ret (cn\<lparr>cn_ccq := c'\<rparr>, kSuccess))"

text \<open>
  \<^verbatim>\<open>Assemble\<close> takes a task from the first queue and goes on to the next queues until it has seen the
  last part. Every iteration takes a task out, so the number of queued tasks bounds it; \<open>fuel\<close> is that bound.
\<close>

fun Assemble_loop :: "nat \<Rightarrow> u64 \<Rightarrow> 'a task ccq \<Rightarrow> 'a task \<Rightarrow> ('a task ccq \<times> 'a task) run" where
  "Assemble_loop fuel sz c t =
     (if sint (t_idx t) + 1 = sint (t_dim t) then Ret (c, t)
      else case fuel of
        0 \<Rightarrow> Hang
      | Suc k \<Rightarrow>
          (let cur = next_cursor (nr_queues c) (cq_consumer_cursor c)
           in rbind (on_queue (unat cur) (spsc_Pop sz) (c\<lparr>cq_consumer_cursor := cur\<rparr>)) (\<lambda>(c', r).
                case r of Inl ec \<Rightarrow> Hang | Inr t' \<Rightarrow> Assemble_loop k sz c' t')))"

definition Assemble :: "nat \<Rightarrow> u64 \<Rightarrow> u64 \<Rightarrow> 'a connector \<Rightarrow> (('a connector \<times> u64) \<times> (ErrorCode + 'a)) run" where
  "Assemble fuel sz g cn =
     rbind (on_queue 0 (spsc_Pop sz) ((cn_ccq cn)\<lparr>cq_consumer_cursor := 0\<rparr>)) (\<lambda>(c1, r).
       case r of
         Inl ec \<Rightarrow> Ret ((cn\<lparr>cn_ccq := c1\<rparr>, g), Inl kQueueEmpty)
       | Inr t \<Rightarrow>
           rbind (Assemble_loop fuel sz c1 t) (\<lambda>(c2, t').
             Ret ((cn\<lparr>cn_ccq := c2\<rparr>, t_total_order_seq_num t'), Inr (t_element t'))))"

declare Assemble_loop.simps [simp del]

section \<open>Forwarding in sequence\<close>

lemma on_queue_Ret:
  assumes "i < nr_queues c" "f (cq_queues c ! i) = Ret (q', r)"
  shows "on_queue i f c = Ret (c\<lparr>cq_queues := (cq_queues c)[i := q']\<rparr>, r)"
  using assms by (simp add: on_queue_def)

text \<open>
  The connector between a forwarding and a receiving thread: the queues hold one common sequence of
  tasks, the producer's cursor stands at the queue that comes next (or at the end, from where it is
  reset) and the receiver's cursor at the queue of the oldest task. Each queue has a budget of \<open>k\<close> pushes.
\<close>

definition seq_rel :: "u64 \<Rightarrow> nat \<Rightarrow> nat \<Rightarrow> 'a connector \<times> u64 \<Rightarrow> 'a list \<Rightarrow> nat \<Rightarrow> bool" where
  "seq_rel sz n cp s xs k \<longleftrightarrow>
     (let c = cn_ccq (fst s) in
      nr_queues c = n \<and> n < 2 ^ 31 \<and> \<not> cq_release_alert c \<and>
      (\<forall>j < n. k \<le> mpsc_budget (cq_queues c ! j)) \<and>
      (\<exists>C P ts. spsc.rr sz cp (cq_queues c) C P ts \<and> xs = map t_element ts \<and>
         unat (cq_producer_cursor c) \<le> n \<and> unat (cq_producer_cursor c) mod n = P mod n \<and>
         unat (cn_lb_cursor (fst s)) = C mod n))"

fun seq_push :: "u64 \<Rightarrow> 'a connector \<times> u64 \<Rightarrow> 'a \<Rightarrow> (('a connector \<times> u64) \<times> ErrorCode) run" where
  "seq_push sz (cn, g) x = rbind (SequencialForward sz g cn x) (\<lambda>(cn', ec). Ret ((cn', g), ec))"

fun seq_pop :: "u64 \<Rightarrow> 'a connector \<times> u64 \<Rightarrow> (('a connector \<times> u64) \<times> (ErrorCode + 'a)) run" where
  "seq_pop sz (cn, g) = SequencialReceive sz g cn"

lemma push_wait_ok:
  assumes "i < nr_queues c" "spsc_Push sz (cq_queues c ! i) x = Ret (q', kSuccess)"
  shows "push_wait sz i c x = Ret (c\<lparr>cq_queues := (cq_queues c)[i := q']\<rparr>, kSuccess)"
  using on_queue_Ret [OF assms(1), of "\<lambda>q. spsc_Push sz q x"] assms(2) by (simp add: push_wait_def)

text \<open>After \<^verbatim>\<open>Push\<close> has stored into the queue whose turn it is, its cursor stands at the next one.\<close>

lemma ccq_Push_turn:
  assumes n: "0 < nr_queues c" "nr_queues c < 2 ^ 31"
    and cur: "unat (cq_producer_cursor c) \<le> nr_queues c" "unat (cq_producer_cursor c) mod nr_queues c = P mod nr_queues c"
    and q': "spsc_Push sz (cq_queues c ! (P mod nr_queues c)) x = Ret (q', kSuccess)"
  obtains cur' where "ccq_Push sz c x =
      Ret (c\<lparr>cq_queues := (cq_queues c)[P mod nr_queues c := q'], cq_producer_cursor := cur'\<rparr>, kSuccess)"
    and "unat cur' \<le> nr_queues c" and "unat cur' mod nr_queues c = Suc P mod nr_queues c"
proof (cases "nr_queues c = 1")
  case True
  then have "push_wait sz 0 c x = Ret (c\<lparr>cq_queues := (cq_queues c)[0 := q']\<rparr>, kSuccess)"
    using push_wait_ok [of 0 c sz x q'] q' by simp
  then show thesis
    using True that [of "cq_producer_cursor c"] cur by (simp add: ccq_Push_def)
next
  case False
  let ?n = "nr_queues c"
  define c1 where "c1 = (if cq_producer_cursor c = of_nat ?n then c\<lparr>cq_producer_cursor := 0\<rparr> else c)"
  have c1: "cq_queues c1 = cq_queues c" "cq_release_alert c1 = cq_release_alert c"
    by (simp_all add: c1_def)
  have un: "unat (of_nat ?n :: u64) = ?n" using n(2) by (simp add: unat_of_nat64)
  have turn: "unat (cq_producer_cursor c1) = P mod ?n"
  proof (cases "cq_producer_cursor c = of_nat ?n")
    case True
    then show ?thesis using cur un by (simp add: c1_def)
  next
    case False
    then have "unat (cq_producer_cursor c) \<noteq> ?n" using un by (metis word_unat_eq_iff)
    then show ?thesis using cur False by (simp add: c1_def)
  qed
  have lt: "P mod ?n < ?n" using n(1) by simp
  have nxt: "unat (cq_producer_cursor c1 + 1) = Suc (P mod ?n)"
    using unat_inc64 [of "cq_producer_cursor c1"] turn lt n(2) by simp
  have "push_wait sz (P mod ?n) c1 x = Ret (c1\<lparr>cq_queues := (cq_queues c)[P mod ?n := q']\<rparr>, kSuccess)"
    using push_wait_ok [of "P mod ?n" c1 sz x q'] q' lt c1 by simp
  then have "ccq_Push sz c x = Ret (c1\<lparr>cq_queues := (cq_queues c)[P mod ?n := q'],
      cq_producer_cursor := cq_producer_cursor c1 + 1\<rparr>, kSuccess)"
    using False turn by (simp add: ccq_Push_def c1_def [symmetric] Let_def)
  moreover have "c1\<lparr>cq_queues := (cq_queues c)[P mod ?n := q'], cq_producer_cursor := cq_producer_cursor c1 + 1\<rparr> =
      c\<lparr>cq_queues := (cq_queues c)[P mod ?n := q'], cq_producer_cursor := cq_producer_cursor c1 + 1\<rparr>"
    by (simp add: c1_def)
  moreover have "Suc (P mod ?n) mod ?n = Suc P mod ?n" by (simp add: mod_Suc_eq)
  ultimately show thesis
    using that [of "cq_producer_cursor c1 + 1"] nxt lt by simp
qed

lemma seq_rel_push:
  assumes rel: "seq_rel sz n cp s xs (Suc k)" and room: "length xs < n * cp"
  shows "\<exists>s'. seq_push sz s x = Ret (s', kSuccess) \<and> seq_rel sz n cp s' (xs @ [x]) k"
proof -
  obtain cn g where s: "s = (cn, g)" by (cases s)
  let ?c = "cn_ccq cn"
  from rel s obtain C P ts where n: "nr_queues ?c = n" "n < 2 ^ 31" "\<not> cq_release_alert ?c"
    and b: "\<forall>j < n. Suc k \<le> mpsc_budget (cq_queues ?c ! j)"
    and r: "spsc.rr sz cp (cq_queues ?c) C P ts" and xs: "xs = map t_element ts"
    and cur: "unat (cq_producer_cursor ?c) \<le> n" "unat (cq_producer_cursor ?c) mod n = P mod n"
    and lb: "unat (cn_lb_cursor cn) = C mod n"
    by (auto simp: seq_rel_def Let_def)
  let ?t = "\<lparr>t_element = x, t_seq = 0, t_dim = 1, t_idx = 0, t_total_order_seq_num = g\<rparr>"
  have pos: "0 < nr_queues ?c" and len: "length ts = P - C" using r by (simp_all add: spsc.rr_def)
  have b': "\<forall>j < nr_queues ?c. 0 < mpsc_budget (cq_queues ?c ! j)" using b n by fastforce
  from spsc.rr_push [OF r _ b', of ?t] room len xs n obtain q' where
    q': "spsc_Push sz (cq_queues ?c ! (P mod nr_queues ?c)) ?t = Ret (q', kSuccess)"
    "spsc.rr sz cp ((cq_queues ?c)[P mod nr_queues ?c := q']) C (Suc P) (ts @ [?t])"
    "\<forall>j < nr_queues ?c. mpsc_budget (cq_queues ?c ! j) \<le> Suc (mpsc_budget ((cq_queues ?c)[P mod nr_queues ?c := q'] ! j))"
    by auto
  obtain cur' where push: "ccq_Push sz ?c ?t =
      Ret (?c\<lparr>cq_queues := (cq_queues ?c)[P mod nr_queues ?c := q'], cq_producer_cursor := cur'\<rparr>, kSuccess)"
    and cur': "unat cur' \<le> nr_queues ?c" "unat cur' mod nr_queues ?c = Suc P mod nr_queues ?c"
    using ccq_Push_turn [OF pos _ _ _ q'(1)] n cur by auto
  let ?s = "(cn\<lparr>cn_ccq := ?c\<lparr>cq_queues := (cq_queues ?c)[P mod nr_queues ?c := q'], cq_producer_cursor := cur'\<rparr>\<rparr>, g)"
  have "seq_push sz s x = Ret (?s, kSuccess)"
    using push s by (simp add: SequencialForward_def)
  moreover have "seq_rel sz n cp ?s (xs @ [x]) k"
  proof -
    have "k \<le> mpsc_budget ((cq_queues ?c)[P mod n := q'] ! j)" if "j < n" for j
      using q'(3) b n that by fastforce
    moreover have "xs @ [x] = map t_element (ts @ [?t])" using xs by simp
    ultimately show ?thesis
      unfolding seq_rel_def Let_def using q'(2) cur' n lb by (auto simp del: map_append)
  qed
  ultimately show ?thesis by blast
qed

lemma lb_next:
  assumes "unat cur = C mod n" "0 < n" "n < 2 ^ 31"
  shows "unat (if cur + 1 = of_nat n then 0 else cur + 1 :: u32) = Suc C mod n"
proof -
  have un: "unat (of_nat n :: u32) = n" using assms(3) by (simp add: unat_of_nat)
  have lt: "C mod n < n" using assms(2) by simp
  have nxt: "unat (cur + 1) = Suc (C mod n)"
    using assms lt by (simp add: unat_word_ariths)
  show ?thesis
  proof (cases "Suc (C mod n) = n")
    case True
    then have "cur + 1 = of_nat n" using nxt un by (simp add: word_unat_eq_iff)
    then show ?thesis using True by (simp add: mod_Suc)
  next
    case False
    then have "cur + 1 \<noteq> of_nat n" using nxt un by metis
    then show ?thesis using False nxt by (simp add: mod_Suc)
  qed
qed

lemma seq_rel_pop:
  assumes rel: "seq_rel sz n cp s (y # ys) k"
  shows "\<exists>s'. seq_pop sz s = Ret (s', Inr y) \<and> seq_rel sz n cp s' ys k"
proof -
  obtain cn g where s: "s = (cn, g)" by (cases s)
  let ?c = "cn_ccq cn"
  from rel s obtain C P t ts where n: "nr_queues ?c = n" "n < 2 ^ 31" "\<not> cq_release_alert ?c"
    and b: "\<forall>j < n. k \<le> mpsc_budget (cq_queues ?c ! j)"
    and r: "spsc.rr sz cp (cq_queues ?c) C P (t # ts)" and y: "y = t_element t" "ys = map t_element ts"
    and cur: "unat (cq_producer_cursor ?c) \<le> n" "unat (cq_producer_cursor ?c) mod n = P mod n"
    and lb: "unat (cn_lb_cursor cn) = C mod n"
    by (auto simp: seq_rel_def Let_def)
  have pos: "0 < n" using r n by (simp add: spsc.rr_def)
  from spsc.rr_pop [OF r] n obtain q' where
    q': "spsc_Pop sz (cq_queues ?c ! (C mod n)) = Ret (q', Inr t)"
    "spsc.rr sz cp ((cq_queues ?c)[C mod n := q']) (Suc C) P ts"
    "\<forall>j < n. mpsc_budget ((cq_queues ?c)[C mod n := q'] ! j) = mpsc_budget (cq_queues ?c ! j)"
    by auto
  let ?cur = "if cn_lb_cursor cn + 1 = of_nat n then 0 else cn_lb_cursor cn + 1"
  let ?s = "(cn\<lparr>cn_ccq := ?c\<lparr>cq_queues := (cq_queues ?c)[C mod n := q']\<rparr>, cn_lb_cursor := ?cur\<rparr>, t_total_order_seq_num t)"
  have "seq_pop sz s = Ret (?s, Inr y)"
    using on_queue_Ret [of "C mod n" ?c "spsc_Pop sz" q' "Inr t"] q' lb n pos s y
    by (simp add: SequencialReceive_def ccq_TryPop_at_def Let_def)
  moreover have "seq_rel sz n cp ?s ys k"
    unfolding seq_rel_def Let_def using q' b cur n y lb_next [OF lb pos n(2)] by auto
  ultimately show ?thesis by blast
qed

lemma seq_rel_none:
  assumes rel: "seq_rel sz n cp s [] k"
  shows "\<exists>s'. seq_pop sz s = Ret (s', Inl kQueueEmpty) \<and> seq_rel sz n cp s' [] k"
proof -
  obtain cn g where s: "s = (cn, g)" by (cases s)
  let ?c = "cn_ccq cn"
  from rel s obtain C P where n: "nr_queues ?c = n" "n < 2 ^ 31" "\<not> cq_release_alert ?c"
    and b: "\<forall>j < n. k \<le> mpsc_budget (cq_queues ?c ! j)"
    and r: "spsc.rr sz cp (cq_queues ?c) C P []"
    and cur: "unat (cq_producer_cursor ?c) \<le> n" "unat (cq_producer_cursor ?c) mod n = P mod n"
    and lb: "unat (cn_lb_cursor cn) = C mod n"
    by (auto simp: seq_rel_def Let_def)
  have pos: "0 < n" using r n by (simp add: spsc.rr_def)
  from spsc.rr_pop_none [OF r] n obtain q' where
    q': "spsc_Pop sz (cq_queues ?c ! (C mod n)) = Ret (q', Inl kQueueEmpty)"
    "spsc.rr sz cp ((cq_queues ?c)[C mod n := q']) C P []"
    "\<forall>j < n. mpsc_budget ((cq_queues ?c)[C mod n := q'] ! j) = mpsc_budget (cq_queues ?c ! j)"
    by auto
  let ?s = "(cn\<lparr>cn_ccq := ?c\<lparr>cq_queues := (cq_queues ?c)[C mod n := q']\<rparr>\<rparr>, g)"
  have "seq_pop sz s = Ret (?s, Inl kQueueEmpty)"
    using on_queue_Ret [of "C mod n" ?c "spsc_Pop sz" q' "Inl kQueueEmpty"] q' lb n pos s
    by (simp add: SequencialReceive_def ccq_TryPop_at_def)
  moreover have "seq_rel sz n cp ?s [] k"
    unfolding seq_rel_def Let_def using q' b cur n lb by auto
  ultimately show ?thesis by blast
qed

interpretation seq: blocking_fifo "seq_push sz" "seq_pop sz" "seq_rel sz n cp" "n * cp"
  for sz n cp
  by unfold_locales (erule (1) seq_rel_push, erule seq_rel_pop, erule seq_rel_none)

lemma ccq_Init_queues_ok:
  assumes "\<And>i. \<exists>q. create i = Ret (Some q) \<and> Q q"
  shows "\<exists>qs. ccq_Init_queues create i k = Ret qs \<and> length qs = k \<and> (\<forall>q\<in>set qs. Q q)"
proof (induction k arbitrary: i)
  case (Suc k)
  from assms [of i] obtain q where "create i = Ret (Some q)" "Q q" by blast
  with Suc.IH [of "Suc i"] show ?case by auto
qed simp

section \<open>Properties\<close>

text \<open>
  C26: a connector over \<open>n\<close> queues keeps the order of what is sent through it. Over any sequence of
  \<^verbatim>\<open>SequencialForward\<close> and \<^verbatim>\<open>SequencialReceive\<close> calls that never finds all the queues full, the results
  are those of a single first-in first-out buffer with the sum of the capacities, although each element
  travels through one of \<open>n\<close> separate queues.
\<close>

theorem connector_keeps_order:
  assumes "create_pre plat payload d" and "\<And>b. memalign_ok b" and "unat sz \<le> unat payload"
    and "0 < n" and "n < 2 ^ 31"
    and "pushes ops \<le> 2 ^ 64 - 2 - unat (RoundToPowerOf2 d)"
    and "OutPush kQueueFull \<notin> set (snd (spec_run (n * unat (RoundToPowerOf2 d)) [] ops))"
  shows "\<exists>c s'. ccq_Init (\<lambda>i. mpsc_Create plat memalign_ok junk (names i) payload d) n = Ret c \<and>
    impl_run (seq_push sz) (seq_pop sz) (\<lparr>cn_ccq = c, cn_seq = 0, cn_lb_cursor = 0\<rparr>, g) ops =
      Ret (s', snd (spec_run (n * unat (RoundToPowerOf2 d)) [] ops))"
proof -
  let ?Q = "\<lambda>q. mpsc_exact sz q \<and> mpsc_elems q = [] \<and> mpsc_cap q = unat (RoundToPowerOf2 d) \<and>
    mpsc_budget q = 2 ^ 64 - 2 - unat (RoundToPowerOf2 d)"
  have "\<exists>q. mpsc_Create plat memalign_ok junk (names i) payload d = Ret (Some q) \<and> ?Q q" for i
  proof -
    obtain m q where "mpsc_Create plat memalign_ok junk (names i) payload d = Ret (Some (m, q))"
      "mpsc_exact sz (m, q)" "contents m = []" "ring_size m = unat (RoundToPowerOf2 d)"
      "cursor_budget m = 2 ^ 64 - 2 - unat (RoundToPowerOf2 d)"
      using mpsc_Create_exact [OF assms(1-3), where junk = junk and name = "names i"] .
    then show ?thesis by (intro exI [of _ "(m, q)"]) simp
  qed
  from ccq_Init_queues_ok [of "\<lambda>i. mpsc_Create plat memalign_ok junk (names i) payload d" ?Q 0 n, OF this] obtain qs where
    qs: "ccq_Init_queues (\<lambda>i. mpsc_Create plat memalign_ok junk (names i) payload d) 0 n = Ret qs"
    "length qs = n" "\<forall>q\<in>set qs. ?Q q" by blast
  let ?c = "\<lparr>cq_queues = qs, cq_release_alert = False, cq_producer_cursor = 0, cq_consumer_cursor = 0\<rparr>"
  have Q: "?Q (qs ! j)" if "j < n" for j using qs that nth_mem by blast
  have rr: "spsc.rr sz (unat (RoundToPowerOf2 d)) qs 0 0 []"
    using Q qs(2) assms(4) by (simp add: spsc.rr_def lane_def)
  have "seq_rel sz n (unat (RoundToPowerOf2 d)) (\<lparr>cn_ccq = ?c, cn_seq = 0, cn_lb_cursor = 0\<rparr>, g) [] (pushes ops)"
    unfolding seq_rel_def Let_def using rr Q qs(2) assms(4-6)
    by (auto intro!: exI [of _ "0::nat"] exI [of _ "[]"])
  from seq.blocking_run_refines [OF this] assms(7) qs(1) show ?thesis
    by (auto simp: ccq_Init_def)
qed

theorem connector_keeps_order_witness:
  "\<exists>c s'. ccq_Init (\<lambda>i. mpsc_Create demo_platform (\<lambda>_. True) (\<lambda>_. undefined) ''q'' 8 3) 2 = Ret c \<and>
     impl_run (seq_push 8) (seq_pop 8) (\<lparr>cn_ccq = c, cn_seq = 0, cn_lb_cursor = 0\<rparr>, 0)
       [OpPush (7::nat), OpPush 8, OpPush 9, OpPop, OpPop, OpPop] =
       Ret (s', [OutPush kSuccess, OutPush kSuccess, OutPush kSuccess, OutPop (Inr 7), OutPop (Inr 8), OutPop (Inr 9)])"
  using connector_keeps_order [OF demo_pre(1), of "\<lambda>_. True" 8 2
      "[OpPush 7, OpPush 8, OpPush 9, OpPop, OpPop, OpPop]" "\<lambda>_. undefined" "\<lambda>_. ''q''" 0]
  by (simp add: demo_pre(2) del: impl_run.simps)

definition demo_task :: "nat task" where
  "demo_task = \<lparr>t_element = 0, t_seq = 0, t_dim = 0, t_idx = 0, t_total_order_seq_num = 0\<rparr>"

text \<open>Create two queues, fan one element out to both in two parts, assemble, and count what is left in each.\<close>

definition fanout_then_assemble :: "((ErrorCode + nat) \<times> nat list) run" where
  "fanout_then_assemble =
     rbind (ccq_Init (\<lambda>i. mpsc_Create demo_platform (\<lambda>_. True) (\<lambda>_. demo_task) ''q'' 32 2) 2) (\<lambda>c.
     rbind (Fanout 32 0 \<lparr>cn_ccq = c, cn_seq = 0, cn_lb_cursor = 0\<rparr> 5 2) (\<lambda>(cn, ec).
     rbind (Assemble 2 32 0 cn) (\<lambda>((cn', g), r).
       Ret (r, map (\<lambda>q. length (contents (fst q))) (cq_queues (cn_ccq cn'))))))"

text \<open>
  \<^verbatim>\<open>Fanout\<close> advances its cursor before it pushes, so the first of the parts goes to the second
  queue and the last part to the first queue, where \<^verbatim>\<open>Assemble\<close> begins: it meets the last part at once and
  returns with the other part still queued.
\<close>

theorem assemble_stops_early: "fanout_then_assemble = Ret (Inr 5, [0, 1])"
  by code_simp

end
