(* ===== verification/Array_Queue.thy ===== *)
theory Array_Queue
  imports Spsc_Queue
begin

section \<open>An array of queues\<close>

text \<open>
  \<^verbatim>\<open>include/adk/array_queue.h\<close>: many producers and one consumer over an array of queues. The first \<^verbatim>\<open>N\<close> threads that push
  get a queue of their own, later ones share the rest in turn; the consumer goes round the queues in the order of a
  priority table, leaves a queue after 64 elements, and sorts the table by activity when it finds all queues empty after a
  million elements. A tagged pointer \<^verbatim>\<open>queue_\<close> is an index and whether the thread has the queue to itself; the thread-local
  variable is a map from threads, the static ones of \<^verbatim>\<open>Pop\<close> are part of the state. \<^verbatim>\<open>std::sort\<close> is an argument, since it may
  leave equal elements in any order.
\<close>

record Slot =
  sl_index :: u32
  sl_buget :: u32
  sl_heat :: u32

record 'a Item =
  it_queue :: "'a queue"
  it_is_sp_channel :: bool

record 'a aqueue =
  aq_nr_queue_used :: u32
  aq_nr_threads :: u32
  aq_prio :: "Slot list"
  aq_queues :: "'a Item list"
  aq_queue :: "nat \<Rightarrow> (nat \<times> bool) option"
  aq_curr :: u32
  aq_nr_pop :: u32

text \<open>The number of shared queues: a quarter of \<^verbatim>\<open>N\<close>, rounded up, and at least one.\<close>

definition nr_mp_queue :: "nat \<Rightarrow> nat" where
  "nr_mp_queue N = (if N div 4 = 0 then 1 else (N + 3) div 4)"

definition aq_GetCapacity :: "nat \<Rightarrow> nat" where
  "aq_GetCapacity N = N + nr_mp_queue N"



text \<open>A thread that calls for the first time gets its queue.\<close>

definition allocQueue :: "nat \<Rightarrow> nat \<Rightarrow> 'a aqueue \<Rightarrow> 'a aqueue run" where
  "allocQueue N t s =
     (let threads = aq_nr_threads s + 1; s1 = s\<lparr>aq_nr_threads := threads\<rparr>
      in if unat threads \<le> N
         then Ret (s1\<lparr>aq_queue := (aq_queue s)(t \<mapsto> (unat (aq_nr_queue_used s), True)), aq_nr_queue_used := aq_nr_queue_used s + 1\<rparr>)
         else let rb_offset = (unat threads - 1 - N) mod nr_mp_queue N;
                  s2 = s1\<lparr>aq_queue := (aq_queue s)(t \<mapsto> (N + rb_offset, False))\<rparr>
              in if unat threads \<le> N + nr_mp_queue N then Ret (s2\<lparr>aq_nr_queue_used := aq_nr_queue_used s + 1\<rparr>)
                 else rassert (unat (aq_nr_queue_used s) = N + nr_mp_queue N) (Ret s2))"

definition with_queue :: "nat \<Rightarrow> nat \<Rightarrow> 'a aqueue \<Rightarrow> 'a aqueue run" where
  "with_queue N t s = (if aq_queue s t = None then allocQueue N t s else Ret s)"

text \<open>One call on the queue with a given index.\<close>

definition aq_on :: "nat \<Rightarrow> ('a queue \<Rightarrow> ('a queue \<times> 'r) run) \<Rightarrow> 'a aqueue \<Rightarrow> ('a aqueue \<times> 'r) run" where
  "aq_on i f s =
     rbind (aget (aq_queues s) i) (\<lambda>it.
     rbind (f (it_queue it)) (\<lambda>(q, r). Ret (s\<lparr>aq_queues := (aq_queues s)[i := it\<lparr>it_queue := q\<rparr>]\<rparr>, r)))"

text \<open>The calls of a thread on its own queue: \<^term>\<open>f\<close> when it has it to itself, \<^term>\<open>g\<close> when it shares it.\<close>

definition aq_own ::
  "('a queue \<Rightarrow> ('a queue \<times> 'r) run) \<Rightarrow> ('a queue \<Rightarrow> ('a queue \<times> 'r) run) \<Rightarrow> nat \<Rightarrow> nat \<Rightarrow> 'a aqueue \<Rightarrow> ('a aqueue \<times> 'r) run" where
  "aq_own f g N t s =
     rbind (with_queue N t s) (\<lambda>s1. case aq_queue s1 t of
       None \<Rightarrow> Hang
     | Some (i, is_sp) \<Rightarrow> aq_on i (if is_sp then f else g) s1)"


definition aq_AllocEntry :: "nat \<Rightarrow> nat \<Rightarrow> 'a aqueue \<Rightarrow> ('a aqueue \<times> (ErrorCode + nat)) run" where
  "aq_AllocEntry = aq_own (\<lambda>q. Ret (spsc_AllocEntry q)) (\<lambda>q. Ret (AllocEntry q))"

definition aq_PostEntry :: "nat \<Rightarrow> nat \<Rightarrow> nat \<Rightarrow> 'a aqueue \<Rightarrow> ('a aqueue \<times> ErrorCode) run" where
  "aq_PostEntry e = aq_own (spsc_PostEntry e) (PostEntry e)"

definition aq_WaitEntry :: "nat \<Rightarrow> nat \<Rightarrow> 'a aqueue \<Rightarrow> ('a aqueue \<times> (ErrorCode + nat)) run" where
  "aq_WaitEntry = aq_own (\<lambda>q. Ret (spsc_WaitEntry False q)) (\<lambda>q. Ret (WaitEntry False q))"

definition aq_FreeEntry :: "nat \<Rightarrow> nat \<Rightarrow> nat \<Rightarrow> 'a aqueue \<Rightarrow> ('a aqueue \<times> ErrorCode) run" where
  "aq_FreeEntry e = aq_own (spsc_FreeEntry e) (FreeEntry False e)"

definition aq_GetQueue :: "nat \<Rightarrow> u32 \<Rightarrow> 'a aqueue \<Rightarrow> 'a queue run" where
  "aq_GetQueue N index s = rbind (aget (aq_queues s) (unat index mod aq_GetCapacity N)) (\<lambda>it. Ret (it_queue it))"

subsection \<open>The consumer\<close>







section \<open>The priority table\<close>












section \<open>The array\<close>














subsection \<open>The consumer goes round\<close>















section \<open>What reaches the consumer\<close>











section \<open>A new array\<close>






end
