(* ===== verification/Bit_Map.thy ===== *)
theory Bit_Map
  imports Prelude
begin

section \<open>The bit map\<close>

text \<open>
  \<^verbatim>\<open>include/adk/bitmap.h\<close>: a set of positions kept in an array of 64-bit words, with operations on one
  position and on a range. A range is written a word at a time, with a mask for the first and the last word.
  The development shows that any sequence of operations inside the array acts as on a set of positions, and
  what the two constructors leave in the memory.
\<close>

definition kPerWordBits :: u64 where "kPerWordBits = 64"

definition kWordBitMask :: u64 where "kWordBitMask = 63"

definition ADK_BITMAP_NOALLOC_FLAG :: u64 where "ADK_BITMAP_NOALLOC_FLAG = 0x1000000000000"

definition ADK_ADDRESS_MASK :: u64 where "ADK_ADDRESS_MASK = 0xFFFFFFFFFFFF"

text \<open>The number of bits is clamped to 8 .. 32; the block has \<^verbatim>\<open>2 ^ nr_valid_bits / 8\<close> bytes of arbitrary content.\<close>

definition clamp_bits :: "u32 \<Rightarrow> u32" where
  "clamp_bits nr_valid_bits =
     (let n = (if nr_valid_bits < 8 then 8 else nr_valid_bits) in if 32 < n then 32 else n)"

definition bm_Create :: "(nat \<Rightarrow> u64) \<Rightarrow> u32 \<Rightarrow> u64 list" where
  "bm_Create junk nr_valid_bits = map junk [0..<2 ^ unat (clamp_bits nr_valid_bits) div 8 div 8]"

text \<open>
  \<^verbatim>\<open>Create(addr, nr_valid_bits)\<close>: clears \<^verbatim>\<open>(nr_valid_bits + 7) / 8\<close> bytes (at most five, so all in the first
  word on a little-endian machine) of the memory it is given and marks the pointer as not allocated.
\<close>

definition bm_Create_at :: "u64 \<Rightarrow> u64 list \<Rightarrow> u32 \<Rightarrow> (u64 list \<times> u64) run" where
  "bm_Create_at addr ws nr_valid_bits =
     (let bytes = (clamp_bits nr_valid_bits + 7) div 8
      in rbind (aget ws 0) (\<lambda>w.
         rbind (aset ws 0 (w AND NOT (mask (8 * unat bytes)))) (\<lambda>ws'.
         Ret (ws', addr OR ADK_BITMAP_NOALLOC_FLAG))))"

definition bm_frees :: "u64 \<Rightarrow> bool" where
  "bm_frees inst = (inst AND ADK_BITMAP_NOALLOC_FLAG = 0)"

definition bm_base :: "u64 \<Rightarrow> u64" where
  "bm_base this = this AND ADK_ADDRESS_MASK"

text \<open>The operations, on the words at the base of the object.\<close>

definition word_at :: "u64 \<Rightarrow> nat" where
  "word_at i = unat (drop_bit 6 i)"

definition bit_at :: "u64 \<Rightarrow> u64" where
  "bit_at i = push_bit (unat (i AND kWordBitMask)) 1"

definition AtomicSet :: "u64 \<Rightarrow> u64 \<Rightarrow> u64" where
  "AtomicSet w bits_mask = w OR bits_mask"

definition AtomicClear :: "u64 \<Rightarrow> u64 \<Rightarrow> u64" where
  "AtomicClear w bits_mask = (let clear_mask = NOT bits_mask in w AND clear_mask)"

definition bm_SetUnsafe :: "u64 list \<Rightarrow> u64 \<Rightarrow> u64 list run" where
  "bm_SetUnsafe ws i = rbind (aget ws (word_at i)) (\<lambda>w. aset ws (word_at i) (w OR bit_at i))"

definition bm_Set :: "u64 list \<Rightarrow> u64 \<Rightarrow> u64 list run" where
  "bm_Set ws i = rbind (aget ws (word_at i)) (\<lambda>w. aset ws (word_at i) (AtomicSet w (bit_at i)))"

definition bm_ClearUnsafe :: "u64 list \<Rightarrow> u64 \<Rightarrow> u64 list run" where
  "bm_ClearUnsafe ws i = rbind (aget ws (word_at i)) (\<lambda>w. aset ws (word_at i) (w AND NOT (bit_at i)))"

definition bm_Clear :: "u64 list \<Rightarrow> u64 \<Rightarrow> u64 list run" where
  "bm_Clear ws i = rbind (aget ws (word_at i)) (\<lambda>w. aset ws (word_at i) (AtomicClear w (bit_at i)))"

definition bm_Get :: "u64 list \<Rightarrow> u64 \<Rightarrow> u64 run" where
  "bm_Get ws i = rbind (aget ws (word_at i)) (\<lambda>w. Ret (w AND bit_at i))"

text \<open>
  The loop of \<^verbatim>\<open>SetRange\<close> and \<^verbatim>\<open>ClearRange\<close>, which differ in the word update only. A step outside
  the array is undefined, so the loop ends.
\<close>

function range_loop ::
  "(u64 \<Rightarrow> u64 \<Rightarrow> u64) \<Rightarrow> nat \<Rightarrow> u64 \<Rightarrow> u64 \<Rightarrow> u64 \<Rightarrow> u64 list \<Rightarrow> (nat \<times> u64 \<times> u64 \<times> u64 list) run" where
  "range_loop upd p len bits_to_set bits_mask ws =
     (if bits_to_set \<le> len
      then if p < length ws
           then range_loop upd (Suc p) (len - bits_to_set) kPerWordBits (NOT 0) (ws[p := upd (ws ! p) bits_mask])
           else Undef
      else Ret (p, len, bits_mask, ws))"
  by pat_completeness auto
termination
  by (relation "measure (\<lambda>(upd, p, len, bts, msk, ws). length ws - p)") auto

declare range_loop.simps [simp del]

definition range_update :: "(u64 \<Rightarrow> u64 \<Rightarrow> u64) \<Rightarrow> u64 list \<Rightarrow> u64 \<Rightarrow> u64 \<Rightarrow> u64 list run" where
  "range_update upd ws start len =
     (let stop = start + len;
          bits_to_set = kPerWordBits - (start AND kWordBitMask);
          bits_mask = push_bit (unat (start AND kWordBitMask)) (NOT 0)
      in rbind (range_loop upd (word_at start) len bits_to_set bits_mask ws) (\<lambda>(p, len', bits_mask', ws').
           if 0 < len'
           then let last_mask = bits_mask' AND drop_bit (unat (- stop AND kWordBitMask)) (NOT 0)
                in rbind (aget ws' p) (\<lambda>w. aset ws' p (upd w last_mask))
           else Ret ws'))"

definition bm_SetRange :: "u64 list \<Rightarrow> u64 \<Rightarrow> u64 \<Rightarrow> u64 list run" where
  "bm_SetRange = range_update AtomicSet"

definition bm_ClearRange :: "u64 list \<Rightarrow> u64 \<Rightarrow> u64 \<Rightarrow> u64 list run" where
  "bm_ClearRange = range_update AtomicClear"

section \<open>The set of positions\<close>

definition bm_bit :: "u64 list \<Rightarrow> nat \<Rightarrow> bool" where
  "bm_bit ws j = bit (ws ! (j div 64)) (j mod 64)"

definition bm_set :: "u64 list \<Rightarrow> nat set" where
  "bm_set ws = {j. j < 64 * length ws \<and> bm_bit ws j}"

text \<open>A word update that gives the bits of the mask the value \<open>v\<close> and keeps the others.\<close>

definition writes :: "(u64 \<Rightarrow> u64 \<Rightarrow> u64) \<Rightarrow> bool \<Rightarrow> bool" where
  "writes upd v = (\<forall>w msk. \<forall>i<64. bit (upd w msk) i = (if bit msk i then v else bit w i))"

lemma writes_set: "writes AtomicSet True"
  by (simp add: writes_def AtomicSet_def bit_simps)

lemma writes_clear: "writes AtomicClear False"
  by (simp add: writes_def AtomicClear_def bit_simps)

lemma unat_and_63: "unat (x AND kWordBitMask :: u64) = unat x mod 64"
  using unat_and_pow2_mask [of 6 x] by (simp add: kWordBitMask_def)

lemma word_at_eq: "word_at i = unat i div 64"
  unfolding word_at_def unat_drop_bit_eq by (simp add: drop_bit_eq_div)

lemma bit_bit_at: "bit (bit_at i) k \<longleftrightarrow> k = unat i mod 64"
  by (auto simp: bit_at_def unat_and_63 bit_simps)

text \<open>One word updated with a mask changes exactly the positions of the mask in that word.\<close>

lemma bm_bit_update:
  assumes "writes upd v" "p < length ws" "j < 64 * length ws"
  shows "bm_bit (ws[p := upd (ws ! p) msk]) j =
    (if j div 64 = p \<and> bit msk (j mod 64) then v else bm_bit ws j)"
  using assms by (auto simp: bm_bit_def writes_def nth_list_update)

lemma word_at_range: "unat i < 64 * length ws \<Longrightarrow> word_at i < length ws"
  by (simp add: word_at_eq less_mult_imp_div_less mult.commute)

lemma bm_one:
  assumes "writes upd v" "unat i < 64 * length ws"
  shows "\<exists>ws'. rbind (aget ws (word_at i)) (\<lambda>w. aset ws (word_at i) (upd w (bit_at i))) = Ret ws' \<and>
    length ws' = length ws \<and> (\<forall>j<64 * length ws. bm_bit ws' j = (if j = unat i then v else bm_bit ws j))"
proof -
  have p: "word_at i < length ws" by (rule word_at_range [OF assms(2)])
  have "(j div 64 = word_at i \<and> bit (bit_at i) (j mod 64)) = (j = unat i)" for j
    unfolding word_at_eq bit_bit_at by (metis div_mult_mod_eq)
  then show ?thesis
    using p bm_bit_update [OF assms(1) p] by simp
qed

text \<open>The loop has reached position \<open>64 * p + (64 - b)\<close>, with a mask for the last \<open>b\<close> bits of its word.\<close>

definition top_mask :: "u64 \<Rightarrow> nat \<Rightarrow> bool" where
  "top_mask msk b = (\<forall>i<64. bit msk i \<longleftrightarrow> 64 - b \<le> i)"

lemma word_window:
  fixes j p c r :: nat
  assumes "c < 64" "r \<le> 64"
  shows "(j div 64 = p \<and> c \<le> j mod 64 \<and> j mod 64 < r) \<longleftrightarrow> 64 * p + c \<le> j \<and> j < 64 * p + r"
proof -
  define d m where "d = j div 64" and "m = j mod 64"
  have j: "j = 64 * d + m" "m < 64" by (simp_all add: d_def m_def)
  have "d = p" if "64 * p + c \<le> j" "j < 64 * p + r"
    using that j assms by (intro antisym) simp_all
  then have "(d = p \<and> c \<le> m \<and> m < r) \<longleftrightarrow> 64 * p + c \<le> j \<and> j < 64 * p + r"
    using j by (cases "d = p") auto
  then show ?thesis by (simp only: d_def m_def)
qed

lemma range_loop_ok:
  assumes "writes upd v" and "unat bts = b" "1 \<le> b" "b \<le> 64" "top_mask msk b"
    and "64 * p + (64 - b) + unat len \<le> 64 * length ws"
  shows "\<exists>p' len' msk' ws' b'. range_loop upd p len bts msk ws = Ret (p', len', msk', ws') \<and>
    top_mask msk' b' \<and> 1 \<le> b' \<and> b' \<le> 64 \<and> unat len' < b' \<and>
    64 * p' + (64 - b') + unat len' = 64 * p + (64 - b) + unat len \<and>
    64 * p + (64 - b) \<le> 64 * p' + (64 - b') \<and> length ws' = length ws \<and>
    (\<forall>j<64 * length ws. bm_bit ws' j =
       (if 64 * p + (64 - b) \<le> j \<and> j < 64 * p' + (64 - b') then v else bm_bit ws j))"
  using assms
proof (induction upd p len bts msk ws arbitrary: b rule: range_loop.induct)
  case (1 upd p len bts msk ws)
  show ?case
  proof (cases "bts \<le> len")
    case True
    then have le: "b \<le> unat len" using 1(3) by (simp add: word_le_nat_alt)
    then have p: "p < length ws" using 1(4,5,7) by linarith
    let ?ws = "ws[p := upd (ws ! p) msk]"
    have l: "unat (len - bts) = unat len - b" using le 1(3) unat_sub64 [of bts len] by simp
    have q: "unat kPerWordBits = 64" "top_mask (NOT 0) 64" by (simp_all add: kPerWordBits_def top_mask_def)
    have "64 * Suc p + (64 - 64) + unat (len - bts) \<le> 64 * length ?ws" using l le 1(5,7) by simp
    from 1(1) [OF True p 1(2) q(1) _ _ q(2) this] obtain p' len' msk' ws' b' where
      r: "range_loop upd (Suc p) (len - bts) kPerWordBits (NOT 0) ?ws = Ret (p', len', msk', ws')"
      "top_mask msk' b'" "1 \<le> b'" "b' \<le> 64" "unat len' < b'"
      "64 * p' + (64 - b') + unat len' = 64 * Suc p + unat (len - bts)"
      "64 * Suc p \<le> 64 * p' + (64 - b')" "length ws' = length ws"
      and bits: "\<And>j. j < 64 * length ws \<Longrightarrow> bm_bit ws' j =
        (if 64 * Suc p \<le> j \<and> j < 64 * p' + (64 - b') then v else bm_bit ?ws j)"
      by auto
    have one: "bm_bit ?ws j = (if 64 * p + (64 - b) \<le> j \<and> j < 64 * Suc p then v else bm_bit ws j)"
      if "j < 64 * length ws" for j
    proof -
      have "bit msk (j mod 64) \<longleftrightarrow> 64 - b \<le> j mod 64" using 1(6) by (simp add: top_mask_def)
      moreover have "(j div 64 = p \<and> 64 - b \<le> j mod 64) \<longleftrightarrow> 64 * p + (64 - b) \<le> j \<and> j < 64 * Suc p"
        using word_window [of "64 - b" 64 j p] 1(4,5) by (simp add: add.commute)
      ultimately show ?thesis using bm_bit_update [OF 1(2) p that] by auto
    qed
    have "bm_bit ws' j = (if 64 * p + (64 - b) \<le> j \<and> j < 64 * p' + (64 - b') then v else bm_bit ws j)"
      if "j < 64 * length ws" for j
      using bits [OF that] one [OF that] r(7) 1(4,5) by auto
    moreover have "64 * p' + (64 - b') + unat len' = 64 * p + (64 - b) + unat len"
      "64 * p + (64 - b) \<le> 64 * p' + (64 - b')"
      using r(6,7) l le 1(4,5) by simp_all
    moreover have "range_loop upd p len bts msk ws = Ret (p', len', msk', ws')"
      using True p r(1) by (subst range_loop.simps) simp
    ultimately show ?thesis using r by blast
  next
    case False
    then have "unat len < b" using 1(3) by (simp add: word_le_nat_alt)
    moreover have "range_loop upd p len bts msk ws = Ret (p, len, msk, ws)"
      using False by (subst range_loop.simps) simp
    ultimately show ?thesis using 1 by (intro exI [of _ p] exI [of _ len] exI [of _ msk] exI [of _ ws] exI [of _ b]) auto
  qed
qed

lemma range_update_ok:
  assumes "writes upd v" and r: "unat start + unat len \<le> 64 * length ws" and "length ws < 2 ^ 58"
  shows "\<exists>ws'. range_update upd ws start len = Ret ws' \<and> length ws' = length ws \<and>
    (\<forall>j<64 * length ws. bm_bit ws' j =
       (if unat start \<le> j \<and> j < unat start + unat len then v else bm_bit ws j))"
proof -
  let ?s = "unat start" let ?b = "64 - ?s mod 64" let ?e = "?s + unat len"
  let ?bts = "kPerWordBits - (start AND kWordBitMask)"
  let ?msk = "push_bit (unat (start AND kWordBitMask)) (NOT 0) :: u64"
  have b: "1 \<le> ?b" "?b \<le> 64" "64 - ?b = ?s mod 64"
    using mod_less_divisor [of 64 ?s] by linarith+
  have s: "64 * word_at start + (64 - ?b) = ?s" by (simp add: b(3) word_at_eq)
  have bts: "unat ?bts = ?b"
    using unat_sub64 [of "start AND kWordBitMask" kPerWordBits] mod_less_divisor [of 64 ?s]
    by (simp add: unat_and_63) (simp add: kPerWordBits_def)
  have msk: "top_mask ?msk ?b" by (auto simp: top_mask_def b(3) unat_and_63 bit_simps)
  have e: "unat (start + len) = ?e" using r assms(3) by (intro unat_add64) simp
  have "64 * word_at start + (64 - ?b) + unat len \<le> 64 * length ws" using s r by simp
  from range_loop_ok [OF assms(1) bts b(1,2) msk this] obtain p' len' msk' ws' b' where
    l: "range_loop upd (word_at start) len ?bts ?msk ws = Ret (p', len', msk', ws')"
    "top_mask msk' b'" "1 \<le> b'" "b' \<le> 64" "unat len' < b'"
    and c: "64 * p' + (64 - b') + unat len' = ?e" "?s \<le> 64 * p' + (64 - b')" "length ws' = length ws"
    and bits: "\<And>j. j < 64 * length ws \<Longrightarrow> bm_bit ws' j =
      (if ?s \<le> j \<and> j < 64 * p' + (64 - b') then v else bm_bit ws j)"
    unfolding s by blast
  show ?thesis
  proof (cases "0 < len'")
    case True
    let ?last = "msk' AND drop_bit (unat (- (start + len) AND kWordBitMask)) (NOT 0)"
    have pos: "0 < unat len'" using True by (simp add: word_less_nat_alt)
    define r where "r = 64 - b' + unat len'"
    have e': "?e = 64 * p' + r" "0 < r" "r < 64"
      using c(1) pos l(4,5) by (simp_all add: r_def)
    have p: "p' < length ws" using c(1) pos r l(4) by linarith
    have k: "unat (- (start + len) AND kWordBitMask) = 64 - r"
    proof -
      have "unat (- (start + len)) = 2 ^ 64 - ?e"
      proof -
        have "start + len = of_nat ?e" by (rule word_arith_nat_add)
        moreover have "0 < ?e" "?e < 2 ^ 64" using e' r assms(3) by simp_all
        ultimately show ?thesis using unat_minus64 [of ?e] by (simp only:)
      qed
      also have "\<dots> = 64 * (2 ^ 58 - Suc p') + (64 - r)"
        using e' p assms(3) by simp
      finally show ?thesis using e'(2,3) by (simp only: unat_and_63 mod_mult_self4) simp
    qed
    have lb: "bit ?last i \<longleftrightarrow> 64 - b' \<le> i \<and> i < r" if "i < 64" for i
      using l(2) that e'(2,3) unfolding k by (auto simp: top_mask_def bit_simps)
    have "bm_bit (ws'[p' := upd (ws' ! p') ?last]) j = (if ?s \<le> j \<and> j < ?e then v else bm_bit ws j)"
      if "j < 64 * length ws" for j
    proof -
      have "(j div 64 = p' \<and> bit ?last (j mod 64)) \<longleftrightarrow> 64 * p' + (64 - b') \<le> j \<and> j < ?e"
        using word_window [of "64 - b'" r j p'] lb [of "j mod 64"] l(3) e' by simp
      then show ?thesis
        using bm_bit_update [OF assms(1), of p' ws' j ?last] that bits [OF that] c p by auto
    qed
    then show ?thesis
      using l(1) True p c(3) by (simp add: range_update_def Let_def)
  next
    case False
    then have "len' = 0" by (simp add: word_less_nat_alt unat_eq_0)
    then show ?thesis using l(1) c bits by (simp add: range_update_def Let_def)
  qed
qed

section \<open>Properties\<close>

datatype bm_op =
    BSetUnsafe u64
  | BSet u64
  | BClearUnsafe u64
  | BClear u64
  | BSetRange u64 u64
  | BClearRange u64 u64

fun bm_step :: "u64 list \<Rightarrow> bm_op \<Rightarrow> u64 list run" where
  "bm_step ws (BSetUnsafe i) = bm_SetUnsafe ws i"
| "bm_step ws (BSet i) = bm_Set ws i"
| "bm_step ws (BClearUnsafe i) = bm_ClearUnsafe ws i"
| "bm_step ws (BClear i) = bm_Clear ws i"
| "bm_step ws (BSetRange start len) = bm_SetRange ws start len"
| "bm_step ws (BClearRange start len) = bm_ClearRange ws start len"

fun bm_run :: "u64 list \<Rightarrow> bm_op list \<Rightarrow> u64 list run" where
  "bm_run ws [] = Ret ws"
| "bm_run ws (op # ops) = rbind (bm_step ws op) (\<lambda>ws'. bm_run ws' ops)"

text \<open>The same operations on a set of positions, and the positions they touch.\<close>

fun op_range :: "bm_op \<Rightarrow> nat set" where
  "op_range (BSetUnsafe i) = {unat i}"
| "op_range (BSet i) = {unat i}"
| "op_range (BClearUnsafe i) = {unat i}"
| "op_range (BClear i) = {unat i}"
| "op_range (BSetRange start len) = {unat start..<unat start + unat len}"
| "op_range (BClearRange start len) = {unat start..<unat start + unat len}"

fun op_sets :: "bm_op \<Rightarrow> bool" where
  "op_sets (BSetUnsafe i) = True"
| "op_sets (BSet i) = True"
| "op_sets (BSetRange start len) = True"
| "op_sets _ = False"

definition set_step :: "nat set \<Rightarrow> bm_op \<Rightarrow> nat set" where
  "set_step S op = (if op_sets op then S \<union> op_range op else S - op_range op)"

text \<open>The call stays inside an array of \<open>n\<close> bits (an empty range may also start at the end of it).\<close>

fun op_fits :: "nat \<Rightarrow> bm_op \<Rightarrow> bool" where
  "op_fits n (BSetRange start len) = (unat start + unat len \<le> n)"
| "op_fits n (BClearRange start len) = (unat start + unat len \<le> n)"
| "op_fits n (BSetUnsafe i) = (unat i < n)"
| "op_fits n (BSet i) = (unat i < n)"
| "op_fits n (BClearUnsafe i) = (unat i < n)"
| "op_fits n (BClear i) = (unat i < n)"

lemma unsafe_eq: "bm_SetUnsafe = bm_Set" "bm_ClearUnsafe = bm_Clear"
  by (simp_all add: fun_eq_iff bm_SetUnsafe_def bm_Set_def bm_ClearUnsafe_def bm_Clear_def
      AtomicSet_def AtomicClear_def)

lemma bm_step_bits:
  assumes "op_fits (64 * length ws) op" "length ws < 2 ^ 58"
  shows "\<exists>ws'. bm_step ws op = Ret ws' \<and> length ws' = length ws \<and>
    (\<forall>j<64 * length ws. bm_bit ws' j = (if j \<in> op_range op then op_sets op else bm_bit ws j))"
proof (cases op)
  case (BSetUnsafe i)
  then show ?thesis using assms bm_one [OF writes_set, of i ws] by (simp add: unsafe_eq bm_Set_def cong: if_cong split del: if_split)
next
  case (BSet i)
  then show ?thesis using assms bm_one [OF writes_set, of i ws] by (simp add: bm_Set_def cong: if_cong split del: if_split)
next
  case (BClearUnsafe i)
  then show ?thesis using assms bm_one [OF writes_clear, of i ws] by (simp add: unsafe_eq bm_Clear_def cong: if_cong split del: if_split)
next
  case (BClear i)
  then show ?thesis using assms bm_one [OF writes_clear, of i ws] by (simp add: bm_Clear_def cong: if_cong split del: if_split)
next
  case (BSetRange start len)
  then show ?thesis using assms range_update_ok [OF writes_set, of start len ws] by (simp add: bm_SetRange_def cong: if_cong split del: if_split)
next
  case (BClearRange start len)
  then show ?thesis using assms range_update_ok [OF writes_clear, of start len ws] by (simp add: bm_ClearRange_def cong: if_cong split del: if_split)
qed

lemma op_range_fits: "op_fits n op \<Longrightarrow> op_range op \<subseteq> {..<n}"
  by (cases op) auto

lemma bm_step_set:
  assumes "op_fits (64 * length ws) op" "length ws < 2 ^ 58"
  obtains ws' where "bm_step ws op = Ret ws'" "length ws' = length ws" "bm_set ws' = set_step (bm_set ws) op"
proof -
  obtain ws' where w: "bm_step ws op = Ret ws'" "length ws' = length ws"
    and b: "\<And>j. j < 64 * length ws \<Longrightarrow> bm_bit ws' j = (if j \<in> op_range op then op_sets op else bm_bit ws j)"
    using bm_step_bits [OF assms] by auto
  have "bm_set ws' = set_step (bm_set ws) op"
    using b w(2) op_range_fits [OF assms(1)] by (auto simp: bm_set_def set_step_def split: if_splits)
  then show thesis using that w by blast
qed

lemma bm_Get_set:
  assumes "unat i < 64 * length ws"
  shows "\<exists>r. bm_Get ws i = Ret r \<and> (r \<noteq> 0 \<longleftrightarrow> unat i \<in> bm_set ws)"
proof -
  have p: "word_at i < length ws" by (rule word_at_range [OF assms])
  have "(ws ! word_at i AND bit_at i \<noteq> 0) \<longleftrightarrow> bit (ws ! word_at i) (unat i mod 64)"
  proof -
    have "(ws ! word_at i AND bit_at i \<noteq> 0) \<longleftrightarrow> (\<exists>k. bit (ws ! word_at i AND bit_at i) k)"
      by (metis bit_eqI bit_0_eq bot_apply bot_bool_def)
    then show ?thesis by (auto simp: bit_and_iff bit_bit_at)
  qed
  then show ?thesis
    using p assms by (simp add: bm_Get_def bm_set_def bm_bit_def word_at_eq)
qed

text \<open>
  C29: the bit map is a set of positions. Any sequence of operations that stays inside the array, single
  positions and ranges, returns (no access leaves the array, the range loops end) and leaves exactly the
  positions that the same operations on a set leave; \<^verbatim>\<open>Get\<close> then tells membership. The ranges, written a
  word at a time, thus agree with their definition position by position.
\<close>

theorem bitmap_is_set:
  assumes "\<forall>op\<in>set ops. op_fits (64 * length ws) op" and "length ws < 2 ^ 58" and "unat i < 64 * length ws"
  shows "\<exists>ws' r. bm_run ws ops = Ret ws' \<and> length ws' = length ws \<and>
    bm_set ws' = foldl set_step (bm_set ws) ops \<and>
    bm_Get ws' i = Ret r \<and> (r \<noteq> 0 \<longleftrightarrow> unat i \<in> foldl set_step (bm_set ws) ops)"
  using assms
proof (induction ops arbitrary: ws)
  case Nil
  then show ?case using bm_Get_set [of i ws] by simp
next
  case (Cons op ops)
  obtain ws' where w: "bm_step ws op = Ret ws'" "length ws' = length ws" "bm_set ws' = set_step (bm_set ws) op"
    using bm_step_set [of ws op] Cons.prems by auto
  then show ?case using Cons.IH [of ws'] Cons.prems by simp
qed

theorem bitmap_is_set_witness:
  "\<exists>ws' r. bm_run [0, 0, 0] [BSetRange 60 70, BClear 64, BClearRange 100 2] = Ret ws' \<and>
     bm_Get ws' 100 = Ret r \<and> r = 0"
proof -
  have "\<exists>ws' r. bm_run [0, 0, 0] [BSetRange 60 70, BClear 64, BClearRange 100 2] = Ret ws' \<and>
    length ws' = length [0, 0, 0::u64] \<and>
    bm_set ws' = foldl set_step (bm_set [0, 0, 0]) [BSetRange 60 70, BClear 64, BClearRange 100 2] \<and>
    bm_Get ws' 100 = Ret r \<and>
    (r \<noteq> 0 \<longleftrightarrow> unat (100::u64) \<in> foldl set_step (bm_set [0, 0, 0]) [BSetRange 60 70, BClear 64, BClearRange 100 2])"
    by (rule bitmap_is_set) simp_all
  then show ?thesis by (auto simp: set_step_def)
qed

text \<open>
  A bit map placed in memory of the caller is not cleared. \<^verbatim>\<open>Create(addr, nr_valid_bits)\<close> clears
  as many bytes as there are bits in \<^verbatim>\<open>nr_valid_bits\<close>, not the \<^verbatim>\<open>2 ^ nr_valid_bits\<close> bits of the map: every
  position from 40 on keeps the value it had.
\<close>

theorem bitmap_create_keeps_bits:
  assumes "ws \<noteq> []" and "40 \<le> j"
  shows "\<exists>ws' this. bm_Create_at addr ws nr_valid_bits = Ret (ws', this) \<and> bm_bit ws' j = bm_bit ws j"
proof -
  have "clamp_bits nr_valid_bits \<le> 32" by (simp add: clamp_bits_def Let_def not_less)
  then have "unat (clamp_bits nr_valid_bits) \<le> 32" by (simp add: word_le_nat_alt)
  then have "unat ((clamp_bits nr_valid_bits + 7) div 8) \<le> 5"
    by (simp add: unat_div_distrib unat_word_ariths)
  then have "8 * unat ((clamp_bits nr_valid_bits + 7) div 8) \<le> j mod 64 \<or> j div 64 \<noteq> 0"
    using assms(2) by auto
  then show ?thesis
    using assms(1) by (cases ws) (auto simp: bm_Create_at_def Let_def bm_bit_def bit_simps nth_Cons split: nat.splits)
qed

theorem bitmap_create_keeps_bits_witness:
  "\<exists>ws' this. bm_Create_at 4096 (replicate 4 (NOT 0)) 8 = Ret (ws', this) \<and> bm_bit ws' 200"
proof -
  have "bm_bit (replicate 4 (NOT 0)) 200" by code_simp
  then show ?thesis
    using bitmap_create_keeps_bits [of "replicate 4 (NOT 0)" 200 4096 8] by simp
qed

text \<open>
  The tag in bit 48 of the object pointer. For every address below it, an object placed there is never
  freed by \<^verbatim>\<open>Destroy\<close> while an allocated one is, and the operations find the same words behind either pointer.
\<close>

theorem bitmap_tag:
  assumes "unat addr < 2 ^ 48" and "bm_Create_at addr ws nr_valid_bits = Ret (ws', this)"
  shows "\<not> bm_frees this \<and> bm_frees addr \<and> bm_base this = addr \<and> bm_base addr = addr"
proof -
  have th: "this = addr OR ADK_BITMAP_NOALLOC_FLAG"
    using assms(2) by (auto simp: bm_Create_at_def Let_def rbind_Ret_iff)
  have m: "ADK_ADDRESS_MASK = mask 48" and fl: "ADK_BITMAP_NOALLOC_FLAG = push_bit 48 1"
    by (simp_all add: ADK_ADDRESS_MASK_def ADK_BITMAP_NOALLOC_FLAG_def mask_eq_exp_minus_1)
  have f: "bit ADK_BITMAP_NOALLOC_FLAG k \<longleftrightarrow> k = 48" for k
    unfolding fl bit_push_bit_iff by (auto simp: bit_1_iff)
  have t: "take_bit 48 addr = addr"
  proof -
    have "unat (take_bit 48 addr) = unat addr" using assms(1) by (simp add: unsigned_take_bit_eq take_bit_nat_eq_self)
    then show ?thesis by (simp add: word_unat_eq_iff)
  qed
  have b: "k < 48" if "bit addr k" for k
    using that bit_take_bit_iff [of 48 addr k] unfolding t by simp
  have "bit (this AND ADK_BITMAP_NOALLOC_FLAG) 48" unfolding th by (simp add: bit_simps f)
  then have "\<not> bm_frees this" by (metis bm_frees_def bit_0_eq bot_apply bot_bool_def)
  moreover have "bm_frees addr" unfolding bm_frees_def by (intro bit_eqI) (auto simp: bit_simps f dest: b)
  moreover have "bm_base addr = addr" unfolding bm_base_def m by (metis t take_bit_eq_mask)
  moreover have "bm_base this = addr"
    unfolding bm_base_def th m by (intro bit_eqI) (auto simp: bit_simps f dest: b)
  ultimately show ?thesis by simp
qed

theorem bitmap_tag_witness:
  "\<exists>ws' this. bm_Create_at 4096 [0, 0, 0, 0] 8 = Ret (ws', this) \<and> \<not> bm_frees this \<and> bm_base this = 4096"
proof -
  obtain ws' this where c: "bm_Create_at 4096 [0, 0, 0, 0] 8 = Ret (ws', this)"
    by (simp add: bm_Create_at_def Let_def)
  then show ?thesis using bitmap_tag [OF _ c] by simp
qed

end
