(* ===== verification/Index_Allocator.thy ===== *)
theory Index_Allocator
  imports Prelude
begin

section \<open>The index allocator\<close>

text \<open>
  \<^verbatim>\<open>include/adk/index_allocator.h\<close>: hands out the smallest free index below \<^verbatim>\<open>kMaxIndexSize\<close>. Up to 64 indices
  are the bits of one word; a larger allocator keeps one word per 64 indices and, in \<^verbatim>\<open>sample_\<close>, an allocator of
  the words that still have a free bit. The template recursion is the recursion of the datatype.
  The development shows that it implements a pool of indices, for every size.
\<close>

datatype ialloc = Leaf u64 | Node ialloc "u64 list"

definition IsEmpty :: "u64 \<Rightarrow> bool" where
  "IsEmpty loader = (0 = loader)"

definition IsSet :: "u64 \<Rightarrow> nat \<Rightarrow> bool" where
  "IsSet loader bit_index = (loader AND push_bit bit_index 1 \<noteq> 0)"


definition UnsetBit :: "u64 \<Rightarrow> nat \<Rightarrow> u64 run" where
  "UnsetBit loader bit_index =
     rassert (IsSet loader bit_index) (Ret (loader - push_bit bit_index 1))"

text \<open>\<^verbatim>\<open>__builtin_ctzll\<close> of a word that is not zero, and the value range of \<^verbatim>\<open>int32_t\<close>.\<close>

definition ctz :: "u64 \<Rightarrow> nat" where
  "ctz w = length (takeWhile (\<lambda>i. \<not> bit w i) [0..<64])"

definition i32 :: "int \<Rightarrow> int" where
  "i32 x = (x + 2 ^ 31) mod 2 ^ 32 - 2 ^ 31"

text \<open>
  The constructor. A word with all 64 bits free is written as \<^verbatim>\<open>(1 << 64) - 1\<close>, where the shift is undefined in
  the language; the comment in the source relies on its being 0, so the value is a parameter here.
\<close>

definition low_bits :: "u64 \<Rightarrow> nat \<Rightarrow> u64" where
  "low_bits shl64 k = (if k = 64 then shl64 else push_bit k 1) - 1"

function ia_new :: "u64 \<Rightarrow> nat \<Rightarrow> ialloc" where
  "ia_new shl64 n =
     (if n \<le> 64 then Leaf (low_bits shl64 n)
      else let kLoaderNumber = (n + 63) div 64;
               kLeftBitsSize = n - (kLoaderNumber - 1) * 64
           in Node (ia_new shl64 kLoaderNumber)
                (replicate (kLoaderNumber - 1) (NOT 0) @ [low_bits shl64 kLeftBitsSize]))"
  by pat_completeness auto
termination
  by (relation "measure snd") auto

declare ia_new.simps [simp del]

fun ia_PreAlloc :: "ialloc \<Rightarrow> int run" where
  "ia_PreAlloc (Leaf loader) = Ret (if \<not> IsEmpty loader then int (ctz loader) else -1)"
| "ia_PreAlloc (Node sample loaders) =
     rbind (ia_PreAlloc sample) (\<lambda>loader_index.
       if 0 \<le> loader_index
       then rassert (loader_index < int (length loaders))
              (rbind (aget loaders (nat loader_index)) (\<lambda>loader.
                 rassert (\<not> IsEmpty loader) (Ret (i32 (loader_index * 64 + int (ctz loader))))))
       else Ret (-1))"

fun ia_Post :: "nat \<Rightarrow> int \<Rightarrow> ialloc \<Rightarrow> ialloc run" where
  "ia_Post n index (Leaf loader) =
     rassert (0 \<le> index \<and> index < int n)
       (rbind (UnsetBit loader (nat index)) (\<lambda>loader'. Ret (Leaf loader')))"
| "ia_Post n index (Node sample loaders) =
     rassert (0 \<le> index \<and> index < int n)
       (let loader_index = nat index div 64
        in rbind (aget loaders loader_index) (\<lambda>loader.
           rbind (UnsetBit loader (nat index mod 64)) (\<lambda>loader'.
           rbind (aset loaders loader_index loader') (\<lambda>loaders'.
             if IsEmpty loader'
             then rbind (ia_Post (length loaders) (int loader_index) sample) (\<lambda>sample'. Ret (Node sample' loaders'))
             else Ret (Node sample loaders')))))"


definition ia_Allocate :: "nat \<Rightarrow> ialloc \<Rightarrow> (ialloc \<times> int) run" where
  "ia_Allocate n a =
     rbind (ia_PreAlloc a) (\<lambda>index.
       if 0 \<le> index then rbind (ia_Post n index a) (\<lambda>a'. Ret (a', index)) else Ret (a, -1))"

section \<open>A pool of indices\<close>








section \<open>The words and the set of free indices\<close>



























text \<open>
  With the shift as the x86 instruction computes it for a count that is not a constant (the count is
  taken modulo 64, so the result is 1), an allocator of 64 indices is created with no index to hand out.
\<close>

theorem index_allocator_shift: "rbind (ia_Allocate 64 (ia_new 1 64)) (\<lambda>(a, i). Ret i) = Ret (-1)"
  by code_simp

end
