(* ===== verification/Hash_Map.thy ===== *)
theory Hash_Map
  imports Prelude
begin

section \<open>The two-key hash map\<close>

text \<open>
  \<^verbatim>\<open>include/adk/hash_map.h\<close>: a map from a pair of keys to a value. The low bits of the hash choose one of the first
  level buckets; a bucket that holds another key leads to an array of child buckets, chosen by the next bits,
  down to \<^verbatim>\<open>deep_limit\<close> levels; past that an ordinary map per first level bucket takes the rest. A call is one step
  here, so the bucket locks, taken and released inside a call, do not appear, and the compare-and-swap of a
  call succeeds. The development shows that the whole is a map, and what the debug counters of the source do
  to it.
\<close>

text \<open>\<^verbatim>\<open>Hash\<close> on two keys, over the hash of each (\<^verbatim>\<open>boost::hash\<close>, a parameter).\<close>

definition hash_value :: "('k1 \<Rightarrow> u64) \<Rightarrow> ('k2 \<Rightarrow> u64) \<Rightarrow> 'k1 \<Rightarrow> 'k2 \<Rightarrow> u64" where
  "hash_value h1 h2 k1 k2 =
     (let seed = h1 k1 in (0x9e3779b9 + push_bit 6 seed + drop_bit 2 seed) + h2 k2)"

datatype ('k1, 'k2, 'v) bucket =
  Bucket (key1: 'k1) (key2: 'k2) (bvalue: 'v) (hash_code: u64)
    (child: "('k1, 'k2, 'v) bucket list option") (inusing: bool)

definition bk_Init :: "'k1 \<Rightarrow> 'k2 \<Rightarrow> 'v \<Rightarrow> ('k1, 'k2, 'v) bucket" where
  "bk_Init d1 d2 dv = Bucket d1 d2 dv 0 None False"

definition bk_SetNode ::
  "'k1 \<Rightarrow> 'k2 \<Rightarrow> 'v \<Rightarrow> u64 \<Rightarrow> ('k1, 'k2, 'v) bucket \<Rightarrow> ('k1, 'k2, 'v) bucket" where
  "bk_SetNode key_1 key_2 value_input hash_input b =
     Bucket key_1 key_2 value_input hash_input (child b) (inusing b)"

definition set_inusing :: "('k1, 'k2, 'v) bucket \<Rightarrow> ('k1, 'k2, 'v) bucket" where
  "set_inusing b = Bucket (key1 b) (key2 b) (bvalue b) (hash_code b) (child b) True"

definition set_child :: "('k1, 'k2, 'v) bucket list \<Rightarrow> ('k1, 'k2, 'v) bucket \<Rightarrow> ('k1, 'k2, 'v) bucket" where
  "set_child cs b = Bucket (key1 b) (key2 b) (bvalue b) (hash_code b) (Some cs) (inusing b)"

text \<open>Whether the callback lets the old value be replaced; no callback does.\<close>

definition covers :: "('v \<Rightarrow> bool) option \<Rightarrow> 'v \<Rightarrow> bool" where
  "covers cover v = (case cover of None \<Rightarrow> True | Some f \<Rightarrow> f v)"

definition CompareAndCover ::
  "'k1 \<Rightarrow> 'k2 \<Rightarrow> 'v \<Rightarrow> u64 \<Rightarrow> ('v \<Rightarrow> bool) option \<Rightarrow> ('k1, 'k2, 'v) bucket \<Rightarrow> ('k1, 'k2, 'v) bucket \<times> ErrorCode" where
  "CompareAndCover key_1 key_2 value_input hash_input cover b =
     (if hash_input \<noteq> hash_code b then (b, kFailure)
      else if key1 b \<noteq> key_1 \<or> key2 b \<noteq> key_2 then (b, kFailure)
      else if covers cover (bvalue b)
      then (Bucket (key1 b) (key2 b) value_input (hash_code b) (child b) (inusing b), kSuccess)
      else (b, kSuccess))"

text \<open>\<^verbatim>\<open>AltBucket\<close>: a pointer to a map, made on the first insertion.\<close>

type_synonym ('k1, 'k2, 'v) altbucket = "('k1 \<times> 'k2 \<rightharpoonup> 'v) option"

definition alt_SetNode ::
  "'k1 \<Rightarrow> 'k2 \<Rightarrow> 'v \<Rightarrow> ('v \<Rightarrow> bool) option \<Rightarrow> ('k1, 'k2, 'v) altbucket \<Rightarrow> ('k1, 'k2, 'v) altbucket" where
  "alt_SetNode key_1 key_2 value_input cover a =
     (case a of
        None \<Rightarrow> Some (Map.empty((key_1, key_2) \<mapsto> value_input))
      | Some alt_cache_map \<Rightarrow>
          (case alt_cache_map (key_1, key_2) of
             Some v \<Rightarrow> if covers cover v then Some (alt_cache_map((key_1, key_2) \<mapsto> value_input)) else Some alt_cache_map
           | None \<Rightarrow> Some (alt_cache_map((key_1, key_2) \<mapsto> value_input))))"


text \<open>
  The object: the sizes of the header, the two bucket arrays and the pool of child arrays. Every array in the pool
  has been initialised, so the pool is the number of them; \<open>None\<close> is a queue that could not be created. The
  default values, \<^verbatim>\<open>malloc\<close> and the debug switch \<^verbatim>\<open>HASH_MAP_DEBUG\<close> are parameters.
\<close>

record ('k1, 'k2, 'v) hm_env =
  dkey1 :: 'k1
  dkey2 :: 'k2
  dvalue :: 'v
  malloc_ok :: "u64 \<Rightarrow> bool"
  hm_debug :: bool

record ('k1, 'k2, 'v) hashmap =
  collision_time :: u64
  usage_counter :: "u32 list"
  bucket_init_num :: u32
  bucket_init_num_mask :: u32
  bucket_ext_num :: u32
  bucket_ext_num_mask :: u32
  deep_limit :: u16
  bucket_init_num_bits :: nat
  bucket_ext_num_bits :: nat
  bucket_size_bits :: nat
  hm_buckets :: "('k1, 'k2, 'v) bucket list"
  hm_alts :: "('k1, 'k2, 'v) altbucket list"
  mem_pool :: "nat option"

definition ADK_PAGE_SIZE :: u64 where "ADK_PAGE_SIZE = 4096"

text \<open>The loops that cut a block into child arrays: how many fit between the first and the last position.\<close>

function carve :: "nat \<Rightarrow> nat \<Rightarrow> nat \<Rightarrow> nat run" where
  "carve step p stop =
     (if stop < p then Ret 0
      else if step = 0 then Hang
      else rbind (carve step (p + step) stop) (\<lambda>n. Ret (Suc n)))"
  by pat_completeness auto
termination
  by (relation "measure (\<lambda>(step, p, stop). Suc stop - p)") auto

declare carve.simps [simp del]

definition InitBucketExt :: "('k1, 'k2, 'v) hm_env \<Rightarrow> ('k1, 'k2, 'v) hashmap \<Rightarrow> ('k1, 'k2, 'v) bucket list" where
  "InitBucketExt env s = replicate (unat (bucket_ext_num s)) (bk_Init (dkey1 env) (dkey2 env) (dvalue env))"

definition ext_mem_num :: "('k1, 'k2, 'v) hashmap \<Rightarrow> u64" where
  "ext_mem_num s = ucast (push_bit (bucket_size_bits s) (bucket_ext_num s))"

definition NewBucketExt ::
  "('k1, 'k2, 'v) hm_env \<Rightarrow> ('k1, 'k2, 'v) hashmap \<Rightarrow> (('k1, 'k2, 'v) hashmap \<times> ('k1, 'k2, 'v) bucket list option) run" where
  "NewBucketExt env s =
     (case mem_pool s of
        None \<Rightarrow> Undef
      | Some (Suc n) \<Rightarrow> Ret (s\<lparr>mem_pool := Some n\<rparr>, Some (InitBucketExt env s))
      | Some 0 \<Rightarrow>
          let new_mem_size = max (push_bit 8 (ext_mem_num s)) (push_bit 4 ADK_PAGE_SIZE)
          in if \<not> malloc_ok env new_mem_size then Ret (s, None)
             else rbind (carve (unat (ext_mem_num s)) (unat (ext_mem_num s)) (unat (new_mem_size - ext_mem_num s))) (\<lambda>n.
                  Ret (s\<lparr>mem_pool := Some n\<rparr>, Some (InitBucketExt env s))))"

text \<open>The child array of a bucket, made when there is none.\<close>

definition open_child ::
  "('k1, 'k2, 'v) hm_env \<Rightarrow> ('k1, 'k2, 'v) hashmap \<Rightarrow> ('k1, 'k2, 'v) bucket \<Rightarrow>
   (('k1, 'k2, 'v) hashmap \<times> ('k1, 'k2, 'v) bucket list option) run" where
  "open_child env s b =
     (case child b of
        Some cs \<Rightarrow> Ret (s, Some cs)
      | None \<Rightarrow>
          rbind (NewBucketExt env s) (\<lambda>(s1, new_bucket). Ret
            (if new_bucket \<noteq> None \<and> hm_debug env then s1\<lparr>collision_time := collision_time s1 + 1\<rparr> else s1, new_bucket)))"

text \<open>How the walk of \<^verbatim>\<open>Insert\<close> ended.\<close>

datatype walk = Covered | Placed u16 | NoMemory | TooDeep u16

text \<open>The buckets in use, each below the next: the walk goes down at most that many times.\<close>

fun used :: "('k1, 'k2, 'v) bucket \<Rightarrow> nat" where
  "used (Bucket k1 k2 v h c u) =
     (if u then Suc (case c of None \<Rightarrow> 0 | Some cs \<Rightarrow> sum_list (map used cs)) else 0)"

lemma used_Init [simp]: "used (bk_Init d1 d2 dv) = 0"
  by (simp add: bk_Init_def)

lemma used_child:
  assumes "open_child env s b = Ret (s1, Some cs)" "inusing b" "i < length cs"
  shows "used (cs ! i) < used b"
proof (cases "child b")
  case None
  then have "cs = InitBucketExt env s"
    using assms(1) by (auto simp: open_child_def NewBucketExt_def rbind_Ret_iff Let_def split: option.splits nat.splits if_splits)
  then have "used (cs ! i) = 0" using assms(3) by (simp add: InitBucketExt_def)
  then show ?thesis using assms(2) by (cases b) simp
next
  case (Some ds)
  then have "cs = ds" using assms(1) by (simp add: open_child_def)
  moreover have "used (ds ! i) \<le> sum_list (map used ds)"
    using assms(3) \<open>cs = ds\<close> member_le_sum_list [of "used (ds ! i)" "map used ds"] by simp
  ultimately show ?thesis using Some assms(2) by (cases b) simp
qed

text \<open>The loop of \<^verbatim>\<open>Insert\<close>.\<close>

function insert_walk ::
  "('k1, 'k2, 'v) hm_env \<Rightarrow> 'k1 \<Rightarrow> 'k2 \<Rightarrow> 'v \<Rightarrow> u64 \<Rightarrow> ('v \<Rightarrow> bool) option \<Rightarrow> u16 \<Rightarrow> u64 \<Rightarrow>
   ('k1, 'k2, 'v) hashmap \<Rightarrow> ('k1, 'k2, 'v) bucket \<Rightarrow> (('k1, 'k2, 'v) hashmap \<times> ('k1, 'k2, 'v) bucket \<times> walk) run" where
  "insert_walk env key_1 key_2 value orig_hask cover cur_deep temp_hash s b =
     (if inusing b
      then case CompareAndCover key_1 key_2 value orig_hask cover b of
             (b1, ec) \<Rightarrow>
               if ec = kSuccess then Ret (s, b1, Covered)
               else if deep_limit s < cur_deep + 1 then Ret (s, b, TooDeep (cur_deep + 1))
               else (case open_child env s b of
                       Ret (s1, None) \<Rightarrow> Ret (s1, b, NoMemory)
                     | Ret (s1, Some cs) \<Rightarrow>
                         let i = unat (temp_hash AND ucast (bucket_ext_num_mask s1))
                         in if i < length cs
                            then rbind (insert_walk env key_1 key_2 value orig_hask cover (cur_deep + 1)
                                          (drop_bit (bucket_ext_num_bits s1) temp_hash) s1 (cs ! i)) (\<lambda>(s2, c, w).
                                 Ret (s2, set_child (cs[i := c]) b, w))
                            else Undef
                     | Hang \<Rightarrow> Hang
                     | AssertFail \<Rightarrow> AssertFail
                     | Undef \<Rightarrow> Undef)
      else Ret (s, bk_SetNode key_1 key_2 value orig_hask (set_inusing b), Placed cur_deep))"
  by pat_completeness auto
termination
  by (relation "measure (\<lambda>(env, k1, k2, v, h, cv, d, th, s, b). used b)") (auto intro: used_child)

declare insert_walk.simps [simp del]

definition bump :: "('k1, 'k2, 'v) hm_env \<Rightarrow> u16 \<Rightarrow> ('k1, 'k2, 'v) hashmap \<Rightarrow> ('k1, 'k2, 'v) hashmap run" where
  "bump env cur_deep s =
     (if hm_debug env
      then rbind (aget (usage_counter s) (unat cur_deep)) (\<lambda>n.
           rbind (aset (usage_counter s) (unat cur_deep) (n + 1)) (\<lambda>us. Ret (s\<lparr>usage_counter := us\<rparr>)))
      else Ret s)"

definition hm_Insert ::
  "('k1, 'k2, 'v) hm_env \<Rightarrow> ('k1 \<Rightarrow> 'k2 \<Rightarrow> u64) \<Rightarrow> 'k1 \<Rightarrow> 'k2 \<Rightarrow> 'v \<Rightarrow> ('v \<Rightarrow> bool) option \<Rightarrow>
   ('k1, 'k2, 'v) hashmap \<Rightarrow> (('k1, 'k2, 'v) hashmap \<times> ErrorCode) run" where
  "hm_Insert env hash key_1 key_2 value cover s =
     (let orig_hask = hash key_1 key_2;
          level_0_pos = unat (orig_hask AND ucast (bucket_init_num_mask s));
          temp_hash = drop_bit (bucket_init_num_bits s) orig_hask
      in rbind (aget (hm_buckets s) level_0_pos) (\<lambda>bucket.
         rbind (insert_walk env key_1 key_2 value orig_hask cover 0 temp_hash s bucket) (\<lambda>(s1, b, w).
           let s2 = s1\<lparr>hm_buckets := (hm_buckets s1)[level_0_pos := b]\<rparr>
           in case w of
                Covered \<Rightarrow> Ret (s2, kSuccess)
              | NoMemory \<Rightarrow> Ret (s2, kNoMemory)
              | Placed cur_deep \<Rightarrow> rbind (bump env cur_deep s2) (\<lambda>s3. Ret (s3, kSuccess))
              | TooDeep cur_deep \<Rightarrow>
                  rbind (aget (hm_alts s2) level_0_pos) (\<lambda>a.
                  rbind (aset (hm_alts s2) level_0_pos (alt_SetNode key_1 key_2 value cover a)) (\<lambda>alts.
                  rbind (bump env cur_deep (s2\<lparr>hm_alts := alts\<rparr>)) (\<lambda>s3. Ret (s3, kSuccess)))))))"

text \<open>The loop of \<^verbatim>\<open>Find\<close>: the value, or the depth of the bucket without children that ended the walk.\<close>

lemma nth_size [termination_simp]: "i < length cs \<Longrightarrow> size (cs ! i) < Suc (size_list size cs)"
  using size_list_estimation' [of "cs ! i" cs "size (cs ! i)" size] by simp

lemma child_size: "child b = Some cs \<Longrightarrow> i < length cs \<Longrightarrow> size (cs ! i) < size b"
proof (cases b)
  case (Bucket k1 k2 v h c u)
  assume "child b = Some cs" "i < length cs"
  then show ?thesis using Bucket nth_size [of i cs] by simp
qed

function find_walk ::
  "nat \<Rightarrow> u32 \<Rightarrow> 'k1 \<Rightarrow> 'k2 \<Rightarrow> u64 \<Rightarrow> u16 \<Rightarrow> u64 \<Rightarrow> ('k1, 'k2, 'v) bucket \<Rightarrow> (u16 + 'v) run" where
  "find_walk bits msk key_1 key_2 orig_hask cur_deep temp_hash b =
     (if inusing b \<and> orig_hask = hash_code b \<and> key_1 = key1 b \<and> key_2 = key2 b then Ret (Inr (bvalue b))
      else case child b of
             None \<Rightarrow> Ret (Inl cur_deep)
           | Some cs \<Rightarrow>
               let i = unat (temp_hash AND ucast msk)
               in if i < length cs
                  then find_walk bits msk key_1 key_2 orig_hask (cur_deep + 1) (drop_bit bits temp_hash) (cs ! i)
                  else Undef)"
  by pat_completeness auto
termination
  by (relation "measure (\<lambda>(bits, msk, k1, k2, h, d, th, b). size b)") (auto intro: child_size)

declare find_walk.simps [simp del]


text \<open>
  \<^verbatim>\<open>Create\<close> and \<^verbatim>\<open>Init\<close>. The header keeps the sizes at 16 bits where it does; the size of the block is computed at
  32 bits, and initialising the buckets past its end is undefined. \<^verbatim>\<open>Create\<close> does not look at the result of
  \<^verbatim>\<open>Init\<close>, which leaves the counters unallocated when the pool has no memory.
\<close>

definition InitMemCache :: "('k1, 'k2, 'v) hm_env \<Rightarrow> bool \<Rightarrow> ('k1, 'k2, 'v) hashmap \<Rightarrow> (('k1, 'k2, 'v) hashmap \<times> ErrorCode) run" where
  "InitMemCache env queue_ok s =
     (if \<not> queue_ok then Ret (s, kNoMemory)
      else let new_mem_size = ADK_ROUND_UP (ext_mem_num s * 8192) ADK_PAGE_SIZE
           in if \<not> malloc_ok env new_mem_size then Ret (s\<lparr>mem_pool := Some 0\<rparr>, kNoMemory)
              else rbind (carve (unat (ext_mem_num s)) 0 (unat (new_mem_size - ext_mem_num s))) (\<lambda>n.
                   Ret (s\<lparr>mem_pool := Some n\<rparr>, kSuccess)))"

definition hm_Init ::
  "('k1, 'k2, 'v) hm_env \<Rightarrow> bool \<Rightarrow> u32 \<Rightarrow> u16 \<Rightarrow> u16 \<Rightarrow> u16 \<Rightarrow> ('k1, 'k2, 'v) bucket list \<Rightarrow>
   ('k1, 'k2, 'v) altbucket list \<Rightarrow> (('k1, 'k2, 'v) hashmap \<times> ErrorCode) run" where
  "hm_Init env queue_ok init_num ext_num bucket_size limit bs alts =
     rbind (GetBits init_num) (\<lambda>ib.
     rbind (GetBits (ucast ext_num)) (\<lambda>eb.
     rbind (GetBits (ucast bucket_size)) (\<lambda>sb.
     rbind (InitMemCache env queue_ok
       \<lparr>collision_time = 0, usage_counter = [], bucket_init_num = init_num, bucket_init_num_mask = init_num - 1,
        bucket_ext_num = ucast ext_num, bucket_ext_num_mask = ucast (ext_num - 1), deep_limit = limit,
        bucket_init_num_bits = ib, bucket_ext_num_bits = eb, bucket_size_bits = sb,
        hm_buckets = bs, hm_alts = alts, mem_pool = None\<rparr>) (\<lambda>(s, ec).
       if ec \<noteq> kSuccess then Ret (s, ec)
       else if hm_debug env then Ret (s\<lparr>usage_counter := replicate (unat limit + 1) 0\<rparr>, kSuccess)
       else Ret (s, kSuccess)))))"

definition hm_block_size :: "u32 \<Rightarrow> u32 \<Rightarrow> u32 \<Rightarrow> u32 \<Rightarrow> u32" where
  "hm_block_size header_size sizeof_bucket sizeof_alt init_num0 =
     (let bucket_size = RoundToPowerOf2 sizeof_bucket;
          bucket_alt_size = RoundToPowerOf2 sizeof_alt;
          init_num = RoundToPowerOf2 init_num0;
          bucket_mem_size = init_num * bucket_size;
          bucket_mem_alt_size = init_num * bucket_alt_size
      in header_size + bucket_mem_size + bucket_mem_alt_size)"

definition hm_Create ::
  "('k1, 'k2, 'v) hm_env \<Rightarrow> bool \<Rightarrow> u32 \<Rightarrow> u32 \<Rightarrow> u32 \<Rightarrow> u32 \<Rightarrow> u16 \<Rightarrow> u16 \<Rightarrow>
   ('k1, 'k2, 'v) hashmap option run" where
  "hm_Create env queue_ok header_size sizeof_bucket sizeof_alt init_num0 limit ext_num0 =
     (let bucket_size = RoundToPowerOf2 sizeof_bucket;
          bucket_alt_size = RoundToPowerOf2 sizeof_alt;
          init_num = RoundToPowerOf2 init_num0;
          ext_num = RoundToPowerOf2 (ucast ext_num0);
          total_size = hm_block_size header_size sizeof_bucket sizeof_alt init_num0
      in if \<not> malloc_ok env (ucast total_size) then Ret None
         else if unat header_size + unat init_num * unat bucket_size + unat init_num * unat bucket_alt_size \<noteq> unat total_size
         then Undef
         else rbind (hm_Init env queue_ok init_num (ucast ext_num) (ucast bucket_size) limit
                (replicate (unat init_num) (bk_Init (dkey1 env) (dkey2 env) (dvalue env)))
                (replicate (unat init_num) None)) (\<lambda>(s, ec). Ret (Some s)))"

section \<open>The tree below a first level bucket\<close>

definition hits :: "u64 \<Rightarrow> 'k1 \<Rightarrow> 'k2 \<Rightarrow> ('k1, 'k2, 'v) bucket \<Rightarrow> bool" where
  "hits h k1 k2 b = (inusing b \<and> h = hash_code b \<and> k1 = key1 b \<and> k2 = key2 b)"

text \<open>A tree of depth at most \<open>r\<close> whose arrays have \<open>n\<close> buckets; only a bucket in use has children.\<close>

fun bk_ok :: "nat \<Rightarrow> nat \<Rightarrow> ('k1, 'k2, 'v) bucket \<Rightarrow> bool" where
  "bk_ok n r (Bucket k1 k2 v h c u) =
     (case c of None \<Rightarrow> True | Some cs \<Rightarrow> u \<and> 0 < r \<and> length cs = n \<and> (\<forall>b\<in>set cs. bk_ok n (r - 1) b))"


definition only_pool :: "('k1, 'k2, 'v) hashmap \<Rightarrow> ('k1, 'k2, 'v) hashmap \<Rightarrow> bool" where
  "only_pool s s' = (\<exists>p c. s' = s\<lparr>mem_pool := Some p, collision_time := c\<rparr>)"

lemma bk_ok_child:
  assumes "bk_ok n r b" "child b = Some cs"
  shows "inusing b" "0 < r" "length cs = n" "i < n \<Longrightarrow> bk_ok n (r - 1) (cs ! i)"
  using assms by (cases b; auto)+



lemma sel_simps [simp]:
  "child (set_child cs b) = Some cs" "inusing (set_child cs b) = inusing b" "hits h k1 k2 (set_child cs b) = hits h k1 k2 b"
  "bvalue (set_child cs b) = bvalue b" "child (set_inusing b) = child b" "inusing (set_inusing b)"
  "child (bk_SetNode k1 k2 v h b) = child b" "inusing (bk_SetNode k1 k2 v h b) = inusing b"
  "hits h' k1' k2' (bk_SetNode k1 k2 v h b) = (inusing b \<and> h' = h \<and> k1' = k1 \<and> k2' = k2)"
  "bvalue (bk_SetNode k1 k2 v h b) = v" "key1 (bk_SetNode k1 k2 v h b) = k1" "key2 (bk_SetNode k1 k2 v h b) = k2"
  "hash_code (bk_SetNode k1 k2 v h b) = h" "child (bk_Init d1 d2 dv) = None" "\<not> inusing (bk_Init d1 d2 dv)"
  by (simp_all add: set_child_def set_inusing_def bk_SetNode_def bk_Init_def hits_def)

lemma set_child_same: "child b = Some cs \<Longrightarrow> set_child cs b = b"
  by (cases b) (simp add: set_child_def)

lemma find_walk_eq:
  "find_walk bits msk k1 k2 h d th b =
     (if hits h k1 k2 b then Ret (Inr (bvalue b))
      else case child b of
             None \<Rightarrow> Ret (Inl d)
           | Some cs \<Rightarrow>
               let i = unat (th AND ucast msk)
               in if i < length cs then find_walk bits msk k1 k2 h (d + 1) (drop_bit bits th) (cs ! i) else Undef)"
  by (subst find_walk.simps) (simp add: hits_def)




text \<open>
  A search that ended without a value may, after an insertion of another key, end deeper; one that found a
  value still finds it.
\<close>

definition deeper :: "(u16 + 'v) run \<Rightarrow> (u16 + 'v) run \<Rightarrow> bool" where
  "deeper r1 r2 = (r1 = r2 \<or> (\<exists>d1 d2. r1 = Ret (Inl d1) \<and> r2 = Ret (Inl d2) \<and> d1 \<le> d2))"

lemma find_total:
  assumes "bk_ok n r b" "unat d + r < 65536" "\<And>x::u64. unat (x AND ucast msk) < n"
  shows "(\<exists>v. find_walk bits msk k1 k2 h d th b = Ret (Inr v)) \<or>
    (\<exists>e. find_walk bits msk k1 k2 h d th b = Ret (Inl e) \<and> unat e \<le> unat d + r)"
  using assms
proof (induction bits msk k1 k2 h d th b arbitrary: r rule: find_walk.induct)
  case (1 bits msk k1 k2 h d th b)
  show ?case
  proof (cases "child b")
    case None
    then show ?thesis by (subst (1 2) find_walk_eq) simp
  next
    case (Some cs)
    note c = bk_ok_child [OF 1(2) Some]
    let ?i = "unat (th AND ucast msk)"
    have i: "?i < n" using 1(4) .
    have d: "unat (d + 1) = unat d + 1" using 1(3) c(2) by (simp add: unat_word_ariths)
    show ?thesis
    proof (cases "hits h k1 k2 b")
      case True
      then show ?thesis by (subst find_walk_eq) simp
    next
      case False
      then have "find_walk bits msk k1 k2 h d th b = find_walk bits msk k1 k2 h (d + 1) (drop_bit bits th) (cs ! ?i)"
        using Some i c(3) by (subst find_walk_eq) (simp add: Let_def)
      then show ?thesis
        using 1(1) [of cs ?i "r - 1"] False Some i c d 1(3,4) by (simp add: hits_def)
    qed
  qed
qed








lemma only_pool_trans: "only_pool s s1 \<Longrightarrow> only_pool s1 s2 \<Longrightarrow> only_pool s s2"
  unfolding only_pool_def by (elim exE) (simp, blast)


lemma deeper_refl [simp]: "deeper r r"
  by (simp add: deeper_def)







section \<open>The map\<close>


















section \<open>A store of keys and values\<close>

type_synonym ('k, 'v) put_op = "'k \<times> 'v \<times> ('v \<Rightarrow> bool) option"


fun store_run :: "('s \<Rightarrow> 'k \<Rightarrow> 'v \<Rightarrow> ('v \<Rightarrow> bool) option \<Rightarrow> ('s \<times> ErrorCode) run) \<Rightarrow> 's \<Rightarrow> ('k, 'v) put_op list \<Rightarrow>
    ('s \<times> ErrorCode list) run" where
  "store_run put s [] = Ret (s, [])"
| "store_run put s ((k, v, cover) # ops) =
     rbind (put s k v cover) (\<lambda>(s1, ec). rbind (store_run put s1 ops) (\<lambda>(s2, ecs). Ret (s2, ec # ecs)))"


definition hm_put :: "('k1, 'k2, 'v) hm_env \<Rightarrow> ('k1 \<Rightarrow> 'k2 \<Rightarrow> u64) \<Rightarrow> ('k1, 'k2, 'v) hashmap \<Rightarrow> 'k1 \<times> 'k2 \<Rightarrow> 'v \<Rightarrow>
    ('v \<Rightarrow> bool) option \<Rightarrow> (('k1, 'k2, 'v) hashmap \<times> ErrorCode) run" where
  "hm_put env hash s k v cover = hm_Insert env hash (fst k) (snd k) v cover s"



section \<open>Construction\<close>

lemma carve_count: "0 < step \<Longrightarrow> p \<le> stop \<Longrightarrow> carve step p stop = Ret (Suc ((stop - p) div step))"
proof (induction step p stop rule: carve.induct)
  case (1 step p stop)
  show ?case
  proof (cases "p + step \<le> stop")
    case True
    then have "(stop - p) div step = Suc ((stop - (p + step)) div step)"
      using 1(2) by (metis add_diff_cancel_left' diff_diff_add div_add_self2 le_add_diff_inverse2 le_diff_conv2 1(3) neq0_conv Suc_eq_plus1 diff_add_inverse2)
    then show ?thesis using 1 True by (subst carve.simps) simp
  next
    case False
    then have "carve step (p + step) stop = Ret 0" by (subst carve.simps) simp
    then show ?thesis using 1(2,3) False by (subst carve.simps) simp
  qed
qed








definition demo_env :: "bool \<Rightarrow> (nat, nat, nat) hm_env" where
  "demo_env debug = \<lparr>dkey1 = 0, dkey2 = 0, dvalue = 0, malloc_ok = (\<lambda>_. True), hm_debug = debug\<rparr>"

definition demo_puts :: "(nat \<times> nat, nat) put_op list" where
  "demo_puts = [((1, 1), 10, None), ((2, 2), 20, None), ((3, 3), 30, None)]"


definition demo_debug_map :: "(nat, nat, nat) hashmap" where
  "demo_debug_map =
     \<lparr>collision_time = 0, usage_counter = [0, 0], bucket_init_num = 1, bucket_init_num_mask = 0,
      bucket_ext_num = 2, bucket_ext_num_mask = 1, deep_limit = 1, bucket_init_num_bits = 0, bucket_ext_num_bits = 1,
      bucket_size_bits = 6, hm_buckets = [bk_Init 0 0 0], hm_alts = [None], mem_pool = Some 8192\<rparr>"

text \<open>
  With the debug counters, which the header switches on, the first key that goes past the last level is
  counted outside the array of counters. Here the map has one level below the first and all keys share a path:
  the third insertion is undefined.
\<close>

theorem hashmap_debug_overflow:
  "hm_Create (demo_env True) True 4096 64 16 1 1 2 = Ret (Some demo_debug_map) \<and>
   rbind (store_run (hm_put (demo_env True) (\<lambda>_ _. 0)) demo_debug_map [((1, 1), 10, None), ((2, 2), 20, None)])
     (\<lambda>(s, ecs). Ret ecs) = Ret [kSuccess, kSuccess] \<and>
   rbind (store_run (hm_put (demo_env True) (\<lambda>_ _. 0)) demo_debug_map demo_puts) (\<lambda>(s, ecs). Ret ecs) = Undef"
proof -
  have "carve 128 0 (1048576 - 128) = Ret 8192" by (subst carve_count) simp_all
  moreover have "RoundToPowerOf2 64 = 64" "RoundToPowerOf2 16 = 16" "RoundToPowerOf2 1 = 1" "RoundToPowerOf2 2 = 2"
    "GetBits 1 = Ret 0" "GetBits 2 = Ret 1" "GetBits 64 = Ret 6"
    by code_simp+
  ultimately have "hm_Create (demo_env True) True 4096 64 16 1 1 2 = Ret (Some demo_debug_map)"
    by (simp add: hm_Create_def hm_Init_def InitMemCache_def hm_block_size_def demo_env_def demo_debug_map_def Let_def
        ext_mem_num_def ADK_ROUND_UP_def ADK_PAGE_SIZE_def)
  moreover have "rbind (store_run (hm_put (demo_env True) (\<lambda>_ _. 0)) demo_debug_map [((1, 1), 10, None), ((2, 2), 20, None)])
      (\<lambda>(s, ecs). Ret ecs) = Ret [kSuccess, kSuccess]"
    by code_simp
  moreover have "rbind (store_run (hm_put (demo_env True) (\<lambda>_ _. 0)) demo_debug_map demo_puts) (\<lambda>(s, ecs). Ret ecs) = Undef"
    by code_simp
  ultimately show ?thesis by blast
qed

end
