(* ===== verification/Sequential_Cache.thy ===== *)
theory Sequential_Cache
  imports Spsc_Queue
begin

section \<open>The sequential cache\<close>

text \<open>
  \<^verbatim>\<open>include/adk/sequential_cache.h\<close>: a producer stores data under the consecutive indices from 1 on, a master
  reads them in order, and slaves, each started at an index of its own, catch up with the master and then hand
  over to it through an event queue (an \<^verbatim>\<open>SPSCQueue\<close>, whose calls are arguments of the operations here). The operations
  are single steps. A pointer is an option, \<open>None\<close> being \<^verbatim>\<open>NULL\<close>.
\<close>

definition ADK_MAX_SLAVES :: nat where "ADK_MAX_SLAVES = 1024"

record SlaveCursor =
  cur_head :: u64
  cur_tail_threshold :: u64
  cur_context :: nat

record SlaveJoinEvent =
  je_slave :: int
  je_join_index :: u64
  je_context :: nat

definition kInvalidSlaveHandler :: int where "kInvalidSlaveHandler = -1"

record ('d, 'q) scache =
  c_tail :: u64
  c_head :: u64
  c_tail_threshold :: u64
  c_interrupt_counter :: u32
  c_is_release_alert :: bool
  c_event_queue :: 'q
  c_slave_cursors :: "SlaveCursor list"
  c_cache_data :: "'d option list"
  c_nr_max_cache_data :: u64
  c_join_threshold :: u64
  c_free_hdl_list :: "int list"
  c_nr_slaves :: int
  c_stat_joins :: u32
  c_stat_slaves :: u32

text \<open>
  The constructor and \<^verbatim>\<open>Init\<close>. The array of pointers and the slave cursors are not initialised: \<open>junk\<close> is what the memory
  holds. \<open>None\<close> for the array is a failed allocation, \<open>None\<close> for the queue a failed \<^verbatim>\<open>Create\<close>.
\<close>

definition sc_Init ::
  "(nat \<Rightarrow> 'd option) \<Rightarrow> SlaveCursor list \<Rightarrow> bool \<Rightarrow> 'q option \<Rightarrow> u64 \<Rightarrow> u64 \<Rightarrow> ErrorCode + ('d, 'q) scache" where
  "sc_Init junk cursors new_ok queue nr_max_cache_data join_threshold =
     (if nr_max_cache_data = 0 then Inl kInvalidParameters
      else if \<not> new_ok then Inl kFailure
      else case queue of
             None \<Rightarrow> Inl kFailure
           | Some q \<Rightarrow> Inr
               \<lparr>c_tail = 1, c_head = 1, c_tail_threshold = 1, c_interrupt_counter = 1, c_is_release_alert = False,
                c_event_queue = q, c_slave_cursors = cursors,
                c_cache_data = map junk [0..<unat nr_max_cache_data], c_nr_max_cache_data = nr_max_cache_data,
                c_join_threshold = join_threshold, c_free_hdl_list = [], c_nr_slaves = 0,
                c_stat_joins = 0, c_stat_slaves = 0\<rparr>)"


definition start_slave :: "u64 \<Rightarrow> nat \<Rightarrow> int \<Rightarrow> ('d, 'q) scache \<Rightarrow> (('d, 'q) scache \<times> int) run" where
  "start_slave begin_index context hdl s =
     (if hdl < 0 then Undef
      else rbind (aset (c_slave_cursors s) (nat hdl)
             \<lparr>cur_head = begin_index, cur_tail_threshold = c_tail s, cur_context = context\<rparr>) (\<lambda>cs.
           Ret (s\<lparr>c_slave_cursors := cs, c_stat_slaves := c_stat_slaves s + 1\<rparr>, hdl)))"

definition NewSlave :: "u64 \<Rightarrow> nat \<Rightarrow> ('d, 'q) scache \<Rightarrow> (('d, 'q) scache \<times> int) run" where
  "NewSlave begin_index context s =
     (if begin_index = 0 then Ret (s, kInvalidSlaveHandler)
      else case c_free_hdl_list s of
             h # hs \<Rightarrow> start_slave begin_index context h (s\<lparr>c_free_hdl_list := hs\<rparr>)
           | [] \<Rightarrow>
               if int ADK_MAX_SLAVES \<le> c_nr_slaves s then Ret (s, kInvalidSlaveHandler)
               else start_slave begin_index context (c_nr_slaves s) (s\<lparr>c_nr_slaves := c_nr_slaves s + 1\<rparr>))"


text \<open>\<^verbatim>\<open>HaveData\<close> and \<^verbatim>\<open>IsCatchUpWithMaster\<close> return the threshold they leave behind.\<close>

definition sc_HaveData :: "('d, 'q) scache \<Rightarrow> u64 \<Rightarrow> u64 \<Rightarrow> u64 \<times> bool" where
  "sc_HaveData s head tail_threshold =
     (if head < tail_threshold then (tail_threshold, True) else (c_tail s, head < c_tail s))"

definition IsCatchUpWithMaster :: "('d, 'q) scache \<Rightarrow> u64 \<Rightarrow> u64 \<Rightarrow> u64 \<times> bool" where
  "IsCatchUpWithMaster s head tail_threshold =
     (if head + c_join_threshold s < tail_threshold then (tail_threshold, False)
      else (c_head s, \<not> head + c_join_threshold s < c_head s))"

text \<open>The handler of the master is a callback; the event it is given is part of the result.\<close>

definition poll_join ::
  "('q \<Rightarrow> ('q \<times> (ErrorCode + SlaveJoinEvent)) run) \<Rightarrow> u32 \<Rightarrow> ('d, 'q) scache \<Rightarrow> (('d, 'q) scache \<times> SlaveJoinEvent option) run" where
  "poll_join qpop interrupt_interval s =
     (let s1 = s\<lparr>c_interrupt_counter := c_interrupt_counter s + 1\<rparr>
      in if c_interrupt_counter s1 AND (interrupt_interval - 1) = 0
         then rbind (qpop (c_event_queue s1)) (\<lambda>(q, r).
                case r of
                  Inl ec \<Rightarrow> Ret (s1\<lparr>c_event_queue := q\<rparr>, None)
                | Inr e \<Rightarrow> Ret (s1\<lparr>c_event_queue := q, c_stat_joins := c_stat_joins s1 + 1\<rparr>, Some e))
         else Ret (s1, None))"

definition MasterTryNext ::
  "('q \<Rightarrow> ('q \<times> (ErrorCode + SlaveJoinEvent)) run) \<Rightarrow> u32 \<Rightarrow> ('d, 'q) scache \<Rightarrow>
   (('d, 'q) scache \<times> SlaveJoinEvent option \<times> u64 \<times> 'd option) run" where
  "MasterTryNext qpop interrupt_interval s =
     rbind (poll_join qpop interrupt_interval s) (\<lambda>(s1, je).
       let index = c_head s1;
           (thr, have_data) = sc_HaveData s1 index (c_tail_threshold s1);
           s2 = s1\<lparr>c_tail_threshold := thr\<rparr>
       in if have_data
          then rbind (aget (c_cache_data s2) (unat index)) (\<lambda>p. Ret (s2\<lparr>c_head := c_head s2 + 1\<rparr>, je, index, p))
          else Ret (s2, je, index, None))"

text \<open>
  \<^verbatim>\<open>MasterNext\<close> tries until it gets data or the release alert is set. With no other thread moving, an attempt that
  does not advance the head will not be followed by one that does.
\<close>

function MasterNext ::
  "('q \<Rightarrow> ('q \<times> (ErrorCode + SlaveJoinEvent)) run) \<Rightarrow> u32 \<Rightarrow> ('d, 'q) scache \<Rightarrow>
   (('d, 'q) scache \<times> u64 \<times> 'd option) run" where
  "MasterNext qpop interrupt_interval s =
     rbind (MasterTryNext qpop interrupt_interval s) (\<lambda>(s1, je, index, p).
       if p \<noteq> None then Ret (s1, index, p)
       else if c_is_release_alert s1 then Ret (s1, index, None)
       else if c_head s1 \<le> c_head s then Hang
       else MasterNext qpop interrupt_interval s1)"
  by pat_completeness auto
termination
proof (relation "measure (\<lambda>(qpop, ii, s). 2 ^ 64 - unat (c_head s))", goal_cases)
  case (2 qpop ii s x s1 y je z index p)
  then have "unat (c_head s) < unat (c_head s1)" by (simp add: word_le_nat_alt)
  moreover have "unat (c_head s1) < 2 ^ 64" by (rule unat_less64)
  ultimately show ?case by simp
qed simp

declare MasterNext.simps [simp del]

definition MasterAt :: "u64 \<Rightarrow> ('d, 'q) scache \<Rightarrow> (('d, 'q) scache \<times> 'd option) run" where
  "MasterAt index s =
     (let (thr, have_data) = sc_HaveData s index (c_tail_threshold s);
          s1 = s\<lparr>c_tail_threshold := thr\<rparr>
      in if have_data then rbind (aget (c_cache_data s1) (unat index)) (\<lambda>p. Ret (s1, p)) else Ret (s1, None))"

definition MasterLastIndex :: "('d, 'q) scache \<Rightarrow> u64" where
  "MasterLastIndex s = c_head s - 1"

text \<open>A slave handler indexes the array of cursors.\<close>

definition get_cursor :: "('d, 'q) scache \<Rightarrow> int \<Rightarrow> SlaveCursor run" where
  "get_cursor s slave = (if slave < 0 then Undef else aget (c_slave_cursors s) (nat slave))"

definition set_cursor :: "int \<Rightarrow> SlaveCursor \<Rightarrow> ('d, 'q) scache \<Rightarrow> ('d, 'q) scache" where
  "set_cursor slave c s = s\<lparr>c_slave_cursors := (c_slave_cursors s)[nat slave := c]\<rparr>"

definition SignalJoin ::
  "('q \<Rightarrow> SlaveJoinEvent \<Rightarrow> ('q \<times> ErrorCode) run) \<Rightarrow> int \<Rightarrow> ('d, 'q) scache \<Rightarrow> (('d, 'q) scache \<times> SlaveJoinEvent) run" where
  "SignalJoin qpush slave s =
     rbind (get_cursor s slave) (\<lambda>c.
       let e = \<lparr>je_slave = slave, je_join_index = cur_head c, je_context = cur_context c\<rparr>
       in rbind (qpush (c_event_queue s) e) (\<lambda>(q, ec).
            rassert (ec = kSuccess) (Ret (s\<lparr>c_event_queue := q\<rparr>, e))))"

text \<open>\<^verbatim>\<open>SlaveNext\<close>: the data, or the event that was signalled.\<close>

definition SlaveNext ::
  "('q \<Rightarrow> SlaveJoinEvent \<Rightarrow> ('q \<times> ErrorCode) run) \<Rightarrow> int \<Rightarrow> ('d, 'q) scache \<Rightarrow>
   (('d, 'q) scache \<times> u64 \<times> (SlaveJoinEvent + 'd option)) run" where
  "SlaveNext qpush slave s =
     rbind (get_cursor s slave) (\<lambda>c.
       let index = cur_head c;
           (thr, caught_up) = IsCatchUpWithMaster s (cur_head c) (cur_tail_threshold c);
           c1 = c\<lparr>cur_tail_threshold := thr\<rparr>
       in if \<not> caught_up
          then rbind (aget (c_cache_data s) (unat index)) (\<lambda>p.
                 Ret (set_cursor slave (c1\<lparr>cur_head := cur_head c1 + 1\<rparr>) s, index, Inr p))
          else rbind (SignalJoin qpush slave (set_cursor slave c1 s)) (\<lambda>(s1, e). Ret (s1, index, Inl e)))"


definition ReleaseRxThread :: "('d, 'q) scache \<Rightarrow> ('d, 'q) scache" where
  "ReleaseRxThread s = s\<lparr>c_is_release_alert := True\<rparr>"

definition sc_usage :: "('d, 'q) scache \<Rightarrow> u32" where
  "sc_usage s = ucast (c_tail s * 100 div c_nr_max_cache_data s)"

section \<open>Runs and their log\<close>


datatype 'd sc_ev =
    Stored u64 'd
  | Refused
  | Joined SlaveJoinEvent
  | MasterGot u64 'd
  | SlaveNew int u64
  | SlaveGot int u64 'd
  | SlaveJoins SlaveJoinEvent
  | Looked u64 'd
  | Nothing

fun look :: "(u64 \<Rightarrow> 'd \<Rightarrow> 'd sc_ev) \<Rightarrow> u64 \<Rightarrow> 'd option \<Rightarrow> 'd sc_ev" where
  "look ev i None = Nothing"
| "look ev i (Some p) = ev i p"






text \<open>Reading a log: the data stored, what the master got, the hand-overs, and what a slave got since it was started.\<close>

fun stored :: "'d sc_ev list \<Rightarrow> 'd list" where
  "stored [] = []"
| "stored (Stored i p # evs) = p # stored evs"
| "stored (_ # evs) = stored evs"

fun master_got :: "'d sc_ev list \<Rightarrow> (nat \<times> 'd) list" where
  "master_got [] = []"
| "master_got (MasterGot i p # evs) = (unat i, p) # master_got evs"
| "master_got (_ # evs) = master_got evs"

fun joined :: "'d sc_ev list \<Rightarrow> SlaveJoinEvent list" where
  "joined [] = []"
| "joined (Joined e # evs) = e # joined evs"
| "joined (_ # evs) = joined evs"

fun signalled :: "'d sc_ev list \<Rightarrow> SlaveJoinEvent list" where
  "signalled [] = []"
| "signalled (SlaveJoins e # evs) = e # signalled evs"
| "signalled (_ # evs) = signalled evs"

fun seen_step :: "int \<Rightarrow> (nat \<times> nat list) option \<Rightarrow> 'd sc_ev \<Rightarrow> (nat \<times> nat list) option" where
  "seen_step h acc (SlaveNew h' b) = (if h' = h then Some (unat b, []) else acc)"
| "seen_step h acc (SlaveGot h' i p) = (if h' = h then map_option (\<lambda>(b, is). (b, is @ [unat i])) acc else acc)"
| "seen_step h acc _ = acc"

definition seen :: "int \<Rightarrow> 'd sc_ev list \<Rightarrow> (nat \<times> nat list) option" where
  "seen h evs = foldl (seen_step h) None evs"

lemma log_append [simp]:
  "stored (a @ b) = stored a @ stored b" "master_got (a @ b) = master_got a @ master_got b"
  "joined (a @ b) = joined a @ joined b" "signalled (a @ b) = signalled a @ signalled b"
  "seen h (a @ b) = foldl (seen_step h) (seen h a) b"
proof -
  show "stored (a @ b) = stored a @ stored b" by (induction a rule: stored.induct) auto
  show "master_got (a @ b) = master_got a @ master_got b" by (induction a rule: master_got.induct) auto
  show "joined (a @ b) = joined a @ joined b" by (induction a rule: joined.induct) auto
  show "signalled (a @ b) = signalled a @ signalled b" by (induction a rule: signalled.induct) auto
qed (simp add: seen_def)



section \<open>The invariant\<close>

definition data_ok :: "'d list \<Rightarrow> ('d, 'q) scache \<Rightarrow> bool" where
  "data_ok ins s =
     (length (c_cache_data s) = unat (c_nr_max_cache_data s) \<and> unat (c_tail s) = Suc (length ins) \<and>
      unat (c_tail s) \<le> unat (c_nr_max_cache_data s) \<and>
      (\<forall>i. 0 < i \<longrightarrow> i \<le> length ins \<longrightarrow> c_cache_data s ! i = Some (ins ! (i - 1))))"


text \<open>A slave started at \<open>b\<close> has been given the indices from \<open>b\<close> up to its cursor.\<close>

definition cursor_ok :: "'d sc_ev list \<Rightarrow> ('d, 'q) scache \<Rightarrow> int \<Rightarrow> SlaveCursor \<Rightarrow> bool" where
  "cursor_ok evs s h c =
     (cur_tail_threshold c \<le> c_tail s \<and> unat (cur_head c) + unat (c_join_threshold s) < 2 ^ 64 \<and>
      (\<exists>b>0. b \<le> unat (cur_head c) \<and> seen h evs = Some (b, [b..<unat (cur_head c)])))"

definition slaves_ok :: "'d sc_ev list \<Rightarrow> ('d, 'q) scache \<Rightarrow> bool" where
  "slaves_ok evs s =
     (length (c_slave_cursors s) = ADK_MAX_SLAVES \<and> 0 \<le> c_nr_slaves s \<and> c_nr_slaves s \<le> int ADK_MAX_SLAVES \<and>
      (\<forall>h\<in>set (c_free_hdl_list s). 0 \<le> h \<and> h < c_nr_slaves s) \<and>
      (\<forall>h. 0 \<le> h \<longrightarrow> h < c_nr_slaves s \<longrightarrow> cursor_ok evs s h (c_slave_cursors s ! nat h)))"










lemma look_seen [simp]: "seen_step h acc (look Looked i p) = acc" "seen_step h acc (look MasterGot i p) = acc"
  "stored [look Looked i p] = []" "master_got [look Looked i p] = []" "stored [look MasterGot i p] = []"
  by (cases p; simp)+










section \<open>Properties\<close>






text \<open>
  A start index close to the end of the number range makes a slave read outside the cache. \<^verbatim>\<open>NewSlave\<close> refuses
  only 0, and the sum of the index and the threshold wraps, so the slave looks as if it were far behind the
  master.
\<close>

theorem scache_slave_wrap:
  assumes "data_ok ins s" and "slaves_ok evs s" and "c_free_hdl_list s = []" "c_nr_slaves s < int ADK_MAX_SLAVES"
    and "2 ^ 64 \<le> unat b + unat (c_join_threshold s)"
    and "unat b + unat (c_join_threshold s) - 2 ^ 64 < unat (c_tail s)" and "unat (c_nr_max_cache_data s) \<le> unat b"
  shows "\<exists>s1 h. NewSlave b ctx s = Ret (s1, h) \<and> h \<noteq> kInvalidSlaveHandler \<and> SlaveNext qpush h s1 = Undef"
proof -
  let ?h = "c_nr_slaves s"
  have h: "0 \<le> ?h" "nat ?h < length (c_slave_cursors s)" using assms(2,4) by (auto simp: slaves_ok_def)
  have b: "b \<noteq> 0" using assms(5) unat_less64 [of "c_join_threshold s"] by auto
  have "unat (b + c_join_threshold s) = unat b + unat (c_join_threshold s) - 2 ^ 64"
    using assms(5) unat_less64 [of b] unat_less64 [of "c_join_threshold s"] by (simp add: unat_word_ariths mod_if)
  then have lt: "b + c_join_threshold s < c_tail s" using assms(6) by (simp add: word_less_nat_alt)
  have out: "aget (c_cache_data s) (unat b) = Undef" using assms(1,7) by (simp add: data_ok_def aget_def)
  let ?c = "\<lparr>cur_head = b, cur_tail_threshold = c_tail s, cur_context = ctx\<rparr>"
  let ?s = "s\<lparr>c_nr_slaves := ?h + 1, c_slave_cursors := (c_slave_cursors s)[nat ?h := ?c], c_stat_slaves := c_stat_slaves s + 1\<rparr>"
  have "NewSlave b ctx s = Ret (?s, ?h)" using b h assms(3,4) by (simp add: NewSlave_def start_slave_def)
  moreover have "SlaveNext qpush ?h ?s = Undef"
    using h lt out by (simp add: SlaveNext_def get_cursor_def IsCatchUpWithMaster_def Let_def)
  moreover have "?h \<noteq> kInvalidSlaveHandler" using h by (simp add: kInvalidSlaveHandler_def)
  ultimately show ?thesis by blast
qed

definition demo_cache :: "(nat, unit) scache" where
  "demo_cache = \<lparr>c_tail = 3, c_head = 1, c_tail_threshold = 1, c_interrupt_counter = 1, c_is_release_alert = False,
     c_event_queue = (), c_slave_cursors = replicate 1024 \<lparr>cur_head = 0, cur_tail_threshold = 0, cur_context = 0\<rparr>,
     c_cache_data = [None, Some 7, Some 9, None], c_nr_max_cache_data = 4, c_join_threshold = 256,
     c_free_hdl_list = [], c_nr_slaves = 0, c_stat_joins = 0, c_stat_slaves = 0\<rparr>"

theorem scache_slave_wrap_witness:
  "\<exists>s1 h. NewSlave (- 255) 0 demo_cache = Ret (s1, h) \<and> h \<noteq> kInvalidSlaveHandler \<and>
     SlaveNext (\<lambda>q e. Ret (q, kSuccess)) h s1 = Undef"
proof (rule scache_slave_wrap [where ins = "[7, 9]" and evs = "[]"])
  have b: "unat (- 255 :: u64) = 2 ^ 64 - 255" using unat_minus64 [of 255] by simp
  show "data_ok [7, 9] demo_cache"
  proof -
    have "c_cache_data demo_cache ! i = Some ([7, 9] ! (i - 1))" if "0 < i" "i \<le> 2" for i
    proof -
      consider "i = 1" | "i = 2" using \<open>0 < i\<close> \<open>i \<le> 2\<close> by linarith
      then show ?thesis by cases (simp_all add: demo_cache_def)
    qed
    then show ?thesis by (simp add: data_ok_def) (simp add: demo_cache_def)
  qed
  show "slaves_ok [] demo_cache" "c_free_hdl_list demo_cache = []" "c_nr_slaves demo_cache < int ADK_MAX_SLAVES"
    by (simp_all add: slaves_ok_def demo_cache_def ADK_MAX_SLAVES_def)
  show "2 ^ 64 \<le> unat (- 255 :: u64) + unat (c_join_threshold demo_cache)"
    "unat (- 255 :: u64) + unat (c_join_threshold demo_cache) - 2 ^ 64 < unat (c_tail demo_cache)"
    "unat (c_nr_max_cache_data demo_cache) \<le> unat (- 255 :: u64)"
    unfolding b by (simp_all add: demo_cache_def)
qed

text \<open>
  Index 0 is not refused by \<^verbatim>\<open>MasterAt\<close>, although the first index is 1: it shows the pointer that happened to be in the
  memory of the cache, which nothing ever writes.
\<close>

theorem scache_at_zero:
  assumes "sc_Init junk cursors True (Some q) nr_max thr = Inr s"
  shows "MasterAt 0 s = Ret (s, junk 0)"
  using assms by (auto simp: sc_Init_def MasterAt_def sc_HaveData_def Let_def unat_gt_0 split: if_splits)

theorem scache_at_zero_witness:
  "\<exists>s. sc_Init (\<lambda>_. Some (5::nat)) [] True (Some ()) 4 2 = Inr s \<and> MasterAt 0 s = Ret (s, Some 5)"
proof -
  obtain s where s: "sc_Init (\<lambda>_. Some (5::nat)) [] True (Some ()) 4 2 = Inr s" by (simp add: sc_Init_def)
  then show ?thesis using scache_at_zero [OF s] by blast
qed

end
