(* ===== verification/Byte_Buffer.thy ===== *)
theory Byte_Buffer
  imports Prelude
begin

section \<open>The double byte buffer\<close>

text \<open>
  \<^verbatim>\<open>include/adk/spsc_byte_buffer.h\<close> and \<^verbatim>\<open>src/spsc_byte_buffer.cpp\<close>: a producer appends bytes to one of two buffers and
  declares how many of them form complete messages; when a buffer is used up it moves the incomplete rest to the
  other one and goes on there. The consumer reads the complete messages of one buffer and then of the other.
  Offsets, which are never negative, are naturals; the number of bytes left, which may be, is an integer. The
  index of the current buffer, which only grows, is undefined past the largest \<^verbatim>\<open>int32_t\<close>.
\<close>

record 'b ByteBufferImpl =
  used :: nat
  bytes :: "'b list"

record 'b bytebuffer =
  bp_buffer_size :: nat
  bp_bb :: "'b ByteBufferImpl list"
  bp_producer_index :: nat
  bp_consumer_index :: nat
  p_buffer :: nat
  p_position :: nat
  p_visible_bytes :: nat
  p_total :: nat
  c_buffer :: nat
  c_position :: nat
  c_total :: nat

text \<open>
  \<^verbatim>\<open>Init\<close>, \<^verbatim>\<open>GetBufferProducer\<close> and \<^verbatim>\<open>GetBufferConsumer\<close>. The size of a buffer is an \<^verbatim>\<open>int32_t\<close>; what \<^verbatim>\<open>memalign\<close> returns is used
  unchecked.
\<close>

definition bb_new_size :: "nat \<Rightarrow> nat \<Rightarrow> nat" where
  "bb_new_size buffer_size extra_size = (if extra_size = 0 then buffer_size * 2 else buffer_size + extra_size)"

definition bb_Init :: "bool \<Rightarrow> (nat \<Rightarrow> 'b) \<Rightarrow> nat \<Rightarrow> nat \<Rightarrow> 'b bytebuffer run" where
  "bb_Init mem_ok junk buffer_size extra_size =
     (let new_size = bb_new_size buffer_size extra_size
      in if 2 ^ 31 \<le> new_size \<or> \<not> mem_ok then Undef
         else Ret
           \<lparr>bp_buffer_size = buffer_size,
            bp_bb = [\<lparr>used = 0, bytes = map junk [0..<new_size]\<rparr>, \<lparr>used = 0, bytes = map junk [0..<new_size]\<rparr>],
            bp_producer_index = 0, bp_consumer_index = 0,
            p_buffer = 0, p_position = 0, p_visible_bytes = 0, p_total = buffer_size,
            c_buffer = 0, c_position = 0, c_total = 0\<rparr>)"

definition bb_at :: "'b bytebuffer \<Rightarrow> nat \<Rightarrow> 'b ByteBufferImpl" where
  "bb_at s i = bp_bb s ! i"

definition set_bb :: "nat \<Rightarrow> 'b ByteBufferImpl \<Rightarrow> 'b bytebuffer \<Rightarrow> 'b bytebuffer" where
  "set_bb i b s = s\<lparr>bp_bb := (bp_bb s)[i := b]\<rparr>"

text \<open>\<^verbatim>\<open>memcpy\<close> into a buffer: past its end the behaviour is undefined.\<close>

definition write_bytes :: "nat \<Rightarrow> 'b list \<Rightarrow> 'b ByteBufferImpl \<Rightarrow> 'b ByteBufferImpl run" where
  "write_bytes i bs b =
     (if i + length bs \<le> length (bytes b)
      then Ret (b\<lparr>bytes := take i (bytes b) @ bs @ drop (i + length bs) (bytes b)\<rparr>) else Undef)"

section \<open>The producer\<close>

definition p_remaining :: "'b bytebuffer \<Rightarrow> int" where
  "p_remaining s = int (p_total s) - int (p_position s)"

definition inc_position :: "nat \<Rightarrow> 'b bytebuffer \<Rightarrow> 'b bytebuffer" where
  "inc_position delta s = s\<lparr>p_position := p_position s + delta\<rparr>"

definition FlushData :: "'b bytebuffer \<Rightarrow> 'b bytebuffer" where
  "FlushData s = set_bb (p_buffer s) ((bb_at s (p_buffer s))\<lparr>used := p_visible_bytes s\<rparr>) s"

definition inc_valid_data :: "nat \<Rightarrow> 'b bytebuffer \<Rightarrow> 'b bytebuffer" where
  "inc_valid_data delta s = FlushData (s\<lparr>p_visible_bytes := p_visible_bytes s + delta\<rparr>)"

definition set_valid_data :: "nat \<Rightarrow> 'b bytebuffer \<Rightarrow> 'b bytebuffer" where
  "set_valid_data visible_bytes s = FlushData (s\<lparr>p_visible_bytes := visible_bytes\<rparr>)"

definition AppendBytes :: "'b list \<Rightarrow> 'b bytebuffer \<Rightarrow> 'b bytebuffer run" where
  "AppendBytes src s =
     rbind (write_bytes (p_position s) src (bb_at s (p_buffer s))) (\<lambda>b.
       Ret (inc_position (length src) (set_bb (p_buffer s) b s)))"

definition AppendBytesSize :: "'b bytebuffer \<Rightarrow> int" where
  "AppendBytesSize s = int (p_position s) - int (p_visible_bytes s)"

definition RenewBuffer :: "bool \<Rightarrow> 'b bytebuffer \<Rightarrow> ('b bytebuffer \<times> ErrorCode) run" where
  "RenewBuffer is_non_block s =
     (let temp = bp_producer_index s + 1
      in if 2 ^ 31 \<le> temp then Undef
         else if bp_consumer_index s + 1 < temp then (if is_non_block then Ret (s, kFailure) else Hang)
         else let i = temp mod 2;
                  rest = drop (p_visible_bytes s) (take (p_position s) (bytes (bb_at s (p_buffer s))))
              in if p_position s < p_visible_bytes s \<or> length (bytes (bb_at s (p_buffer s))) < p_position s then Undef
                 else rbind (write_bytes 0 rest (bb_at s i)) (\<lambda>b.
                        Ret ((set_bb i (b\<lparr>used := 0\<rparr>) s)
                          \<lparr>p_buffer := i, p_position := length rest, p_total := bp_buffer_size s, p_visible_bytes := 0,
                           bp_producer_index := temp\<rparr>, kSuccess)))"

definition IncValidData :: "nat \<Rightarrow> bool \<Rightarrow> 'b bytebuffer \<Rightarrow> ('b bytebuffer \<times> ErrorCode) run" where
  "IncValidData len is_non_block s =
     (let s1 = inc_valid_data len s
      in if p_remaining s1 \<le> 0 then RenewBuffer is_non_block s1 else Ret (s1, kSuccess))"

definition bb_Clear :: "'b bytebuffer \<Rightarrow> 'b bytebuffer run" where
  "bb_Clear s = rassert (p_visible_bytes s \<le> p_position s) (Ret (s\<lparr>p_position := p_visible_bytes s\<rparr>))"

section \<open>The consumer\<close>

definition UpdateBuffer :: "'b bytebuffer \<Rightarrow> ('b bytebuffer \<times> int) run" where
  "UpdateBuffer s =
     (let total = used (bb_at s (c_buffer s));
          ret = int total - int (c_position s)
      in if bp_producer_index s = bp_consumer_index s then Ret (s\<lparr>c_total := total\<rparr>, ret)
         else rassert (bp_consumer_index s < bp_producer_index s)
           (if ret = 0
            then let ci = bp_consumer_index s + 1;
                     i = ci mod 2
                 in Ret (s\<lparr>c_buffer := i, c_position := 0, c_total := used (bb_at s i), bp_consumer_index := ci\<rparr>,
                         int (used (bb_at s i)))
            else Ret (s\<lparr>c_total := total\<rparr>, ret)))"

definition c_remaining :: "'b bytebuffer \<Rightarrow> ('b bytebuffer \<times> int) run" where
  "c_remaining s = (let ret = int (c_total s) - int (c_position s) in if ret = 0 then UpdateBuffer s else Ret (s, ret))"

definition consume_bytes :: "nat \<Rightarrow> 'b bytebuffer \<Rightarrow> 'b bytebuffer" where
  "consume_bytes n s = s\<lparr>c_position := c_position s + n\<rparr>"

text \<open>The bytes a consumer finds at \<^verbatim>\<open>current()\<close>.\<close>

definition c_current :: "nat \<Rightarrow> 'b bytebuffer \<Rightarrow> 'b list" where
  "c_current n s = take n (drop (c_position s) (bytes (bb_at s (c_buffer s))))"

section \<open>A stream of bytes\<close>

datatype 'b bop = BAppend "'b list" | BIncValid nat | BSetValid nat | BIncValidData nat | BRenew | BClear | BRemaining | BConsume nat

datatype 'b bout = BUnit | BCode ErrorCode | BLeft int | BBytes "'b list"

fun bb_step :: "'b bytebuffer \<Rightarrow> 'b bop \<Rightarrow> ('b bytebuffer \<times> 'b bout) run" where
  "bb_step s (BAppend bs) = rbind (AppendBytes bs s) (\<lambda>s'. Ret (s', BUnit))"
| "bb_step s (BIncValid n) = Ret (inc_valid_data n s, BUnit)"
| "bb_step s (BSetValid n) = Ret (set_valid_data (p_visible_bytes s + n) s, BUnit)"
| "bb_step s (BIncValidData n) = rbind (IncValidData n True s) (\<lambda>(s', ec). Ret (s', BCode ec))"
| "bb_step s BRenew = rbind (RenewBuffer True s) (\<lambda>(s', ec). Ret (s', BCode ec))"
| "bb_step s BClear = rbind (bb_Clear s) (\<lambda>s'. Ret (s', BUnit))"
| "bb_step s BRemaining = rbind (c_remaining s) (\<lambda>(s', n). Ret (s', BLeft n))"
| "bb_step s (BConsume n) = Ret (consume_bytes n s, BBytes (c_current n s))"

fun bb_run :: "'b bytebuffer \<Rightarrow> 'b bop list \<Rightarrow> ('b bytebuffer \<times> 'b bout list) run" where
  "bb_run s [] = Ret (s, [])"
| "bb_run s (op # ops) = rbind (bb_step s op) (\<lambda>(s1, r). rbind (bb_run s1 ops) (\<lambda>(s2, rs). Ret (s2, r # rs)))"

text \<open>The callers: no more bytes than fit, no more declared valid than appended, no more consumed than announced.\<close>

fun bb_proper_op :: "'b bytebuffer \<Rightarrow> 'b bop \<Rightarrow> bool" where
  "bb_proper_op s (BAppend bs) = (p_position s + length bs \<le> length (bytes (bb_at s (p_buffer s))))"
| "bb_proper_op s (BIncValid n) = (p_visible_bytes s + n \<le> p_position s)"
| "bb_proper_op s (BSetValid n) = (p_visible_bytes s + n \<le> p_position s)"
| "bb_proper_op s (BIncValidData n) = (p_visible_bytes s + n \<le> p_position s)"
| "bb_proper_op s (BConsume n) = (c_position s + n \<le> c_total s)"
| "bb_proper_op s _ = True"

fun bb_proper :: "'b bytebuffer \<Rightarrow> 'b bop list \<Rightarrow> bool" where
  "bb_proper s [] = True"
| "bb_proper s (op # ops) = (bb_proper_op s op \<and> (case bb_step s op of Ret (s1, r) \<Rightarrow> bb_proper s1 ops | _ \<Rightarrow> True))"

text \<open>
  The abstract stream: the bytes appended and not yet valid, and the valid ones not yet consumed. A result is checked against
  it: the bytes left are at most those waiting, and none only when none wait; the bytes consumed are the oldest ones.
\<close>

fun stream_step :: "'b list \<times> 'b list \<Rightarrow> 'b bop \<Rightarrow> 'b list \<times> 'b list" where
  "stream_step (rest, wait) (BAppend bs) = (rest @ bs, wait)"
| "stream_step (rest, wait) (BIncValid n) = (drop n rest, wait @ take n rest)"
| "stream_step (rest, wait) (BSetValid n) = (drop n rest, wait @ take n rest)"
| "stream_step (rest, wait) (BIncValidData n) = (drop n rest, wait @ take n rest)"
| "stream_step (rest, wait) BRenew = (rest, wait)"
| "stream_step (rest, wait) BClear = ([], wait)"
| "stream_step (rest, wait) BRemaining = (rest, wait)"
| "stream_step (rest, wait) (BConsume n) = (rest, drop n wait)"

fun stream_ok :: "'b list \<times> 'b list \<Rightarrow> 'b bop \<Rightarrow> 'b bout \<Rightarrow> bool" where
  "stream_ok (rest, wait) BRemaining (BLeft n) = (0 \<le> n \<and> n \<le> int (length wait) \<and> (n = 0 \<longrightarrow> wait = []))"
| "stream_ok (rest, wait) (BConsume n) (BBytes bs) = (n \<le> length wait \<and> bs = take n wait)"
| "stream_ok (rest, wait) (BIncValidData n) (BCode ec) = (ec = kSuccess \<or> ec = kFailure)"
| "stream_ok (rest, wait) BRenew (BCode ec) = (ec = kSuccess \<or> ec = kFailure)"
| "stream_ok (rest, wait) op r = (r = BUnit \<and> op \<noteq> BRenew)"

fun stream_run :: "'b list \<times> 'b list \<Rightarrow> 'b bop list \<Rightarrow> 'b bout list \<Rightarrow> bool" where
  "stream_run st [] [] = True"
| "stream_run st (op # ops) (r # rs) = (stream_ok st op r \<and> stream_run (stream_step st op) ops rs)"
| "stream_run st _ _ = False"

section \<open>The invariant\<close>

definition slice :: "nat \<Rightarrow> nat \<Rightarrow> 'b list \<Rightarrow> 'b list" where
  "slice i j xs = drop i (take j xs)"

lemma slice_append: "i \<le> j \<Longrightarrow> j \<le> k \<Longrightarrow> slice i j xs @ slice j k xs = slice i k xs"
proof -
  assume "i \<le> j" "j \<le> k"
  then have "take k xs = take j xs @ drop j (take k xs)" by (metis append_take_drop_id min.absorb1 take_take)
  then have "drop i (take k xs) = drop i (take j xs) @ drop (i - length (take j xs)) (drop j (take k xs))"
    by (metis drop_append)
  moreover have "drop (i - length (take j xs)) (drop j (take k xs)) = drop j (take k xs)"
  proof (cases "j \<le> length xs")
    case False
    then show ?thesis by simp
  qed (use \<open>i \<le> j\<close> in simp)
  ultimately show ?thesis by (simp add: slice_def)
qed

lemma length_slice: "j \<le> length xs \<Longrightarrow> length (slice i j xs) = j - i"
  by (simp add: slice_def min_def)

lemma slice_empty [simp]: "slice i i xs = []"
  by (simp add: slice_def)

definition pending :: "'b bytebuffer \<Rightarrow> 'b list" where
  "pending s =
     (let c = bb_at s (c_buffer s); p = bb_at s (p_buffer s)
      in slice (c_position s) (used c) (bytes c) @
         (if bp_producer_index s = bp_consumer_index s then [] else slice 0 (p_visible_bytes s) (bytes p)))"

definition unready :: "'b bytebuffer \<Rightarrow> 'b list" where
  "unready s = slice (p_visible_bytes s) (p_position s) (bytes (bb_at s (p_buffer s)))"

definition bb_inv :: "nat \<Rightarrow> 'b bytebuffer \<Rightarrow> bool" where
  "bb_inv sz s =
     (length (bp_bb s) = 2 \<and> length (bytes (bp_bb s ! 0)) = sz \<and> length (bytes (bp_bb s ! 1)) = sz \<and>
      (bp_producer_index s = bp_consumer_index s \<or> bp_producer_index s = Suc (bp_consumer_index s)) \<and>
      p_buffer s = bp_producer_index s mod 2 \<and> c_buffer s = bp_consumer_index s mod 2 \<and>
      p_visible_bytes s \<le> p_position s \<and> p_position s \<le> sz \<and> used (bb_at s (p_buffer s)) = p_visible_bytes s \<and>
      c_position s \<le> c_total s \<and> c_total s \<le> used (bb_at s (c_buffer s)) \<and> used (bb_at s (c_buffer s)) \<le> sz)"

lemma bb_invD:
  assumes "bb_inv sz s"
  shows "p_buffer s < length (bp_bb s)" "c_buffer s < length (bp_bb s)" "length (bytes (bb_at s (p_buffer s))) = sz"
    "length (bytes (bb_at s (c_buffer s))) = sz" "p_visible_bytes s \<le> p_position s" "p_position s \<le> sz"
    "used (bb_at s (p_buffer s)) = p_visible_bytes s" "c_position s \<le> c_total s"
    "c_total s \<le> used (bb_at s (c_buffer s))" "used (bb_at s (c_buffer s)) \<le> sz"
    "bp_producer_index s = bp_consumer_index s \<Longrightarrow> p_buffer s = c_buffer s"
    "bp_producer_index s \<noteq> bp_consumer_index s \<Longrightarrow> p_buffer s \<noteq> c_buffer s"
proof -
  have "bp_producer_index s mod 2 = 0 \<or> bp_producer_index s mod 2 = 1" "bp_consumer_index s mod 2 = 0 \<or> bp_consumer_index s mod 2 = 1"
    by auto
  then show "length (bytes (bb_at s (p_buffer s))) = sz" "length (bytes (bb_at s (c_buffer s))) = sz"
    using assms by (auto simp: bb_inv_def bb_at_def)
  show "bp_producer_index s \<noteq> bp_consumer_index s \<Longrightarrow> p_buffer s \<noteq> c_buffer s"
    using assms by (auto simp: bb_inv_def mod_Suc)
qed (use assms in \<open>auto simp: bb_inv_def\<close>)

lemma bb_at_set [simp]: "i < length (bp_bb s) \<Longrightarrow> bb_at (set_bb i b s) j = (if j = i then b else bb_at s j)"
  by (simp add: bb_at_def set_bb_def)

text \<open>Setting the number of valid bytes moves the bytes before it from the unready to the waiting ones.\<close>

lemma flush_ok:
  assumes inv: "bb_inv sz s" and n: "p_visible_bytes s + n \<le> p_position s"
  defines "s' \<equiv> inc_valid_data n s"
  shows "bb_inv sz s'" "unready s' = drop n (unready s)" "pending s' = pending s @ take n (unready s)"
    "p_position s' = p_position s" "p_total s' = p_total s" "bp_producer_index s' = bp_producer_index s"
proof -
  note D = bb_invD [OF inv]
  let ?p = "bb_at s (p_buffer s)" let ?v = "p_visible_bytes s + n"
  have s': "s' = (set_bb (p_buffer s) (?p\<lparr>used := ?v\<rparr>) s)\<lparr>p_visible_bytes := ?v\<rparr>"
    by (simp add: s'_def inc_valid_data_def FlushData_def set_bb_def bb_at_def)
  have at: "bb_at s' j = (if j = p_buffer s then ?p\<lparr>used := ?v\<rparr> else bb_at s j)" for j
    using D(1) by (simp add: s' bb_at_def set_bb_def)
  have len: "length (bytes (bp_bb s' ! j)) = length (bytes (bp_bb s ! j))" for j
    using at [of j] by (auto simp: bb_at_def)
  have bl: "length (bp_bb s') = length (bp_bb s)" by (simp add: s' set_bb_def)
  have sel: "bp_producer_index s' = bp_producer_index s" "bp_consumer_index s' = bp_consumer_index s" "p_buffer s' = p_buffer s"
    "c_buffer s' = c_buffer s" "c_position s' = c_position s" "c_total s' = c_total s" "p_visible_bytes s' = ?v"
    "p_position s' = p_position s" "p_total s' = p_total s"
    by (simp_all add: s' set_bb_def)
  show "p_position s' = p_position s" "p_total s' = p_total s" "bp_producer_index s' = bp_producer_index s" by (simp_all add: sel)
  have "c_total s \<le> used (bb_at s' (c_buffer s))" "used (bb_at s' (c_buffer s)) \<le> sz"
    using n D(6,7,9,10) unfolding at by auto
  then show "bb_inv sz s'"
    using inv n unfolding bb_inv_def sel len bl by (simp add: at)
  show "unready s' = drop n (unready s)"
    by (simp add: unready_def sel at slice_def drop_drop add.commute)
  have t: "take n (unready s) = slice (p_visible_bytes s) ?v (bytes ?p)"
    using n by (simp add: unready_def slice_def take_drop add.commute min_def)
  show "pending s' = pending s @ take n (unready s)"
  proof (cases "bp_producer_index s = bp_consumer_index s")
    case True
    have "slice (c_position s) (p_visible_bytes s) (bytes ?p) @ slice (p_visible_bytes s) ?v (bytes ?p) = slice (c_position s) ?v (bytes ?p)"
      using D(7-11) True by (intro slice_append) auto
    then show ?thesis using True D(7,11) unfolding t by (simp add: pending_def Let_def sel at)
  next
    case False
    have "slice 0 (p_visible_bytes s) (bytes ?p) @ slice (p_visible_bytes s) ?v (bytes ?p) = slice 0 ?v (bytes ?p)"
      by (intro slice_append) auto
    then show ?thesis using False D(12) unfolding t by (simp add: pending_def Let_def sel at)
  qed
qed

lemma take_overwrite: "i \<le> p \<Longrightarrow> p \<le> length xs \<Longrightarrow> take i (take p xs @ bs @ ys) = take i xs"
  by (simp add: min_def)

lemma append_ok:
  assumes inv: "bb_inv sz s" and n: "p_position s + length bs \<le> length (bytes (bb_at s (p_buffer s)))"
  shows "\<exists>s'. AppendBytes bs s = Ret s' \<and> bb_inv sz s' \<and> unready s' = unready s @ bs \<and> pending s' = pending s \<and>
    bp_producer_index s' = bp_producer_index s"
proof -
  note D = bb_invD [OF inv]
  let ?p = "bb_at s (p_buffer s)" let ?pos = "p_position s"
  let ?b = "?p\<lparr>bytes := take ?pos (bytes ?p) @ bs @ drop (?pos + length bs) (bytes ?p)\<rparr>"
  let ?s = "inc_position (length bs) (set_bb (p_buffer s) ?b s)"
  have at: "bb_at ?s j = (if j = p_buffer s then ?b else bb_at s j)" for j
    using D(1) by (simp add: bb_at_def set_bb_def inc_position_def)
  have sel: "bp_producer_index ?s = bp_producer_index s" "bp_consumer_index ?s = bp_consumer_index s" "p_buffer ?s = p_buffer s"
    "c_buffer ?s = c_buffer s" "c_position ?s = c_position s" "c_total ?s = c_total s" "p_visible_bytes ?s = p_visible_bytes s"
    "p_position ?s = ?pos + length bs" "length (bp_bb ?s) = length (bp_bb s)"
    by (simp_all add: inc_position_def set_bb_def)
  have len: "length (bytes (bp_bb ?s ! j)) = length (bytes (bp_bb s ! j))" for j
    using at [of j] n by (auto simp: bb_at_def min_def)
  have keep: "slice i j (bytes ?b) = slice i j (bytes ?p)" if "j \<le> ?pos" for i j
    using that n by (simp add: slice_def take_overwrite)
  have us: "used (bb_at ?s j) = used (bb_at s j)" for j unfolding at by simp
  have "bb_inv sz ?s" using inv n unfolding bb_inv_def sel len us D(3) by (elim conjE) (intro conjI; assumption?; simp)
  moreover have "unready ?s = unready s @ bs"
  proof -
    have "take (?pos + length bs) (bytes ?b) = take ?pos (bytes ?p) @ bs" using n by simp
    then show ?thesis using D(3,5,6) by (simp add: unready_def sel at slice_def min_def)
  qed
  moreover have "pending ?s = pending s"
    using keep D(5,7) by (auto simp: pending_def Let_def sel at dest: D(11))
  moreover have "AppendBytes bs s = Ret ?s" using n by (simp add: AppendBytes_def write_bytes_def)
  ultimately show ?thesis using sel(1) by blast
qed

lemma renew_ok:
  assumes inv: "bb_inv sz s" and n: "bp_producer_index s + 1 < 2 ^ 31"
  shows "\<exists>s' ec. RenewBuffer True s = Ret (s', ec) \<and> (ec = kSuccess \<or> ec = kFailure) \<and> bb_inv sz s' \<and>
    unready s' = unready s \<and> pending s' = pending s \<and> bp_producer_index s' \<le> bp_producer_index s + 1"
proof (cases "bp_consumer_index s < bp_producer_index s")
  case True
  then show ?thesis using inv n by (simp add: RenewBuffer_def)
next
  case False
  note D = bb_invD [OF inv]
  have eq: "bp_producer_index s = bp_consumer_index s" using inv False by (auto simp: bb_inv_def)
  let ?i = "Suc (bp_producer_index s) mod 2" let ?b = "bb_at s ?i" let ?rest = "unready s"
  have ne: "?i \<noteq> p_buffer s" "?i \<noteq> c_buffer s" "?i < length (bp_bb s)"
    using inv eq by (auto simp: bb_inv_def mod_Suc)
  have "?i = 0 \<or> ?i = 1" by auto
  then have len: "length (bytes ?b) = sz" using inv by (auto simp: bb_inv_def bb_at_def)
  have rl: "length ?rest = p_position s - p_visible_bytes s" using D(3,6) by (simp add: unready_def length_slice)
  let ?b' = "?b\<lparr>bytes := ?rest @ drop (length ?rest) (bytes ?b), used := 0\<rparr>"
  let ?s = "(set_bb ?i ?b' s)\<lparr>p_buffer := ?i, p_position := length ?rest, p_total := bp_buffer_size s, p_visible_bytes := 0,
    bp_producer_index := Suc (bp_producer_index s)\<rparr>"
  have at: "bb_at ?s j = (if j = ?i then ?b' else bb_at s j)" for j
    using ne(3) by (simp add: bb_at_def set_bb_def)
  have sel: "bp_producer_index ?s = Suc (bp_producer_index s)" "bp_consumer_index ?s = bp_consumer_index s" "p_buffer ?s = ?i"
    "c_buffer ?s = c_buffer s" "c_position ?s = c_position s" "c_total ?s = c_total s" "p_visible_bytes ?s = 0"
    "p_position ?s = length ?rest" "length (bp_bb ?s) = length (bp_bb s)"
    by (simp_all add: set_bb_def)
  have fit: "length ?rest \<le> sz" using rl D(6) by simp
  have lens: "length (bytes (bp_bb ?s ! j)) = length (bytes (bp_bb s ! j))" for j
    using at [of j] len fit by (auto simp: bb_at_def)
  have "RenewBuffer True s = Ret (?s, kSuccess)"
    using n eq fit len D(3,5,6) by (simp add: RenewBuffer_def Let_def write_bytes_def slice_def unready_def)
  moreover have "used (bb_at ?s ?i) = 0" "bb_at ?s (c_buffer s) = bb_at s (c_buffer s)" using at ne by auto
  then have "bb_inv sz ?s"
    using inv fit eq unfolding bb_inv_def sel lens by (elim conjE) (intro conjI; assumption?; simp)
  moreover have "unready ?s = slice 0 (length ?rest) (bytes ?b')" unfolding unready_def [of ?s] sel at by simp
  then have "unready ?s = unready s" by (simp add: slice_def)
  moreover have "pending ?s = pending s"
    using eq ne unfolding pending_def Let_def sel at by (simp add: slice_def)
  ultimately show ?thesis using sel(1) by (intro exI [of _ ?s] exI [of _ kSuccess]) simp
qed

lemma clear_ok:
  assumes inv: "bb_inv sz s"
  shows "\<exists>s'. bb_Clear s = Ret s' \<and> bb_inv sz s' \<and> unready s' = [] \<and> pending s' = pending s \<and> bp_producer_index s' = bp_producer_index s"
  using inv bb_invD(5,6) [OF inv]
  by (auto simp: bb_Clear_def bb_inv_def unready_def pending_def bb_at_def Let_def)

lemma remaining_ok:
  assumes inv: "bb_inv sz s"
  shows "\<exists>s' n. c_remaining s = Ret (s', n) \<and> bb_inv sz s' \<and> unready s' = unready s \<and> pending s' = pending s \<and>
    0 \<le> n \<and> n \<le> int (length (pending s)) \<and> (n = 0 \<longrightarrow> pending s = []) \<and> bp_producer_index s' = bp_producer_index s"
proof -
  note D = bb_invD [OF inv]
  let ?c = "bb_at s (c_buffer s)" let ?pi = "bp_producer_index s" let ?ci = "bp_consumer_index s"
  have pl: "length (pending s) = used ?c - c_position s + (if ?pi = ?ci then 0 else p_visible_bytes s)"
    using D(3,4,5,6,10) by (auto simp: pending_def Let_def length_slice)
  have same: "bb_inv sz (s\<lparr>c_total := used ?c\<rparr>)" "unready (s\<lparr>c_total := used ?c\<rparr>) = unready s"
    "pending (s\<lparr>c_total := used ?c\<rparr>) = pending s"
    using inv D(8,9) by (auto simp: bb_inv_def unready_def pending_def bb_at_def)
  consider (more) "c_position s < c_total s" | (stay) "c_position s = c_total s" "?pi = ?ci \<or> c_position s < used ?c"
    | (switch) "c_position s = c_total s" "?pi \<noteq> ?ci" "c_position s = used ?c"
    using D(8,9) by linarith
  then show ?thesis
  proof cases
    case more
    then show ?thesis using inv pl D(9) by (auto simp: c_remaining_def Let_def)
  next
    case stay
    have "c_remaining s = Ret (s\<lparr>c_total := used ?c\<rparr>, int (used ?c) - int (c_position s))"
    proof -
      have "?ci \<le> ?pi" using inv by (auto simp: bb_inv_def)
      then show ?thesis using stay by (cases "?pi = ?ci") (simp_all add: c_remaining_def UpdateBuffer_def Let_def)
    qed
    moreover have "pending s = []" if "used ?c = c_position s" using stay that pl by auto
    moreover have "0 \<le> int (used ?c) - int (c_position s)" "int (used ?c) - int (c_position s) \<le> int (length (pending s))"
      using pl D(8,9) by auto
    ultimately show ?thesis using same by (intro exI conjI) (assumption | rule impI | simp)+
  next
    case switch
    let ?i = "Suc ?ci mod 2" let ?s = "s\<lparr>c_buffer := ?i, c_position := 0, c_total := used (bb_at s ?i), bp_consumer_index := Suc ?ci\<rparr>"
    have i: "?pi = Suc ?ci" "?i = p_buffer s" using inv switch(2) by (auto simp: bb_inv_def)
    have at: "bb_at ?s j = bb_at s j" for j by (simp add: bb_at_def)
    have "c_remaining s = Ret (?s, int (used (bb_at s ?i)))"
      using switch i by (simp add: c_remaining_def UpdateBuffer_def Let_def)
    moreover have "bb_inv sz ?s" using inv D(5,6,7) i unfolding bb_inv_def at by simp
    moreover have "pending s = slice 0 (p_visible_bytes s) (bytes (bb_at s (p_buffer s)))"
      using switch by (simp add: pending_def Let_def)
    moreover have "pending ?s = slice 0 (p_visible_bytes s) (bytes (bb_at s (p_buffer s)))"
      using i D(7) by (simp add: pending_def Let_def bb_at_def)
    moreover have "unready ?s = unready s" by (simp add: unready_def at)
    ultimately show ?thesis using i D(7) pl switch by (intro exI [of _ ?s] exI [of _ "int (used (bb_at s ?i))"]) auto
  qed
qed

lemma consume_ok:
  assumes inv: "bb_inv sz s" and n: "c_position s + n \<le> c_total s"
  shows "bb_inv sz (consume_bytes n s)" "unready (consume_bytes n s) = unready s" "pending (consume_bytes n s) = drop n (pending s)"
    "n \<le> length (pending s)" "c_current n s = take n (pending s)"
proof -
  note D = bb_invD [OF inv]
  let ?c = "bb_at s (c_buffer s)"
  have at: "bb_at (consume_bytes n s) j = bb_at s j" for j by (simp add: bb_at_def consume_bytes_def)
  show "bb_inv sz (consume_bytes n s)"
    using inv n unfolding bb_inv_def consume_bytes_def bb_at_def by (elim conjE) (intro conjI; simp)
  show "unready (consume_bytes n s) = unready s" by (simp add: unready_def at) (simp add: consume_bytes_def)
  have len: "length (slice (c_position s) (used ?c) (bytes ?c)) = used ?c - c_position s" using D(4,10) by (simp add: length_slice)
  have le: "n \<le> used ?c - c_position s" using n D(9) by simp
  show "n \<le> length (pending s)" using len le by (simp add: pending_def Let_def)
  have "drop n (slice (c_position s) (used ?c) (bytes ?c)) = slice (c_position s + n) (used ?c) (bytes ?c)"
    by (simp add: slice_def add.commute)
  then show "pending (consume_bytes n s) = drop n (pending s)"
    using len le by (simp add: pending_def Let_def at) (simp add: consume_bytes_def)
  have "take n (slice (c_position s) (used ?c) (bytes ?c)) = take n (drop (c_position s) (bytes ?c))"
    using le by (simp add: slice_def drop_take min_def)
  then show "c_current n s = take n (pending s)" using len le by (simp add: c_current_def pending_def Let_def)
qed

lemma inc_valid_ok:
  assumes inv: "bb_inv sz s" and n: "p_visible_bytes s + k \<le> p_position s" and idx: "bp_producer_index s + 1 < 2 ^ 31"
  shows "\<exists>s' ec. IncValidData k True s = Ret (s', ec) \<and> (ec = kSuccess \<or> ec = kFailure) \<and> bb_inv sz s' \<and>
    unready s' = drop k (unready s) \<and> pending s' = pending s @ take k (unready s) \<and> bp_producer_index s' \<le> bp_producer_index s + 1"
proof -
  note F = flush_ok [OF inv n]
  show ?thesis using renew_ok [OF F(1)] F idx
    by (cases "p_remaining (inc_valid_data k s) \<le> 0") (auto simp: IncValidData_def Let_def)
qed

text \<open>Every call keeps the invariant, moves the bytes as the abstract stream says and answers truthfully.\<close>

lemma bb_step_ok:
  assumes inv: "bb_inv sz s" and p: "bb_proper_op s op" and idx: "bp_producer_index s + 1 < 2 ^ 31"
  shows "\<exists>s' r. bb_step s op = Ret (s', r) \<and> bb_inv sz s' \<and> (unready s', pending s') = stream_step (unready s, pending s) op \<and>
    stream_ok (unready s, pending s) op r \<and> bp_producer_index s' \<le> bp_producer_index s + 1"
proof (cases op)
  case (BAppend bs)
  then show ?thesis using append_ok [OF inv, of bs] p by auto
next
  case (BIncValid n)
  then show ?thesis using flush_ok [OF inv, of n] p by simp
next
  case (BSetValid n)
  moreover have "set_valid_data (p_visible_bytes s + n) s = inc_valid_data n s"
    by (simp add: set_valid_data_def inc_valid_data_def)
  ultimately show ?thesis using flush_ok [OF inv, of n] p by simp
next
  case (BIncValidData n)
  then show ?thesis using inc_valid_ok [OF inv, of n] p idx by auto
next
  case BRenew
  then show ?thesis using renew_ok [OF inv idx] by auto
next
  case BClear
  then show ?thesis using clear_ok [OF inv] by auto
next
  case BRemaining
  then show ?thesis using remaining_ok [OF inv] by auto
next
  case (BConsume n)
  then have "c_position s + n \<le> c_total s" using p by simp
  then show ?thesis using consume_ok [OF inv, of n] BConsume by (simp add: consume_bytes_def)
qed

lemma bb_run_ok:
  "bb_inv sz s \<Longrightarrow> bb_proper s ops \<Longrightarrow> bp_producer_index s + length ops < 2 ^ 31 \<Longrightarrow>
   \<exists>s' outs. bb_run s ops = Ret (s', outs) \<and> bb_inv sz s' \<and> stream_run (unready s, pending s) ops outs"
proof (induction ops arbitrary: s)
  case Nil
  then show ?case by simp
next
  case (Cons op ops)
  obtain s1 r where 1: "bb_step s op = Ret (s1, r)" "bb_inv sz s1" "stream_step (unready s, pending s) op = (unready s1, pending s1)"
    "stream_ok (unready s, pending s) op r" "bp_producer_index s1 \<le> bp_producer_index s + 1"
    using bb_step_ok [of sz s op] Cons.prems by auto
  moreover have "bb_proper s1 ops" "bp_producer_index s1 + length ops < 2 ^ 31" using 1 Cons.prems by auto
  ultimately show ?case using Cons.IH [of s1] by auto
qed

lemma bb_Init_ok:
  assumes "bb_Init mem_ok junk buffer_size extra_size = Ret s"
  shows "bb_inv (bb_new_size buffer_size extra_size) s" "unready s = []" "pending s = []" "bp_producer_index s = 0"
  using assms
  by (auto simp: bb_Init_def Let_def bb_inv_def bb_at_def unready_def pending_def slice_def split: if_splits)

text \<open>
  C33: From \<^verbatim>\<open>Init\<close> on, any sequence of calls whose callers append no more bytes than fit, declare valid no more than they
  appended and consume no more than announced returns, and the double buffer is one stream: the consumer gets exactly
  the bytes declared valid, in the order they were appended, across every change of buffer; what it is told is left is never more
  than what waits and is zero only when nothing waits; and bytes not yet declared valid survive a change of buffer.
\<close>

theorem bytebuffer_stream:
  assumes "bb_Init mem_ok junk buffer_size extra_size = Ret s" and "bb_proper s ops" and "length ops < 2 ^ 31"
  shows "\<exists>s' outs. bb_run s ops = Ret (s', outs) \<and> stream_run ([], []) ops outs"
  using bb_run_ok [of "bb_new_size buffer_size extra_size" s ops] bb_Init_ok [OF assms(1)] assms(2,3) by auto

theorem bytebuffer_stream_witness:
  "\<exists>s' outs.
     rbind (bb_Init True (\<lambda>i. 0 :: nat) 4 4) (\<lambda>s. bb_run s [BAppend [1, 2, 3, 4, 5], BIncValidData 3, BRemaining]) = Ret (s', outs) \<and>
     stream_run ([], []) [BAppend [1, 2, 3, 4, 5], BIncValidData 3, BRemaining] outs"
proof -
  let ?ops = "[BAppend [1, 2, 3, 4, 5], BIncValidData 3, BRemaining] :: nat bop list"
  let ?b = "\<lparr>used = 0, bytes = replicate 8 0\<rparr> :: nat ByteBufferImpl"
  let ?s = "\<lparr>bp_buffer_size = 4, bp_bb = [?b, ?b], bp_producer_index = 0, bp_consumer_index = 0, p_buffer = 0, p_position = 0,
    p_visible_bytes = 0, p_total = 4, c_buffer = 0, c_position = 0, c_total = 0\<rparr>"
  have i: "bb_Init True (\<lambda>i. 0) 4 4 = Ret ?s" by (simp add: bb_Init_def bb_new_size_def map_replicate_const)
  have p: "bb_proper ?s ?ops"
    by (simp add: bb_at_def set_bb_def AppendBytes_def write_bytes_def inc_position_def IncValidData_def inc_valid_data_def
        FlushData_def p_remaining_def RenewBuffer_def c_remaining_def UpdateBuffer_def Let_def)
  show ?thesis using bytebuffer_stream [OF i p] by (simp add: i)
qed

end
