(* ===== verification/Bytes.thy ===== *)
theory Bytes
  imports Prelude
begin

section \<open>Bytes, integers in memory and blocks of memory\<close>

text \<open>
  What the components that exchange raw memory share: a \<^verbatim>\<open>uint32_t\<close> as its four bytes, lowest first, the
  \<^verbatim>\<open>memcpy\<close> of bytes into and out of a block with its bounds, and \<^verbatim>\<open>malloc\<close>, which may fail and whose block holds
  arbitrary bytes.
\<close>

type_synonym byte = "8 word"

definition le32 :: "u32 \<Rightarrow> byte list" where
  "le32 w = [ucast w, ucast (drop_bit 8 w), ucast (drop_bit 16 w), ucast (drop_bit 24 w)]"

fun un_le32 :: "byte list \<Rightarrow> u32" where
  "un_le32 [a, b, c, d] = ucast a OR push_bit 8 (ucast b) OR push_bit 16 (ucast c) OR push_bit 24 (ucast d)"
| "un_le32 _ = 0"

lemma length_le32 [simp]: "length (le32 w) = 4"
  by (simp add: le32_def)

lemma un_le32_le32 [simp]: "un_le32 (le32 w) = w"
proof (rule bit_word_eqI)
  fix n
  assume n: "n < LENGTH(32)"
  define k where "k = n mod 8"
  have "n = 8 * (n div 8) + k" "k < 8" by (simp_all add: k_def)
  moreover have "n div 8 = 0 \<or> n div 8 = 1 \<or> n div 8 = 2 \<or> n div 8 = 3" using n by auto
  ultimately have "n = k \<or> n = 8 + k \<or> n = 16 + k \<or> n = 24 + k" "k < 8" by auto
  then show "bit (un_le32 (le32 w)) n = bit w n"
    by (elim disjE) (simp_all add: le32_def bit_simps)
qed

lemma bit_byte_high [simp]: "8 \<le> n \<Longrightarrow> \<not> bit (b :: byte) n"
  using bit_imp_le_length [of b n] by auto

lemma le32_un_le32: "length bs = 4 \<Longrightarrow> le32 (un_le32 bs) = bs"
  by (cases bs rule: un_le32.cases) (auto simp: le32_def bit_simps intro!: bit_word_eqI)

text \<open>Copies into and out of a block; outside it the behaviour is undefined.\<close>

definition poke :: "nat \<Rightarrow> 'a list \<Rightarrow> 'a list \<Rightarrow> 'a list run" where
  "poke i bs mem = (if i + length bs \<le> length mem then Ret (take i mem @ bs @ drop (i + length bs) mem) else Undef)"

definition peek :: "nat \<Rightarrow> nat \<Rightarrow> 'a list \<Rightarrow> 'a list run" where
  "peek i n mem = (if i + n \<le> length mem then Ret (take n (drop i mem)) else Undef)"

lemma length_poke: "poke i bs mem = Ret mem' \<Longrightarrow> length mem' = length mem"
  by (auto simp: poke_def split: if_splits)

lemma poke_append:
  assumes "take n mem = body" and "length body = n" and "n + length bs \<le> length mem"
  shows "\<exists>mem'. poke n bs mem = Ret mem' \<and> length mem' = length mem \<and> take (n + length bs) mem' = body @ bs"
  using assms by (simp add: poke_def min_def)

text \<open>The state of the allocator: which requests it can serve and what the fresh bytes are.\<close>

type_synonym allocator = "(u32 \<Rightarrow> bool) \<times> (nat \<Rightarrow> byte)"

definition malloc :: "allocator \<Rightarrow> u32 \<Rightarrow> byte list option" where
  "malloc al n = (if fst al n then Some (map (snd al) [0..<unat n]) else None)"

lemma length_malloc: "malloc al n = Some b \<Longrightarrow> length b = unat n"
  by (auto simp: malloc_def split: if_splits)

end
