(* ===== verification/Ipc_Message.thy ===== *)
theory Ipc_Message
  imports Bytes
begin

section \<open>Calls between processes\<close>

text \<open>
  \<^verbatim>\<open>src/ipc_call\<close>: a message is a growing block of memory to which length-prefixed strings are appended and from
  which they are read back; a request or response is sent over a pipe as a header of eight bytes and that block. The
  client and the server of one call follow. Pointers into the block are offsets from its start. The results of
  \<^verbatim>\<open>read\<close> and \<^verbatim>\<open>write\<close> are an argument: a list with one answer per system call, used up from the front, where
  the end of the list means that the call blocks forever. A pipe is the list of the bytes written and not yet read.
\<close>

subsection \<open>The system calls\<close>

datatype io = Moved nat | Again | Failed

text \<open>
  \<^verbatim>\<open>write_ipc\<close> and \<^verbatim>\<open>read_ipc\<close>. The kernel never moves more than it is asked to, or than the pipe holds; a read of nothing
  is the end of the file.
\<close>

fun write_loop :: "io list \<Rightarrow> byte list \<Rightarrow> byte list \<Rightarrow> nat \<Rightarrow> (io list \<times> byte list \<times> nat) run" where
  "write_loop ans [] pipe moved = Ret (ans, pipe, moved)"
| "write_loop [] bs pipe moved = Hang"
| "write_loop (Moved n # ans) bs pipe moved =
     (if length bs < n then Undef else write_loop ans (drop n bs) (pipe @ take n bs) (moved + n))"
| "write_loop (Again # ans) bs pipe moved = write_loop ans bs pipe moved"
| "write_loop (Failed # ans) bs pipe moved = Ret (ans, pipe, 0)"

definition write_ipc :: "io list \<Rightarrow> byte list \<Rightarrow> byte list \<Rightarrow> (io list \<times> byte list \<times> nat) run" where
  "write_ipc ans bs pipe = write_loop ans bs pipe 0"

fun read_loop :: "io list \<Rightarrow> nat \<Rightarrow> byte list \<Rightarrow> byte list \<Rightarrow> (io list \<times> byte list \<times> byte list \<times> nat) run" where
  "read_loop ans 0 pipe got = Ret (ans, pipe, got, length got)"
| "read_loop [] left pipe got = Hang"
| "read_loop (Moved n # ans) left pipe got =
     (if n = 0 then Ret (ans, pipe, got, 0)
      else if left < n \<or> length pipe < n then Undef
      else read_loop ans (left - n) (drop n pipe) (got @ take n pipe))"
| "read_loop (Again # ans) left pipe got = read_loop ans left pipe got"
| "read_loop (Failed # ans) left pipe got = Ret (ans, pipe, got, 0)"

definition read_ipc :: "io list \<Rightarrow> nat \<Rightarrow> byte list \<Rightarrow> (io list \<times> byte list \<times> byte list \<times> nat) run" where
  "read_ipc ans n pipe = read_loop ans n pipe []"

subsection \<open>The message\<close>

record IPCMessage =
  write_len :: u32
  read_len :: u32
  buf_size :: u32
  write_ptr :: nat
  read_ptr :: nat
  buf_ptr :: "byte list option"

definition IPCMessage_new :: "allocator \<Rightarrow> IPCMessage" where
  "IPCMessage_new al =
     \<lparr>write_len = 0, read_len = 0, buf_size = 1024, write_ptr = 0, read_ptr = 0, buf_ptr = malloc al 1024\<rparr>"

text \<open>The doubling loop of \<^verbatim>\<open>ExpandBuf\<close>; it may run forever.\<close>

partial_function (option) double_until :: "u32 \<Rightarrow> u32 \<Rightarrow> u32 option" where
  "double_until n new_size = (if n < new_size then double_until (n * 2) new_size else Some n)"

text \<open>Without memory the old block is gone and the pointers into it dangle.\<close>

definition ExpandBuf :: "allocator \<Rightarrow> u32 \<Rightarrow> IPCMessage \<Rightarrow> IPCMessage run" where
  "ExpandBuf al new_size m =
     (if new_size \<le> buf_size m then Ret m
      else case double_until (buf_size m) new_size of
        None \<Rightarrow> Hang
      | Some size' \<Rightarrow>
          (case malloc al size' of
             None \<Rightarrow> Ret (m\<lparr>buf_size := size', buf_ptr := None\<rparr>)
           | Some b \<Rightarrow>
               (let n = unat (write_len m)
                in rbind (case buf_ptr m of None \<Rightarrow> if n = 0 then Ret [] else Undef | Some old \<Rightarrow> peek 0 n old) (\<lambda>bs.
                   rbind (poke 0 bs b) (\<lambda>b'.
                   Ret (m\<lparr>buf_size := size', buf_ptr := Some b', write_ptr := n, read_ptr := 0\<rparr>))))))"

text \<open>\<^verbatim>\<open>memcpy\<close> to \<^verbatim>\<open>write_ptr_\<close>, which advances.\<close>

definition put_bytes :: "byte list \<Rightarrow> IPCMessage \<Rightarrow> IPCMessage run" where
  "put_bytes bs m =
     (case buf_ptr m of
        None \<Rightarrow> Undef
      | Some b \<Rightarrow> rbind (poke (write_ptr m) bs b) (\<lambda>b'.
          Ret (m\<lparr>buf_ptr := Some b', write_ptr := write_ptr m + length bs, write_len := write_len m + of_nat (length bs)\<rparr>)))"

text \<open>\<^verbatim>\<open>memcpy\<close> from \<^verbatim>\<open>read_ptr_\<close>, which advances.\<close>

definition get_bytes :: "nat \<Rightarrow> IPCMessage \<Rightarrow> (IPCMessage \<times> byte list) run" where
  "get_bytes n m =
     (case buf_ptr m of
        None \<Rightarrow> Undef
      | Some b \<Rightarrow> rbind (peek (read_ptr m) n b) (\<lambda>bs. Ret (m\<lparr>read_ptr := read_ptr m + n\<rparr>, bs)))"

definition Append :: "allocator \<Rightarrow> byte list \<Rightarrow> IPCMessage \<Rightarrow> IPCMessage run" where
  "Append al str m =
     (let len = (of_nat (length str) :: u32);
          new_size = write_len m + len + 4
      in rbind (if buf_size m < new_size then ExpandBuf al new_size m else Ret m) (\<lambda>m1.
         rbind (put_bytes (le32 len) m1) (\<lambda>m2.
         put_bytes (take (unat len) str) m2)))"

definition SubStr :: "IPCMessage \<Rightarrow> (IPCMessage \<times> byte list) run" where
  "SubStr m = rbind (get_bytes 4 m) (\<lambda>(m1, bs). get_bytes (unat (un_le32 bs)) m1)"

subsection \<open>Requests and responses\<close>

text \<open>
  Both are a message and a header of two numbers, the method or the status and the length of the message; the classes
  \<^verbatim>\<open>Request\<close> and \<^verbatim>\<open>Response\<close> have the same code under these two names. A fresh header holds arbitrary numbers.
\<close>

record Request =
  req_msg :: IPCMessage
  method_id :: u32
  msg_len :: u32

definition Request_new :: "allocator \<Rightarrow> u32 \<times> u32 \<Rightarrow> Request" where
  "Request_new al hdr = \<lparr>req_msg = IPCMessage_new al, method_id = fst hdr, msg_len = snd hdr\<rparr>"

definition SetMethodId :: "u32 \<Rightarrow> Request \<Rightarrow> Request" where
  "SetMethodId i r = r\<lparr>method_id := i\<rparr>"

definition req_Append :: "allocator \<Rightarrow> byte list \<Rightarrow> Request \<Rightarrow> Request run" where
  "req_Append al str r = rbind (Append al str (req_msg r)) (\<lambda>m. Ret (r\<lparr>req_msg := m\<rparr>))"

definition req_SubStr :: "Request \<Rightarrow> (Request \<times> byte list) run" where
  "req_SubStr r = rbind (SubStr (req_msg r)) (\<lambda>(m, str). Ret (r\<lparr>req_msg := m\<rparr>, str))"

text \<open>A channel is the answers to come and the bytes under way.\<close>

type_synonym channel = "io list \<times> byte list"

definition SendHeader :: "channel \<Rightarrow> Request \<Rightarrow> (channel \<times> Request \<times> bool) run" where
  "SendHeader ch r =
     (let r1 = r\<lparr>msg_len := write_len (req_msg r)\<rparr>
      in rbind (write_ipc (fst ch) (le32 (method_id r1) @ le32 (msg_len r1)) (snd ch)) (\<lambda>(ans, pipe, n).
         Ret ((ans, pipe), r1, n = 8)))"

definition SendBuf :: "channel \<Rightarrow> Request \<Rightarrow> (channel \<times> bool) run" where
  "SendBuf ch r =
     (let len = unat (msg_len r)
      in if len = 0 then Ret (ch, True)
         else case buf_ptr (req_msg r) of
           None \<Rightarrow> Ret (ch, False)
         | Some b \<Rightarrow> rbind (peek 0 len b) (\<lambda>bs.
             rbind (write_ipc (fst ch) bs (snd ch)) (\<lambda>(ans, pipe, n). Ret ((ans, pipe), n = len))))"

definition RecvHeader :: "channel \<Rightarrow> Request \<Rightarrow> (channel \<times> Request \<times> bool) run" where
  "RecvHeader ch r =
     rbind (read_ipc (fst ch) 8 (snd ch)) (\<lambda>(ans, pipe, got, n).
       if n = 8 then Ret ((ans, pipe), r\<lparr>method_id := un_le32 (take 4 got), msg_len := un_le32 (drop 4 got)\<rparr>, True)
       else let hdr = got @ drop (length got) (le32 (method_id r) @ le32 (msg_len r))
            in Ret ((ans, pipe), r\<lparr>method_id := un_le32 (take 4 hdr), msg_len := un_le32 (drop 4 hdr)\<rparr>, False))"

text \<open>Reading into a null pointer fails; a failed read leaves the bytes it got.\<close>

definition RecvBuf :: "allocator \<Rightarrow> channel \<Rightarrow> Request \<Rightarrow> (channel \<times> Request \<times> bool) run" where
  "RecvBuf al ch r =
     (let len = unat (msg_len r)
      in rbind (ExpandBuf al (msg_len r) (req_msg r)) (\<lambda>m.
         case buf_ptr m of
           None \<Rightarrow> Ret (ch, r\<lparr>req_msg := m\<rparr>, len = 0)
         | Some b \<Rightarrow> rbind (read_ipc (fst ch) len (snd ch)) (\<lambda>(ans, pipe, got, n).
             rbind (poke 0 got b) (\<lambda>b'. Ret ((ans, pipe), r\<lparr>req_msg := m\<lparr>buf_ptr := Some b'\<rparr>\<rparr>, n = len)))))"

subsection \<open>Server and client\<close>

definition magic_numb :: u32 where
  "magic_numb = 0xCAFEBABE"

text \<open>
  A registered function gets the request and an empty response and returns a status. Calling a method nobody registered
  throws, which ends the process. The answer goes to the second channel; \<^verbatim>\<open>RunOnce\<close> is the greeting and one call.
\<close>

type_synonym handler = "Request \<Rightarrow> Request \<Rightarrow> (Request \<times> Request \<times> u32) run"

definition RunOnce_hello :: "channel \<Rightarrow> channel run" where
  "RunOnce_hello out = rbind (write_ipc (fst out) (le32 magic_numb) (snd out)) (\<lambda>(ans, pipe, n). Ret (ans, pipe))"

definition RunOnce_serve ::
  "allocator \<Rightarrow> (u32 \<times> u32) \<times> (u32 \<times> u32) \<Rightarrow> (u32 \<rightharpoonup> handler) \<Rightarrow> channel \<Rightarrow> channel \<Rightarrow> (channel \<times> channel) run" where
  "RunOnce_serve al hdrs handlers inp out =
     rbind (RecvHeader inp (Request_new al (fst hdrs))) (\<lambda>(inp1, req1, ok1).
       if \<not> ok1 then Ret (inp1, out)
       else rbind (RecvBuf al inp1 req1) (\<lambda>(inp2, req2, ok2).
         if \<not> ok2 then Ret (inp2, out)
         else case handlers (method_id req2) of
           None \<Rightarrow> AssertFail
         | Some func \<Rightarrow> rbind (func req2 (Request_new al (snd hdrs))) (\<lambda>(req3, rsp, ec).
             rbind (SendHeader out (SetMethodId ec rsp)) (\<lambda>(out1, rsp1, ok3).
               if \<not> ok3 then Ret (inp2, out1)
               else rbind (SendBuf out1 rsp1) (\<lambda>(out2, ok4). Ret (inp2, out2))))))"

text \<open>
  The client's constructor reads the greeting and goes on whatever it reads. \<^verbatim>\<open>Call\<close> returns the status of the response, or
  \<^verbatim>\<open>kIpcError\<close>, which is 1; what the other process does between the request and the response is an argument.
\<close>

definition IpcClient_new :: "channel \<Rightarrow> (channel \<times> bool) run" where
  "IpcClient_new inp =
     rbind (read_ipc (fst inp) 4 (snd inp)) (\<lambda>(ans, pipe, got, n).
       Ret ((ans, pipe), n = 4 \<and> un_le32 got = magic_numb))"

definition Call ::
  "allocator \<Rightarrow> (channel \<Rightarrow> channel \<Rightarrow> (channel \<times> channel) run) \<Rightarrow> channel \<Rightarrow> channel \<Rightarrow> Request \<Rightarrow> Request \<Rightarrow>
    ((channel \<times> channel) \<times> Request \<times> Request \<times> u32) run" where
  "Call al peer out inp req rsp =
     rbind (SendHeader out req) (\<lambda>(out1, req1, ok1).
       if \<not> ok1 then Ret ((out1, inp), req1, rsp, 1)
       else rbind (SendBuf out1 req1) (\<lambda>(out2, ok2).
         if \<not> ok2 then Ret ((out2, inp), req1, rsp, 1)
         else rbind (peer out2 inp) (\<lambda>(out3, inp1).
           rbind (RecvHeader inp1 rsp) (\<lambda>(inp2, rsp1, ok3).
             if \<not> ok3 then Ret ((out3, inp2), req1, rsp1, 1)
             else rbind (RecvBuf al inp2 rsp1) (\<lambda>(inp3, rsp2, ok4).
               if \<not> ok4 then Ret ((out3, inp3), req1, rsp2, 1)
               else Ret ((out3, inp3), req1, rsp2, method_id rsp2))))))"

subsection \<open>The doubling loop\<close>

lemma double_until_stop: "\<not> n < new_size \<Longrightarrow> double_until n new_size = Some n"
  by (subst double_until.simps) simp

lemma double_until_go: "n < new_size \<Longrightarrow> double_until n new_size = double_until (n * 2) new_size"
  by (subst double_until.simps) simp

lemma double_until_Some:
  assumes ret: "double_until n new_size = Some r"
  shows "new_size \<le> r \<and> (\<exists>k. r = n * 2 ^ k)"
proof (rule double_until.raw_induct [where P = "\<lambda>n new_size r. new_size \<le> r \<and> (\<exists>k. r = n * 2 ^ k)", OF _ ret])
  fix f :: "u32 \<Rightarrow> u32 \<Rightarrow> u32 option" and n new_size r
  assume IH: "\<And>n new_size r. f n new_size = Some r \<Longrightarrow> new_size \<le> r \<and> (\<exists>k. r = n * 2 ^ k)"
    and eq: "(if n < new_size then f (n * 2) new_size else Some n) = Some r"
  show "new_size \<le> r \<and> (\<exists>k. r = n * 2 ^ k)"
  proof (cases "n < new_size")
    case True
    then obtain k where "new_size \<le> r" "r = n * 2 * 2 ^ k" using IH eq by fastforce
    then show ?thesis by (metis mult.assoc power_Suc)
  next
    case False
    then show ?thesis using eq by (auto intro: exI [of _ 0])
  qed
qed

lemma power_word32_le: "(2 :: u32) ^ k \<le> 2 ^ 31"
proof (cases "k < 32")
  case True
  then have "unat ((2 :: u32) ^ k) = 2 ^ k" by simp
  moreover have "(2 :: nat) ^ k \<le> 2 ^ 31" using True by (intro power_increasing) auto
  ultimately show ?thesis by (simp add: word_le_nat_alt)
next
  case False
  then have "(2 :: u32) ^ k = 0" by simp
  then show ?thesis by (simp only: word_zero_le)
qed

text \<open>It ends exactly when the size asked for is at most half of the address range.\<close>

lemma double_until_hangs: "2 ^ 31 < new_size \<Longrightarrow> double_until (2 ^ k) new_size = None"
proof (rule ccontr)
  assume n: "2 ^ 31 < new_size" and "double_until (2 ^ k) new_size \<noteq> None"
  then obtain r where "double_until (2 ^ k) new_size = Some r" by blast
  from double_until_Some [OF this] obtain j where "new_size \<le> 2 ^ k * 2 ^ j" by blast
  also have "2 ^ k * 2 ^ j \<le> (2 ^ 31 :: u32)" using power_word32_le [of "k + j"] by (simp add: power_add)
  finally show False using n by simp
qed

lemma double_until_ends:
  assumes "k \<le> 31" and "new_size \<le> 2 ^ 31"
  shows "\<exists>j. k \<le> j \<and> j \<le> 31 \<and> double_until (2 ^ k) new_size = Some (2 ^ j) \<and> new_size \<le> 2 ^ j"
  using assms(1)
proof (induction k rule: inc_induct)
  case base
  then show ?case using assms(2) by (intro exI [of _ 31]) (simp add: double_until_stop not_less)
next
  case (step k)
  show ?case
  proof (cases "2 ^ k < new_size")
    case True
    then have "double_until (2 ^ k) new_size = double_until (2 ^ Suc k) new_size"
      by (simp add: double_until_go mult.commute)
    then show ?thesis using step.IH by (metis Suc_leD)
  next
    case False
    then show ?thesis using step.hyps by (intro exI [of _ k]) (simp add: double_until_stop not_less)
  qed
qed

subsection \<open>The invariant of a message\<close>

text \<open>A message that holds \<^term>\<open>body\<close>; the size of its block is a power of two.\<close>

definition msg_inv :: "IPCMessage \<Rightarrow> byte list \<Rightarrow> bool" where
  "msg_inv m body =
     (\<exists>k b. 10 \<le> k \<and> k \<le> 31 \<and> buf_size m = 2 ^ k \<and> buf_ptr m = Some b \<and> length b = 2 ^ k \<and>
        length body \<le> length b \<and> take (length body) b = body \<and> write_ptr m = length body \<and> write_len m = of_nat (length body))"

definition memory :: "allocator \<Rightarrow> bool" where
  "memory al = (\<forall>k. fst al (2 ^ k))"

lemma memory_malloc: "memory al \<Longrightarrow> k < 32 \<Longrightarrow> \<exists>b. malloc al (2 ^ k) = Some b \<and> length b = 2 ^ k"
  by (simp add: memory_def malloc_def)

lemma new_msg_inv: "memory al \<Longrightarrow> msg_inv (IPCMessage_new al) [] \<and> read_ptr (IPCMessage_new al) = 0"
  using memory_malloc [of al 10] by (fastforce simp: msg_inv_def IPCMessage_new_def)

lemma write_len_nat: "msg_inv m body \<Longrightarrow> unat (write_len m) = length body"
  by (auto simp: msg_inv_def unat_of_nat take_bit_eq_mod power_increasing intro!: mod_less elim!: order_le_less_trans
      dest!: power_increasing [of _ 31 "2::nat"])

lemma expand_ok:
  assumes inv: "msg_inv m body" and n: "new_size \<le> 2 ^ 31" and mem: "memory al"
  shows "\<exists>m'. ExpandBuf al new_size m = Ret m' \<and> msg_inv m' body \<and> new_size \<le> buf_size m' \<and>
    (read_ptr m = 0 \<longrightarrow> read_ptr m' = 0)"
proof (cases "new_size \<le> buf_size m")
  case True
  then show ?thesis using inv by (simp add: ExpandBuf_def)
next
  case False
  from inv obtain k b where k: "10 \<le> k" "k \<le> 31" "buf_size m = 2 ^ k" and b: "buf_ptr m = Some b" "length b = 2 ^ k"
    "length body \<le> length b" "take (length body) b = body" "write_ptr m = length body"
    by (auto simp: msg_inv_def)
  obtain j where j: "k \<le> j" "j \<le> 31" "double_until (2 ^ k) new_size = Some (2 ^ j)" "new_size \<le> 2 ^ j"
    using double_until_ends [OF k(2) n] by blast
  obtain b' where b': "malloc al (2 ^ j) = Some b'" "length b' = 2 ^ j" using memory_malloc [OF mem, of j] j(2) by auto
  have le: "length body \<le> length b'" using b(2,3) b'(2) j(1) by (metis le_trans one_le_numeral power_increasing)
  show ?thesis using False k b j b' le write_len_nat [OF inv] inv
    by (auto simp: ExpandBuf_def Let_def peek_def poke_def msg_inv_def)
qed

subsection \<open>Appending and reading back\<close>

definition frame :: "byte list \<Rightarrow> byte list" where
  "frame str = le32 (of_nat (length str)) @ str"

definition frames :: "byte list list \<Rightarrow> byte list" where
  "frames strs = concat (map frame strs)"

lemma length_frame [simp]: "length (frame str) = 4 + length str"
  by (simp add: frame_def)

lemma put_ok:
  assumes inv: "msg_inv m body" and n: "length body + length bs \<le> unat (buf_size m)"
  shows "\<exists>m'. put_bytes bs m = Ret m' \<and> msg_inv m' (body @ bs) \<and> buf_size m' = buf_size m \<and> read_ptr m' = read_ptr m"
proof -
  from inv obtain k b where k: "10 \<le> k" "k \<le> 31" "buf_size m = 2 ^ k" and b: "buf_ptr m = Some b" "length b = 2 ^ k"
    "take (length body) b = body" "write_ptr m = length body" "write_len m = of_nat (length body)"
    by (auto simp: msg_inv_def)
  have "length body + length bs \<le> length b" using n k b by simp
  from poke_append [OF b(3) refl this] obtain b' where
    b': "poke (length body) bs b = Ret b'" "length b' = length b" "take (length body + length bs) b' = body @ bs" by blast
  then show ?thesis using k b \<open>length body + length bs \<le> length b\<close>
    by (auto simp: put_bytes_def msg_inv_def)
qed

lemma append_msg_ok:
  assumes inv: "msg_inv m body" and n: "length body + length (frame str) \<le> 2 ^ 31" and mem: "memory al"
  shows "\<exists>m'. Append al str m = Ret m' \<and> msg_inv m' (body @ frame str) \<and> (read_ptr m = 0 \<longrightarrow> read_ptr m' = 0)"
proof -
  let ?len = "of_nat (length str) :: u32" let ?new = "write_len m + ?len + 4"
  have len: "unat ?len = length str" using n by (intro unat_of_nat32) simp
  have "write_len m = of_nat (length body)" using inv by (auto simp: msg_inv_def)
  then have eq: "?new = of_nat (length body + length str + 4)" by simp
  have new: "unat ?new = length body + length str + 4" unfolding eq using n by (intro unat_of_nat32) simp
  then have le: "?new \<le> 2 ^ 31" using n by (simp add: word_le_nat_alt)
  obtain m1 where m1: "(if buf_size m < ?new then ExpandBuf al ?new m else Ret m) = Ret m1" "msg_inv m1 body" "?new \<le> buf_size m1"
    "read_ptr m = 0 \<longrightarrow> read_ptr m1 = 0"
    using expand_ok [OF inv le mem] inv by (cases "buf_size m < ?new") auto
  have fit: "length body + length str + 4 \<le> unat (buf_size m1)" using m1(3) new by (simp add: word_le_nat_alt)
  obtain m2 where m2: "put_bytes (le32 ?len) m1 = Ret m2" "msg_inv m2 (body @ le32 ?len)" "buf_size m2 = buf_size m1" "read_ptr m2 = read_ptr m1"
    using put_ok [OF m1(2), of "le32 ?len"] fit by auto
  obtain m3 where "put_bytes str m2 = Ret m3" "msg_inv m3 (body @ le32 ?len @ str)" "read_ptr m3 = read_ptr m2"
    using put_ok [OF m2(2), of str] fit m2(3) by auto
  then show ?thesis using m1 m2 len by (simp add: Append_def Let_def frame_def)
qed

text \<open>Reading at a position where a frame starts returns its string and moves behind it.\<close>

lemma substr_ok:
  assumes b: "buf_ptr m = Some b" and f: "drop (read_ptr m) b = frame str @ rest" and n: "length str < 2 ^ 32"
  shows "\<exists>m'. SubStr m = Ret (m', str) \<and> buf_ptr m' = Some b \<and> drop (read_ptr m') b = rest"
proof -
  have len: "length b - read_ptr m = 4 + length str + length rest" using arg_cong [OF f, of length] by simp
  have d: "drop (read_ptr m + 4) b = str @ rest"
    using arg_cong [OF f, of "drop 4"] by (simp add: frame_def add.commute)
  have "drop (length str) (drop (read_ptr m + 4) b) = rest" unfolding d by simp
  then have "drop (read_ptr m + 4 + length str) b = rest" by (metis drop_drop add.commute)
  moreover note d
  moreover have "take 4 (drop (read_ptr m) b) = le32 (of_nat (length str))" unfolding f by (simp add: frame_def)
  ultimately show ?thesis using b len n
    by (simp add: SubStr_def get_bytes_def peek_def unat_of_nat32)
qed

text \<open>All strings of a message, one after the other.\<close>

fun append_all :: "allocator \<Rightarrow> byte list list \<Rightarrow> Request \<Rightarrow> Request run" where
  "append_all al [] r = Ret r"
| "append_all al (str # strs) r = rbind (req_Append al str r) (append_all al strs)"

fun substr_all :: "nat \<Rightarrow> Request \<Rightarrow> (Request \<times> byte list list) run" where
  "substr_all 0 r = Ret (r, [])"
| "substr_all (Suc n) r = rbind (req_SubStr r) (\<lambda>(r1, str). rbind (substr_all n r1) (\<lambda>(r2, strs). Ret (r2, str # strs)))"

lemma frames_simps [simp]: "frames [] = []" "frames (str # strs) = frame str @ frames strs"
  by (simp_all add: frames_def)

lemma append_all_ok:
  "msg_inv (req_msg r) body \<Longrightarrow> length body + length (frames strs) \<le> 2 ^ 31 \<Longrightarrow> memory al \<Longrightarrow>
   \<exists>r'. append_all al strs r = Ret r' \<and> msg_inv (req_msg r') (body @ frames strs) \<and> method_id r' = method_id r"
proof (induction strs arbitrary: r body)
  case (Cons str strs)
  obtain m1 where 1: "Append al str (req_msg r) = Ret m1" "msg_inv m1 (body @ frame str)"
    using append_msg_ok [OF Cons.prems(1), of str al] Cons.prems by auto
  then show ?case
    using Cons.IH [of "r\<lparr>req_msg := m1\<rparr>" "body @ frame str"] Cons.prems by (auto simp: req_Append_def)
qed simp

lemma substr_all_ok:
  "buf_ptr (req_msg r) = Some b \<Longrightarrow> drop (read_ptr (req_msg r)) b = frames strs @ rest \<Longrightarrow> length b < 2 ^ 32 \<Longrightarrow>
   \<exists>r'. substr_all (length strs) r = Ret (r', strs)"
proof (induction strs arbitrary: r)
  case (Cons str strs)
  have "length (drop (read_ptr (req_msg r)) b) < 2 ^ 32" using Cons.prems(3) by simp
  then have "length str < 2 ^ 32" unfolding Cons.prems(2) by simp
  then obtain m1 where 1: "SubStr (req_msg r) = Ret (m1, str)" "buf_ptr m1 = Some b" "drop (read_ptr m1) b = frames strs @ rest"
    using substr_ok [OF Cons.prems(1), of str "frames strs @ rest"] Cons.prems(2) by auto
  then show ?case using Cons.IH [of "r\<lparr>req_msg := m1\<rparr>"] Cons.prems(3) by (auto simp: req_SubStr_def)
qed simp

subsection \<open>Over the pipe\<close>

text \<open>
  The answers with which the kernel moves \<^term>\<open>n\<close> bytes in pieces of its choice: what is left of them, or nothing when they
  fail or do not add up.
\<close>

fun moves :: "io list \<Rightarrow> nat \<Rightarrow> io list option" where
  "moves ans 0 = Some ans"
| "moves [] n = None"
| "moves (Moved k # ans) n = (if 0 < k \<and> k \<le> n then moves ans (n - k) else None)"
| "moves (Again # ans) n = moves ans n"
| "moves (Failed # ans) n = None"

fun moves_all :: "io list \<Rightarrow> nat list \<Rightarrow> bool" where
  "moves_all ans [] = True"
| "moves_all ans (n # ns) = (case moves ans n of None \<Rightarrow> False | Some rest \<Rightarrow> moves_all rest ns)"

lemma write_moves:
  "moves ans (length bs) = Some rest \<Longrightarrow> write_loop ans bs pipe t = Ret (rest, pipe @ bs, t + length bs)"
proof (induction ans bs pipe t rule: write_loop.induct)
  case (3 n ans b bs pipe moved)
  then have "n \<le> length (b # bs)" "moves ans (length (drop n (b # bs))) = Some rest" by (auto split: if_splits)
  then have "write_loop ans (drop n (b # bs)) (pipe @ take n (b # bs)) (moved + n) =
      Ret (rest, (pipe @ take n (b # bs)) @ drop n (b # bs), moved + n + length (drop n (b # bs)))"
    using "3.IH" by fastforce
  then show ?case using \<open>n \<le> length (b # bs)\<close> by (simp only: write_loop.simps append.assoc append_take_drop_id) simp
qed auto

lemma read_moves:
  "moves ans n = Some rest \<Longrightarrow> n \<le> length pipe \<Longrightarrow>
   read_loop ans n pipe got = Ret (rest, drop n pipe, got @ take n pipe, length got + n)"
proof (induction ans n pipe got rule: read_loop.induct)
  case (3 k ans v pipe got)
  then have k: "0 < k" "k \<le> Suc v" "moves ans (Suc v - k) = Some rest" by (auto split: if_splits)
  then have "read_loop ans (Suc v - k) (drop k pipe) (got @ take k pipe) =
      Ret (rest, drop (Suc v - k) (drop k pipe), (got @ take k pipe) @ take (Suc v - k) (drop k pipe),
        length (got @ take k pipe) + (Suc v - k))"
    using 3 by simp
  moreover have "take k pipe @ take (Suc v - k) (drop k pipe) = take (Suc v) pipe"
    using k(2) by (metis le_add_diff_inverse take_add)
  moreover have "length (take k pipe) = k" using k(2) "3.prems"(2) by simp
  ultimately show ?case using k "3.prems"(2) by simp
qed auto



definition header :: "u32 \<Rightarrow> byte list \<Rightarrow> byte list" where
  "header i body = le32 i @ le32 (of_nat (length body))"

lemma length_header [simp]: "length (header i body) = 8"
  by (simp add: header_def)

text \<open>A request sent by these calls, under answers that move it completely.\<close>

lemma send_ok:
  assumes inv: "msg_inv (req_msg r) body" and a1: "moves ans 8 = Some a1" and a2: "moves a1 (length body) = Some a2"
  shows "\<exists>r1. SendHeader (ans, pipe) r = Ret ((a1, pipe @ header (method_id r) body), r1, True) \<and>
    SendBuf (a1, pipe @ header (method_id r) body) r1 = Ret ((a2, pipe @ header (method_id r) body @ body), True) \<and>
    req_msg r1 = req_msg r"
proof -
  let ?r1 = "r\<lparr>msg_len := write_len (req_msg r)\<rparr>"
  from inv obtain b where b: "buf_ptr (req_msg r) = Some b" "length body \<le> length b" "take (length body) b = body"
    "write_len (req_msg r) = of_nat (length body)" by (auto simp: msg_inv_def)
  have len: "unat (msg_len ?r1) = length body" using write_len_nat [OF inv] by simp
  have "write_ipc ans (header (method_id r) body) pipe = Ret (a1, pipe @ header (method_id r) body, 8)"
    using write_moves [of ans "header (method_id r) body" a1 pipe 0] a1 by (simp add: write_ipc_def)
  then have 1: "SendHeader (ans, pipe) r = Ret ((a1, pipe @ header (method_id r) body), ?r1, True)"
    using b(4) by (simp add: SendHeader_def Let_def header_def)
  have "SendBuf (a1, q) ?r1 = Ret ((a2, q @ body), True)" for q
    using len b a2 write_moves [OF a2, of q 0] by (auto simp: SendBuf_def Let_def peek_def write_ipc_def)
  then show ?thesis using 1 by auto
qed

definition shows_strs :: "Request \<Rightarrow> byte list list \<Rightarrow> bool" where
  "shows_strs r strs =
     (\<exists>b rest. buf_ptr (req_msg r) = Some b \<and> drop (read_ptr (req_msg r)) b = frames strs @ rest \<and> length b < 2 ^ 32)"

lemma recv_ok:
  assumes inv: "msg_inv (req_msg r) []" "read_ptr (req_msg r) = 0" and mem: "memory al" and n: "length body \<le> 2 ^ 31"
    and a1: "moves ans 8 = Some a1" and a2: "moves a1 (length body) = Some a2"
  shows "\<exists>r1 r2 b. RecvHeader (ans, header i body @ body @ rest) r = Ret ((a1, body @ rest), r1, True) \<and>
    RecvBuf al (a1, body @ rest) r1 = Ret ((a2, rest), r2, True) \<and> method_id r2 = i \<and>
    buf_ptr (req_msg r2) = Some b \<and> read_ptr (req_msg r2) = 0 \<and> length b < 2 ^ 32 \<and> take (length body) b = body"
proof -
  let ?r1 = "r\<lparr>method_id := i, msg_len := of_nat (length body)\<rparr>"
  have h: "take 4 (header i body) = le32 i" "drop 4 (header i body) = le32 (of_nat (length body))" by (simp_all add: header_def)
  have "read_ipc ans 8 (header i body @ body @ rest) = Ret (a1, body @ rest, header i body, 8)"
    using read_moves [OF a1, of "header i body @ body @ rest" "[]"] by (simp add: read_ipc_def)
  then have 1: "RecvHeader (ans, header i body @ body @ rest) r = Ret ((a1, body @ rest), ?r1, True)"
    by (simp add: RecvHeader_def h)
  have len: "unat (of_nat (length body) :: u32) = length body" using n by (intro unat_of_nat32) simp
  then have "of_nat (length body) \<le> (2 ^ 31 :: u32)" using n by (simp add: word_le_nat_alt)
  from expand_ok [OF inv(1) this mem] inv(2) obtain m where
    m: "ExpandBuf al (of_nat (length body)) (req_msg r) = Ret m" "msg_inv m []" "of_nat (length body) \<le> buf_size m" "read_ptr m = 0" by auto
  from m(2) obtain k b where b: "k \<le> 31" "buf_size m = 2 ^ k" "buf_ptr m = Some b" "length b = 2 ^ k" by (auto simp: msg_inv_def)
  have fit: "length body \<le> length b" using m(3) b len by (simp add: word_le_nat_alt)
  have "(2 :: nat) ^ k < 2 ^ 32" using b(1) by (intro power_strict_increasing) auto
  moreover have "read_ipc a1 (length body) (body @ rest) = Ret (a2, rest, body, length body)"
    using read_moves [OF a2, of "body @ rest" "[]"] by (simp add: read_ipc_def)
  ultimately show ?thesis using 1 m b fit len by (simp add: RecvBuf_def Let_def poke_def)
qed

lemma recv_shows:
  assumes "buf_ptr (req_msg r) = Some b" "read_ptr (req_msg r) = 0" "length b < 2 ^ 32" "take (length (frames strs)) b = frames strs"
  shows "shows_strs r strs"
  using assms append_take_drop_id [of "length (frames strs)" b] unfolding shows_strs_def
  by (intro exI [of _ b] exI [of _ "drop (length (frames strs)) b"]) simp

lemma request_new_inv: "memory al \<Longrightarrow> msg_inv (req_msg (Request_new al hdr)) [] \<and> read_ptr (req_msg (Request_new al hdr)) = 0"
  using new_msg_inv [of al] by (simp add: Request_new_def)

text \<open>A request or response from the calls that build it to the calls that receive it.\<close>

lemma request_holds:
  assumes "memory al" and "length (frames strs) \<le> 2 ^ 31"
  shows "\<exists>r. append_all al strs (SetMethodId i (Request_new al h)) = Ret r \<and> msg_inv (req_msg r) (frames strs) \<and> method_id r = i"
proof -
  have "msg_inv (req_msg (SetMethodId i (Request_new al h))) []" using request_new_inv [OF assms(1), of h] by (simp add: SetMethodId_def)
  from append_all_ok [OF this, of strs al] show ?thesis using assms by (auto simp: SetMethodId_def)
qed

lemma transfer_ok:
  assumes inv: "msg_inv (req_msg r) body" and mem: "memory al" and n: "length body \<le> 2 ^ 31"
    and ans: "moves_all ans [8, length body, 8, length body]"
  obtains ch1 r1 ch2 q1 ch3 q2 a b where "SendHeader (ans, []) r = Ret (ch1, r1, True)" "SendBuf ch1 r1 = Ret (ch2, True)"
    "RecvHeader ch2 (Request_new al h) = Ret (ch3, q1, True)" "RecvBuf al ch3 q1 = Ret ((a, []), q2, True)" "method_id q2 = method_id r"
    "buf_ptr (req_msg q2) = Some b" "read_ptr (req_msg q2) = 0" "length b < 2 ^ 32" "take (length body) b = body"
proof -
  obtain a1 a2 a3 a4 where a: "moves ans 8 = Some a1" "moves a1 (length body) = Some a2" "moves a2 8 = Some a3" "moves a3 (length body) = Some a4"
    using ans by (auto split: option.splits)
  show ?thesis
    using send_ok [OF inv a(1,2), of "[]"] request_new_inv [OF mem, of h]
      recv_ok [OF _ _ mem n a(3,4), of "Request_new al h" "method_id r" "[]"] that by auto
qed

section \<open>Properties\<close>



text \<open>
  C36: The doubling loop of \<^verbatim>\<open>ExpandBuf\<close> ends exactly for sizes up to 2 GiB: beyond, the 32-bit size wraps to 0, which stays 0, and
  the call never returns. Up to it the block ends up large enough, with the contents kept.
\<close>

theorem expandbuf_terminates_iff:
  assumes "msg_inv m body" and "memory al"
  shows "(ExpandBuf al new_size m = Hang) = (2 ^ 31 < new_size) \<and>
    (new_size \<le> 2 ^ 31 \<longrightarrow> (\<exists>m'. ExpandBuf al new_size m = Ret m' \<and> msg_inv m' body \<and> new_size \<le> buf_size m'))"
proof (cases "new_size \<le> 2 ^ 31")
  case True
  then show ?thesis using expand_ok [OF assms(1) True assms(2)] by auto
next
  case False
  then have n: "2 ^ 31 < new_size" by simp
  obtain k where k: "buf_size m = 2 ^ k" using assms(1) by (auto simp: msg_inv_def)
  have "\<not> new_size \<le> buf_size m" using power_word32_le [of k] n unfolding k by (meson not_le order_le_less_trans)
  then show ?thesis using double_until_hangs [OF n, of k] False by (simp add: ExpandBuf_def k)
qed

theorem expandbuf_terminates_iff_witness:
  "ExpandBuf (\<lambda>n. True, \<lambda>i. 0) 0x80000001 (IPCMessage_new (\<lambda>n. True, \<lambda>i. 0)) = Hang \<and>
   (\<exists>m'. ExpandBuf (\<lambda>n. True, \<lambda>i. 0) 3000 (IPCMessage_new (\<lambda>n. True, \<lambda>i. 0)) = Ret m' \<and> msg_inv m' [] \<and> 3000 \<le> buf_size m')"
proof -
  have mem: "memory (\<lambda>n. True, \<lambda>i. 0)" by (simp add: memory_def)
  note inv = conjunct1 [OF new_msg_inv [OF mem]]
  show ?thesis
    using expandbuf_terminates_iff [OF inv mem, of "0x80000001"] expandbuf_terminates_iff [OF inv mem, of 3000] by simp
qed

text \<open>
  C34: A request survives the pipe: any strings appended to a fresh request, up to 2 GiB in all, then sent and received by the calls of
  the class under any answers of the kernel that move the bytes, are read back by as many calls of \<^verbatim>\<open>SubStr\<close>, in order and
  unchanged, together with the method.
\<close>

theorem ipc_roundtrip:
  assumes "memory al" and "memory al'" and "length (frames strs) \<le> 2 ^ 31"
    and "moves_all ans [8, length (frames strs), 8, length (frames strs)]"
  shows "rbind (append_all al strs (SetMethodId i (Request_new al h))) (\<lambda>r.
         rbind (SendHeader (ans, []) r) (\<lambda>(ch1, r1, ok1).
         rbind (SendBuf ch1 r1) (\<lambda>(ch2, ok2).
         rbind (RecvHeader ch2 (Request_new al' h')) (\<lambda>(ch3, q1, ok3).
         rbind (RecvBuf al' ch3 q1) (\<lambda>(ch4, q2, ok4).
         rbind (substr_all (length strs) q2) (\<lambda>(q3, out).
           Ret (ok1 \<and> ok2 \<and> ok3 \<and> ok4, method_id q2, out))))))) = Ret (True, i, strs)"
proof -
  obtain r where r: "append_all al strs (SetMethodId i (Request_new al h)) = Ret r" "msg_inv (req_msg r) (frames strs)" "method_id r = i"
    using request_holds [OF assms(1,3)] by blast
  obtain ch1 r1 ch2 q1 ch3 q2 a b where q: "SendHeader (ans, []) r = Ret (ch1, r1, True)" "SendBuf ch1 r1 = Ret (ch2, True)"
    "RecvHeader ch2 (Request_new al' h') = Ret (ch3, q1, True)" "RecvBuf al' ch3 q1 = Ret ((a, []), q2, True)" "method_id q2 = method_id r"
    "buf_ptr (req_msg q2) = Some b" "read_ptr (req_msg q2) = 0" "length b < 2 ^ 32" "take (length (frames strs)) b = frames strs"
    by (rule transfer_ok [OF r(2) assms(2-4)])
  have "shows_strs q2 strs" by (rule recv_shows [OF q(6-9)])
  then obtain q3 where "substr_all (length strs) q2 = Ret (q3, strs)" using substr_all_ok [of q2 _ strs] by (fastforce simp: shows_strs_def)
  then show ?thesis using r q by simp
qed

theorem ipc_roundtrip_witness:
  "rbind (append_all (\<lambda>n. True, \<lambda>i. 0) [[1, 2], []] (SetMethodId 7 (Request_new (\<lambda>n. True, \<lambda>i. 0) (0, 0)))) (\<lambda>r.
   rbind (SendHeader ([Moved 8, Moved 3, Again, Moved 7, Moved 8, Moved 10], []) r) (\<lambda>(ch1, r1, ok1).
   rbind (SendBuf ch1 r1) (\<lambda>(ch2, ok2).
   rbind (RecvHeader ch2 (Request_new (\<lambda>n. True, \<lambda>i. 0) (0, 0))) (\<lambda>(ch3, q1, ok3).
   rbind (RecvBuf (\<lambda>n. True, \<lambda>i. 0) ch3 q1) (\<lambda>(ch4, q2, ok4).
   rbind (substr_all (length [[1, 2], [] :: byte list]) q2) (\<lambda>(q3, out).
     Ret (ok1 \<and> ok2 \<and> ok3 \<and> ok4, method_id q2, out))))))) = Ret (True, 7, [[1, 2], []])"
proof -
  have mem: "memory (\<lambda>n. True, \<lambda>i. 0)" by (simp add: memory_def)
  have n: "length (frames [[1, 2], []]) = 10" by simp
  have "moves_all [Moved 8, Moved 3, Again, Moved 7, Moved 8, Moved 10] [8, 10, 8, 10]" by code_simp
  with n show ?thesis by (intro ipc_roundtrip [OF mem mem]) simp_all
qed

text \<open>
  What a registered function promises for the strings of a request: it succeeds with a response that holds the one string
  \<^term>\<open>out\<close>.
\<close>

definition answers_with :: "allocator \<Rightarrow> handler \<Rightarrow> byte list list \<Rightarrow> byte list \<Rightarrow> bool" where
  "answers_with al func strs out =
     (\<forall>req hdr. shows_strs req strs \<longrightarrow>
        (\<exists>req' rsp. func req (Request_new al hdr) = Ret (req', rsp, 0) \<and> msg_inv (req_msg rsp) (frame out)))"

lemma call_ok:
  assumes "memory al" and "memory al'" and "length (frames strs) \<le> 2 ^ 31" and "length (frame out) \<le> 2 ^ 31"
    and "handlers i = Some func" and "answers_with al' func strs out"
    and "moves_all ans [8, length (frames strs), 8, length (frames strs)]"
    and "moves_all ans' [8, length (frame out), 8, length (frame out)]"
  shows "\<exists>req a a' req' rsp rsp'. append_all al strs (SetMethodId i (Request_new al h)) = Ret req \<and>
    Call al (RunOnce_serve al' hdrs handlers) (ans, []) (ans', []) req (Request_new al h') = Ret (((a, []), (a', [])), req', rsp, 0) \<and>
    req_SubStr rsp = Ret (rsp', out)"
proof -
  obtain r where r: "append_all al strs (SetMethodId i (Request_new al h)) = Ret r" "msg_inv (req_msg r) (frames strs)" "method_id r = i"
    using request_holds [OF assms(1,3)] by blast
  obtain ch1 r1 ch2 q1 ch3 q2 a b where q: "SendHeader (ans, []) r = Ret (ch1, r1, True)" "SendBuf ch1 r1 = Ret (ch2, True)"
    "RecvHeader ch2 (Request_new al' (fst hdrs)) = Ret (ch3, q1, True)" "RecvBuf al' ch3 q1 = Ret ((a, []), q2, True)" "method_id q2 = method_id r"
    "buf_ptr (req_msg q2) = Some b" "read_ptr (req_msg q2) = 0" "length b < 2 ^ 32" "take (length (frames strs)) b = frames strs"
    by (rule transfer_ok [OF r(2) assms(2,3,7)])
  obtain req' rsp where f: "func q2 (Request_new al' (snd hdrs)) = Ret (req', rsp, 0)" "msg_inv (req_msg rsp) (frame out)"
    using assms(6) recv_shows [OF q(6-9)] unfolding answers_with_def by blast
  have inv: "msg_inv (req_msg (SetMethodId 0 rsp)) (frame out)" using f(2) by (simp add: SetMethodId_def)
  obtain dh1 p1 dh2 t1 dh3 t2 c d where t: "SendHeader (ans', []) (SetMethodId 0 rsp) = Ret (dh1, p1, True)" "SendBuf dh1 p1 = Ret (dh2, True)"
    "RecvHeader dh2 (Request_new al h') = Ret (dh3, t1, True)" "RecvBuf al dh3 t1 = Ret ((c, []), t2, True)" "method_id t2 = method_id (SetMethodId 0 rsp)"
    "buf_ptr (req_msg t2) = Some d" "read_ptr (req_msg t2) = 0" "length d < 2 ^ 32" "take (length (frame out)) d = frame out"
    by (rule transfer_ok [OF inv assms(1,4,8)])
  have "shows_strs t2 [out]" using recv_shows [OF t(6-8), of "[out]"] t(9) by simp
  then obtain t3 where "SubStr (req_msg t2) = Ret (t3, out)"
    using substr_ok [of "req_msg t2" _ out] assms(4) by (fastforce simp: shows_strs_def)
  then have "req_SubStr t2 = Ret (t2\<lparr>req_msg := t3\<rparr>, out)" by (simp add: req_SubStr_def)
  moreover have "RunOnce_serve al' hdrs handlers ch2 (ans', []) = Ret ((a, []), dh2)"
    using q f t r(3) assms(5) by (simp add: RunOnce_serve_def)
  then have "Call al (RunOnce_serve al' hdrs handlers) (ans, []) (ans', []) r (Request_new al h') = Ret (((a, []), (c, [])), r1, t2, 0)"
    using q t by (simp add: Call_def SetMethodId_def)
  ultimately show ?thesis using r(1) by blast
qed

text \<open>A function that returns the first string of the request.\<close>

definition echo :: "allocator \<Rightarrow> handler" where
  "echo al req rsp = rbind (req_SubStr req) (\<lambda>(req', s). rbind (req_Append al s rsp) (\<lambda>rsp'. Ret (req', rsp', 0)))"

lemma echo_answers:
  assumes "memory al" and "length (frame str) \<le> 2 ^ 31"
  shows "answers_with al (echo al) (str # strs) str"
  unfolding answers_with_def
proof (intro allI impI)
  fix req hdr
  assume "shows_strs req (str # strs)"
  then obtain m where "SubStr (req_msg req) = Ret (m, str)"
    using substr_ok [of "req_msg req" _ str] assms(2) by (fastforce simp: shows_strs_def)
  moreover obtain m' where "Append al str (req_msg (Request_new al hdr)) = Ret m'" "msg_inv m' (frame str)"
    using append_msg_ok [of "req_msg (Request_new al hdr)" "[]" str al] request_new_inv [OF assms(1), of hdr] assms by auto
  ultimately show "\<exists>req' rsp. echo al req (Request_new al hdr) = Ret (req', rsp, 0) \<and> msg_inv (req_msg rsp) (frame str)"
    by (simp add: echo_def req_SubStr_def req_Append_def)
qed

text \<open>
  C35: A call between processes is a function call: a request with any strings to a method whose registered function promises
  a result for them returns the status 0, and \<^verbatim>\<open>SubStr\<close> of the response is that result; both pipes are empty afterwards. This is the
  client's \<^verbatim>\<open>Call\<close> over the server's \<^verbatim>\<open>RunOnce\<close>, with any pieces in which the kernel moves the bytes.
\<close>

theorem ipc_call_returns:
  assumes "memory al" and "memory al'" and "length (frames strs) \<le> 2 ^ 31" and "length (frame out) \<le> 2 ^ 31"
    and "handlers i = Some func" and "answers_with al' func strs out"
    and "moves_all ans [8, length (frames strs), 8, length (frames strs)]"
    and "moves_all ans' [8, length (frame out), 8, length (frame out)]"
  shows "\<exists>req a a' req' rsp rsp'. append_all al strs (SetMethodId i (Request_new al h)) = Ret req \<and>
    Call al (RunOnce_serve al' hdrs handlers) (ans, []) (ans', []) req (Request_new al h') = Ret (((a, []), (a', [])), req', rsp, 0) \<and>
    req_SubStr rsp = Ret (rsp', out)"
  using assms by (rule call_ok)

theorem ipc_call_returns_witness:
  "\<exists>req a a' req' rsp rsp'. append_all (\<lambda>n. True, \<lambda>i. 0) [[5]] (SetMethodId 0 (Request_new (\<lambda>n. True, \<lambda>i. 0) (0, 0))) = Ret req \<and>
    Call (\<lambda>n. True, \<lambda>i. 0) (RunOnce_serve (\<lambda>n. True, \<lambda>i. 0) ((0, 0), (0, 0))
[0 \<mapsto> echo (\<lambda>n. True, \<lambda>i. 0)])
      ([Moved 8, Moved 5, Moved 8, Moved 5], []) ([Moved 8, Moved 2, Moved 3, Moved 8, Again, Moved 5], []) req
      (Request_new (\<lambda>n. True, \<lambda>i. 0) (0, 0)) = Ret (((a, []), (a', [])), req', rsp, 0) \<and>
    req_SubStr rsp = Ret (rsp', [5])"
proof -
  have mem: "memory (\<lambda>n. True, \<lambda>i. 0)" by (simp add: memory_def)
  have m: "moves_all [Moved 8, Moved 5, Moved 8, Moved 5] [8, 5, 8, 5]" "moves_all [Moved 8, Moved 2, Moved 3, Moved 8, Again, Moved 5] [8, 5, 8, 5]"
    by code_simp+
  show ?thesis by (rule ipc_call_returns [OF mem mem]) (use m echo_answers [OF mem, of "[5]"] in simp_all)
qed

lemma put_over:
  assumes inv: "msg_inv m body" and n: "2 ^ 31 < length body + length bs"
  shows "put_bytes bs m = Undef"
proof -
  from inv obtain k b where k: "k \<le> 31" and b: "buf_ptr m = Some b" "length b = 2 ^ k" "write_ptr m = length body"
    by (auto simp: msg_inv_def)
  have "length b \<le> 2 ^ 31" unfolding b(2) using k by (intro power_increasing) auto
  then show ?thesis using b n by (simp add: put_bytes_def poke_def)
qed

text \<open>
  The size \<^verbatim>\<open>Append\<close> computes is a 32-bit sum: a string that makes the message 4 GiB or longer wraps it, the block is not made large
  enough and the copy of the string leaves the block, or the doubling never ends; the call is never completed.
\<close>

theorem append_size_wraps:
  assumes "msg_inv m body" and "memory al" and "length str < 2 ^ 32" and "2 ^ 32 \<le> length body + length str + 4"
  shows "Append al str m = Undef \<or> Append al str m = Hang"
proof -
  let ?len = "of_nat (length str) :: u32" let ?new = "write_len m + ?len + 4"
  have len: "unat ?len = length str" using assms(3) by (rule unat_of_nat32)
  have big: "2 ^ 31 < length (body @ le32 ?len) + length str" using assms(4) by simp
  have undef: "rbind (put_bytes (le32 ?len) m1) (put_bytes str) = Undef" if m1: "msg_inv m1 body" for m1
  proof (cases "length body + length (le32 ?len) \<le> unat (buf_size m1)")
    case True
    then show ?thesis using put_ok [OF m1 True] put_over [OF _ big] by auto
  next
    case False
    from m1 obtain k b where "k \<le> 31" "buf_ptr m1 = Some b" "length b = 2 ^ k" "buf_size m1 = 2 ^ k" "write_ptr m1 = length body"
      by (auto simp: msg_inv_def)
    then show ?thesis using False by (simp add: put_bytes_def poke_def)
  qed
  consider "\<not> buf_size m < ?new" | "buf_size m < ?new" "?new \<le> 2 ^ 31" | "buf_size m < ?new" "2 ^ 31 < ?new" by fastforce
  then show ?thesis
  proof cases
    case 1
    then show ?thesis using undef [OF assms(1)] len by (simp add: Append_def Let_def)
  next
    case 2
    obtain m1 where "ExpandBuf al ?new m = Ret m1" "msg_inv m1 body" using expand_ok [OF assms(1) 2(2) assms(2)] by blast
    then show ?thesis using 2(1) undef [of m1] len by (simp add: Append_def Let_def)
  next
    case 3
    obtain k where k: "buf_size m = 2 ^ k" using assms(1) by (auto simp: msg_inv_def)
    have "ExpandBuf al ?new m = Hang" using 3 double_until_hangs [OF 3(2), of k] by (simp add: ExpandBuf_def k)
    then show ?thesis using 3(1) by (simp add: Append_def Let_def)
  qed
qed

theorem append_size_wraps_witness:
  "Append (\<lambda>n. True, \<lambda>i. 0) (replicate (2 ^ 32 - 4) 0) (IPCMessage_new (\<lambda>n. True, \<lambda>i. 0)) = Undef \<or>
   Append (\<lambda>n. True, \<lambda>i. 0) (replicate (2 ^ 32 - 4) 0) (IPCMessage_new (\<lambda>n. True, \<lambda>i. 0)) = Hang"
proof -
  have mem: "memory (\<lambda>n. True, \<lambda>i. 0)" by (simp add: memory_def)
  have inv: "msg_inv (IPCMessage_new (\<lambda>n. True, \<lambda>i. 0)) []" using new_msg_inv [OF mem] by simp
  show ?thesis by (rule append_size_wraps [OF inv mem]) simp_all
qed

end
