(* ===== verification/Config_File.thy ===== *)
theory Config_File
  imports Ipc_Message
begin

section \<open>Configuration appended to an executable\<close>

text \<open>
  \<^verbatim>\<open>include/adk/encrypt_config.h\<close> and \<^verbatim>\<open>src/encrypt_config/encrypt_config.cpp\<close>: named strings, encrypted or not, are appended to a
  program file as entries, each an info block, the string and spare room, and a header at the very end of the file tells where
  the entries start and how many there are. The file stream is its bytes, one position for reading and writing, and
  whether an operation has failed; errors of the disk are left out. Encryption is a call to the service process, by the
  calls of \<^verbatim>\<open>ipc_call\<close>; the service itself and \<^verbatim>\<open>boost::hash_range\<close> are arguments.
\<close>

subsection \<open>The file stream\<close>

record fstream =
  fs_bytes :: "byte list"
  fs_pos :: nat
  fs_good :: bool
  fs_writable :: bool

definition seek_end :: "nat \<Rightarrow> fstream \<Rightarrow> fstream" where
  "seek_end back f =
     (if \<not> fs_good f then f
      else if length (fs_bytes f) < back then f\<lparr>fs_good := False\<rparr>
      else f\<lparr>fs_pos := length (fs_bytes f) - back\<rparr>)"

definition seek_to :: "u32 \<Rightarrow> fstream \<Rightarrow> fstream" where
  "seek_to p f = (if fs_good f then f\<lparr>fs_pos := unat p\<rparr> else f)"

text \<open>\<^verbatim>\<open>tellp\<close> converted to \<^verbatim>\<open>uint32_t\<close>; it is -1 on a failed stream.\<close>

definition tell :: "fstream \<Rightarrow> u32" where
  "tell f = (if fs_good f then of_nat (fs_pos f) else -1)"

text \<open>A read that finds fewer bytes than asked for fails the stream.\<close>

definition read_fs :: "nat \<Rightarrow> fstream \<Rightarrow> fstream \<times> byte list" where
  "read_fs n f =
     (if \<not> fs_good f then (f, [])
      else let got = take n (drop (fs_pos f) (fs_bytes f))
           in (f\<lparr>fs_pos := fs_pos f + length got, fs_good := length got = n\<rparr>, got))"

definition write_fs :: "byte list \<Rightarrow> fstream \<Rightarrow> fstream" where
  "write_fs bs f =
     (if \<not> fs_good f then f
      else if \<not> fs_writable f then f\<lparr>fs_good := False\<rparr>
      else let old = fs_bytes f; p = fs_pos f
           in f\<lparr>fs_bytes := take p old @ replicate (p - length old) 0 @ bs @ drop (p + length bs) old, fs_pos := p + length bs\<rparr>)"

subsection \<open>The structures\<close>

record ConfigFileInfo =
  file_name :: "byte list"
  file_size :: u32
  file_capacity :: u32

record EncryptHeader =
  file_num :: u32
  file_list_offset :: u32
  eigen_val :: "byte list"
  version :: "byte list"
  custom :: "byte list"

record ConfigFile =
  aes_key :: "byte list"
  conf_header :: EncryptHeader
  out_file :: "fstream option"
  file_list :: "ConfigFileInfo list"

abbreviation FileInfoLength :: nat where
  "FileInfoLength \<equiv> 264"

abbreviation HeaderLength :: nat where
  "HeaderLength \<equiv> 336"

definition zero_header :: EncryptHeader where
  "zero_header = \<lparr>file_num = 0, file_list_offset = 0, eigen_val = replicate 8 0, version = replicate 256 0, custom = replicate 64 0\<rparr>"

text \<open>The structures as the bytes they occupy, and back.\<close>

definition info_bytes :: "ConfigFileInfo \<Rightarrow> byte list" where
  "info_bytes i = file_name i @ le32 (file_size i) @ le32 (file_capacity i)"

definition info_of :: "byte list \<Rightarrow> ConfigFileInfo" where
  "info_of bs =
     \<lparr>file_name = take 256 bs, file_size = un_le32 (take 4 (drop 256 bs)), file_capacity = un_le32 (take 4 (drop 260 bs))\<rparr>"

definition header_bytes :: "EncryptHeader \<Rightarrow> byte list" where
  "header_bytes h = le32 (file_num h) @ le32 (file_list_offset h) @ eigen_val h @ version h @ custom h"

definition header_of :: "byte list \<Rightarrow> EncryptHeader" where
  "header_of bs =
     \<lparr>file_num = un_le32 (take 4 bs), file_list_offset = un_le32 (take 4 (drop 4 bs)), eigen_val = take 8 (drop 8 bs),
      version = take 256 (drop 16 bs), custom = take 64 (drop 272 bs)\<rparr>"

text \<open>A C string is what stands before the first zero byte; \<^verbatim>\<open>memcpy\<close> of a string to the start of a field.\<close>

definition cstr :: "byte list \<Rightarrow> byte list" where
  "cstr = takeWhile (\<lambda>b. b \<noteq> 0)"

definition set_field :: "byte list \<Rightarrow> byte list \<Rightarrow> byte list" where
  "set_field str field = str @ drop (length str) field"

fun array_xor :: "byte list \<Rightarrow> byte list \<Rightarrow> byte list" where
  "array_xor ws [] = []"
| "array_xor (w # ws) (b # bs) = (b XOR w) # array_xor (ws @ [w]) bs"
| "array_xor [] bs = bs"

definition ArrayXOR :: "byte list \<Rightarrow> byte list" where
  "ArrayXOR arr = array_xor [0x5f, 0x37, 0x59, 0xdf] arr"

definition ArchConf :: "byte list" where
  "ArchConf = [0x41, 0x72, 0x63, 0x68, 0x43, 0x6f, 0x6e, 0x66]"

subsection \<open>The key\<close>

definition key_mix :: "nat \<Rightarrow> byte \<Rightarrow> byte \<Rightarrow> byte \<Rightarrow> byte \<Rightarrow> byte" where
  "key_mix v a b c d =
     (if v = 0 then (a AND b) OR (c AND d)
      else if v = 1 then (a AND c) OR (b AND d)
      else if v = 2 then (a AND d) OR (b AND c)
      else (a XOR b) OR (c AND d))"

definition key_byte :: "nat \<Rightarrow> byte list \<Rightarrow> nat \<Rightarrow> byte" where
  "key_byte v code i =
     sum_list (map (\<lambda>k. key_mix v (code ! (16 * i + k)) (code ! (16 * i + k + 1)) (code ! (16 * i + k + 2)) (code ! (16 * i + k + 3)))
       [0, 4, 8, 12])"

definition GenerateKey :: "(byte list \<Rightarrow> u64) \<Rightarrow> byte list \<Rightarrow> byte list \<Rightarrow> byte list" where
  "GenerateKey hash_range custom_str md5_str =
     (if length md5_str \<noteq> 256 then []
      else map (key_byte (unat (drop_bit 28 (hash_range custom_str AND 0x30000000))) md5_str) [0..<16])"

subsection \<open>Entries\<close>

fun FindConfigFile :: "byte list \<Rightarrow> ConfigFileInfo list \<Rightarrow> nat option" where
  "FindConfigFile name [] = None"
| "FindConfigFile name (info # infos) =
     (if cstr (file_name info) = name then Some 0 else map_option Suc (FindConfigFile name infos))"

text \<open>The position of an entry, summed up in 32 bits from where the list starts.\<close>

fun entry_pos :: "u32 \<Rightarrow> ConfigFileInfo list \<Rightarrow> nat \<Rightarrow> u32" where
  "entry_pos p infos 0 = p"
| "entry_pos p (info # infos) (Suc i) = entry_pos (p + of_nat FileInfoLength + file_capacity info) infos i"
| "entry_pos p [] (Suc i) = p"

definition WriteFile :: "byte list \<Rightarrow> byte list \<Rightarrow> ConfigFile \<Rightarrow> ConfigFile \<times> bool" where
  "WriteFile name str c =
     (if FindConfigFile name (file_list c) \<noteq> None then (c, False)
      else case out_file c of
        None \<Rightarrow> (c, False)
      | Some f0 \<Rightarrow>
          if 256 \<le> length name then (c, False)
          else let f = seek_end 0 f0;
                   h = conf_header c;
                   h1 = (if file_num h = 0 then h\<lparr>file_list_offset := tell f\<rparr> else h);
                   info = \<lparr>file_name = set_field name (replicate 256 0), file_size = of_nat (length str),
                           file_capacity = of_nat (length str) + 100\<rparr>
               in (c\<lparr>conf_header := h1\<lparr>file_num := file_num h + 1\<rparr>, file_list := file_list c @ [info],
                     out_file := Some (write_fs (replicate 100 0x20) (write_fs str (write_fs (info_bytes info) f)))\<rparr>, True))"

definition UpdateFile :: "nat \<Rightarrow> byte list \<Rightarrow> ConfigFile \<Rightarrow> ConfigFile \<times> bool" where
  "UpdateFile i str c =
     (case out_file c of
        None \<Rightarrow> (c, False)
      | Some f0 \<Rightarrow>
          let p = entry_pos (file_list_offset (conf_header c)) (file_list c) i;
              info = (file_list c ! i)\<lparr>file_size := of_nat (length str)\<rparr>;
              f = write_fs str (write_fs (info_bytes info) (seek_to p f0))
          in (c\<lparr>file_list := (file_list c)[i := info],
                out_file := Some (write_fs (replicate (unat (file_capacity info - file_size info)) 0x20) f)\<rparr>, True))"

text \<open>
  \<^verbatim>\<open>ReadFile\<close> allocates one byte more than the size it reads; bytes the stream does not deliver are indeterminate.
\<close>

definition read_entry :: "ConfigFileInfo \<Rightarrow> u32 \<Rightarrow> fstream \<Rightarrow> (fstream \<times> byte list) run" where
  "read_entry info p f0 =
     (let (f, got) = read_fs (unat (file_size info)) (seek_to (p + of_nat FileInfoLength) f0)
      in if file_size info + 1 = 0 \<or> length got \<noteq> unat (file_size info) then Undef else Ret (f, got))"

definition ReadFile :: "byte list \<Rightarrow> ConfigFile \<Rightarrow> (ConfigFile \<times> byte list) run" where
  "ReadFile name c =
     (if file_num (conf_header c) = 0 then Ret (c, [])
      else case out_file c of
        None \<Rightarrow> Ret (c, [])
      | Some f0 \<Rightarrow>
          (case FindConfigFile (cstr name) (file_list c) of
             None \<Rightarrow> Ret (c, [])
           | Some i \<Rightarrow>
               rbind (read_entry (file_list c ! i) (entry_pos (file_list_offset (conf_header c)) (file_list c) i) f0) (\<lambda>(f, got).
                 Ret (c\<lparr>out_file := Some f\<rparr>, got))))"

subsection \<open>The header\<close>

fun read_infos :: "nat \<Rightarrow> u32 \<Rightarrow> fstream \<Rightarrow> fstream \<times> ConfigFileInfo list" where
  "read_infos 0 p f = (f, [])"
| "read_infos (Suc n) p f =
     (let (f1, got) = read_fs FileInfoLength f;
          info = info_of (got @ replicate (FileInfoLength - length got) 0);
          p1 = p + of_nat FileInfoLength + file_capacity info;
          (f2, infos) = read_infos n p1 (seek_to p1 f1)
      in (f2, info # infos))"

definition ReadHeader :: "ConfigFile \<Rightarrow> (ConfigFile \<times> bool) run" where
  "ReadHeader c =
     (case out_file c of
        None \<Rightarrow> Ret (c, False)
      | Some f0 \<Rightarrow>
          let f = seek_end 0 f0
          in if tell f < of_nat HeaderLength then Ret (c\<lparr>out_file := Some f\<rparr>, False)
             else let (f1, got) = read_fs HeaderLength (seek_end HeaderLength f);
                      h0 = header_of got;
                      h = h0\<lparr>eigen_val := ArrayXOR (eigen_val h0)\<rparr>
                  in if length got \<noteq> HeaderLength then Undef
                     else if eigen_val h \<noteq> ArchConf then Ret (c\<lparr>conf_header := h, out_file := Some f1\<rparr>, False)
                     else let (f2, infos) = read_infos (unat (file_num h)) (file_list_offset h) (seek_to (file_list_offset h) f1)
                          in Ret (c\<lparr>conf_header := h\<lparr>custom := ArrayXOR (custom h)\<rparr>, out_file := Some f2, file_list := infos\<rparr>, True))"

text \<open>\<^verbatim>\<open>WriteHeader\<close> looks for a header to overwrite with \<^verbatim>\<open>ReadHeader\<close>, which changes the object.\<close>

definition WriteHeader :: "ConfigFile \<Rightarrow> (ConfigFile \<times> bool) run" where
  "WriteHeader c =
     (if out_file c = None then Ret (c, False)
      else let h = (conf_header c)\<lparr>file_num := of_nat (length (file_list c)), eigen_val := ArrayXOR ArchConf,
                     custom := ArrayXOR (custom (conf_header c))\<rparr>
           in rbind (ReadHeader (c\<lparr>conf_header := h\<rparr>)) (\<lambda>(c1, ok).
                Ret (c1\<lparr>out_file := map_option (\<lambda>f. write_fs (header_bytes h) (seek_end (if ok then HeaderLength else 0) f)) (out_file c1)\<rparr>,
                     True)))"

definition GetHeader :: "ConfigFile \<Rightarrow> (ConfigFile \<times> EncryptHeader option) run" where
  "GetHeader c =
     rbind (ReadHeader c) (\<lambda>(c1, ok).
       Ret (c1, if ok then Some ((conf_header c1)\<lparr>eigen_val := ArrayXOR (eigen_val (conf_header c1)),
                              custom := ArrayXOR (custom (conf_header c1))\<rparr>) else None))"

definition GetVersion :: "ConfigFile \<Rightarrow> byte list" where
  "GetVersion c = cstr (version (conf_header c))"

subsection \<open>Constructors\<close>

text \<open>
  The argument \<^term>\<open>opened\<close> is the stream, or nothing when the path is empty or the file cannot be opened. The
  constructor without a path reads the running program and differs only in opening the file for reading.
\<close>

definition KEY1 :: "byte list" where
  "KEY1 = [0x4b, 0x45, 0x59, 0x31]"

definition ConfigFile_closed :: ConfigFile where
  "ConfigFile_closed = \<lparr>aes_key = [], conf_header = zero_header, out_file = None, file_list = []\<rparr>"

definition ConfigFile_open :: "(byte list \<Rightarrow> u64) \<Rightarrow> fstream option \<Rightarrow> ConfigFile run" where
  "ConfigFile_open hash_range opened =
     (if opened = None then Ret ConfigFile_closed
      else rbind (ReadHeader (ConfigFile_closed\<lparr>out_file := opened\<rparr>)) (\<lambda>(c, ok).
        if \<not> ok then Ret c
        else rbind (ReadFile KEY1 c) (\<lambda>(c1, md5_str).
          if md5_str = [] then Ret c1
          else Ret (c1\<lparr>aes_key := GenerateKey hash_range (cstr (custom (conf_header c1))) md5_str\<rparr>))))"

text \<open>The entries of a file that has some are overwritten with zeros; the file keeps its length.\<close>

definition wipe :: "ConfigFile \<Rightarrow> ConfigFile run" where
  "wipe c =
     rbind (ReadHeader c) (\<lambda>(c1, ok).
       if \<not> ok then Ret c1
       else case out_file c1 of
         None \<Rightarrow> Ret c1
       | Some f0 \<Rightarrow>
           let f = seek_end 0 f0;
               n = tell f - file_list_offset (conf_header c1)
           in Ret (c1\<lparr>out_file := Some (write_fs (replicate (unat n) 0) (seek_to (file_list_offset (conf_header c1)) f)),
                      file_list := []\<rparr>))"

definition ConfigFile_new ::
  "(byte list \<Rightarrow> u64) \<Rightarrow> fstream option \<Rightarrow> byte list \<Rightarrow> byte list \<Rightarrow> byte list \<Rightarrow> ConfigFile run" where
  "ConfigFile_new hash_range opened custom_str md5_str ver =
     (if opened = None then Ret ConfigFile_closed
      else rbind (wipe (ConfigFile_closed\<lparr>out_file := opened\<rparr>)) (\<lambda>c.
        if 64 \<le> length custom_str \<or> 256 \<le> length ver then Ret c
        else let h = zero_header\<lparr>custom := set_field custom_str (custom zero_header), version := set_field ver (version zero_header)\<rparr>;
                 c1 = c\<lparr>conf_header := h\<rparr>
             in if md5_str = [] then Ret c1
                else Ret (fst (WriteFile KEY1 md5_str (c1\<lparr>aes_key := GenerateKey hash_range custom_str md5_str\<rparr>)))))"

text \<open>The constructor for strings that are not encrypted; with the flag set it leaves the header uninitialised.\<close>

definition ConfigFile_plain :: "EncryptHeader \<Rightarrow> fstream option \<Rightarrow> byte list \<Rightarrow> bool \<Rightarrow> ConfigFile run" where
  "ConfigFile_plain junk opened ver is_encrypt =
     (if is_encrypt then Ret (ConfigFile_closed\<lparr>conf_header := junk\<rparr>)
      else if opened = None then Ret ConfigFile_closed
      else rbind (wipe (ConfigFile_closed\<lparr>out_file := opened\<rparr>)) (\<lambda>c.
        if 256 \<le> length ver then Ret (c\<lparr>conf_header := zero_header\<rparr>)
        else Ret (c\<lparr>conf_header := zero_header\<lparr>version := set_field ver (version zero_header)\<rparr>\<rparr>)))"

subsection \<open>Encryption by the service process\<close>

text \<open>
  One run of the service: the allocators and fresh headers of both processes, the functions it registered, the answers of the kernel on the
  two pipes, and whether the process could be started. The greeting precedes the call.
\<close>

record service =
  sv_started :: bool
  sv_client :: allocator
  sv_server :: allocator
  sv_handlers :: "u32 \<rightharpoonup> handler"
  sv_out :: "io list"
  sv_in :: "io list"
  sv_req :: "u32 \<times> u32"
  sv_rsp :: "u32 \<times> u32"
  sv_hdrs :: "(u32 \<times> u32) \<times> (u32 \<times> u32)"

definition CryptStr :: "u32 \<Rightarrow> service \<Rightarrow> byte list \<Rightarrow> byte list \<Rightarrow> byte list run" where
  "CryptStr mid sv str key =
     rbind (append_all (sv_client sv) [str, key] (SetMethodId mid (Request_new (sv_client sv) (sv_req sv)))) (\<lambda>req.
       if \<not> sv_started sv then Ret []
       else rbind (RunOnce_hello (sv_in sv, [])) (\<lambda>inp.
         rbind (IpcClient_new inp) (\<lambda>(inp1, magic_ok).
         rbind (Call (sv_client sv) (RunOnce_serve (sv_server sv) (sv_hdrs sv) (sv_handlers sv)) (sv_out sv, []) inp1 req
             (Request_new (sv_client sv) (sv_rsp sv))) (\<lambda>(chs, req1, rsp, status).
           if status \<noteq> 0 then Ret [] else rbind (req_SubStr rsp) (\<lambda>(rsp1, out). Ret out)))))"

definition EncryptStr :: "service \<Rightarrow> byte list \<Rightarrow> byte list \<Rightarrow> byte list run" where
  "EncryptStr sv str key = CryptStr 0 sv str key"

definition DecryptStr :: "service \<Rightarrow> byte list \<Rightarrow> byte list \<Rightarrow> byte list run" where
  "DecryptStr sv str key = CryptStr 1 sv str key"

subsection \<open>The calls of a user\<close>

definition ReadValue :: "byte list \<Rightarrow> ConfigFile \<Rightarrow> (ConfigFile \<times> byte list) run" where
  "ReadValue key c = ReadFile key c"

definition WriteStringPair :: "byte list \<Rightarrow> byte list \<Rightarrow> ConfigFile \<Rightarrow> ConfigFile \<times> bool" where
  "WriteStringPair key val c = (if val = [] then (c, False) else WriteFile key val c)"

definition ReadConfigFile :: "service \<Rightarrow> byte list \<Rightarrow> ConfigFile \<Rightarrow> (ConfigFile \<times> byte list) run" where
  "ReadConfigFile sv name c =
     rbind (ReadFile name c) (\<lambda>(c1, encrypt_str).
       if encrypt_str = [] then Ret (c1, []) else rbind (DecryptStr sv encrypt_str (aes_key c1)) (\<lambda>str. Ret (c1, str)))"

definition WriteConfigFile :: "service \<Rightarrow> byte list \<Rightarrow> byte list \<Rightarrow> ConfigFile \<Rightarrow> (ConfigFile \<times> bool) run" where
  "WriteConfigFile sv name str c =
     (if aes_key c = [] then Ret (c, False)
      else rbind (EncryptStr sv str (aes_key c)) (\<lambda>encrypt_str.
        if encrypt_str = [] then Ret (c, False) else Ret (WriteFile name encrypt_str c)))"

definition UpdateConfigFile :: "service \<Rightarrow> byte list \<Rightarrow> byte list \<Rightarrow> ConfigFile \<Rightarrow> (ConfigFile \<times> nat) run" where
  "UpdateConfigFile sv name str c =
     (case FindConfigFile name (file_list c) of
        None \<Rightarrow> Ret (c, 1)
      | Some i \<Rightarrow>
          if out_file c = None then Ret (c, 2)
          else if aes_key c = [] then Ret (c, 6)
          else rbind (EncryptStr sv str (aes_key c)) (\<lambda>encrypt_str.
            if encrypt_str = [] then Ret (c, 3)
            else if unat (file_capacity (file_list c ! i)) < length encrypt_str then Ret (c, 4)
            else let (c1, ok) = UpdateFile i encrypt_str c in Ret (c1, if ok then 0 else 5)))"

section \<open>The file as base and entries\<close>

lemma length_array_xor [simp]: "length (array_xor ws bs) = length bs"
  by (induction ws bs rule: array_xor.induct) auto

lemma array_xor_twice: "array_xor ws (array_xor ws bs) = bs"
  by (induction ws bs rule: array_xor.induct) (auto simp: xor.assoc)

lemma ArrayXOR_twice [simp]: "ArrayXOR (ArrayXOR bs) = bs"
  by (simp add: ArrayXOR_def array_xor_twice)

lemma length_ArrayXOR [simp]: "length (ArrayXOR bs) = length bs"
  by (simp add: ArrayXOR_def)

definition header_ok :: "EncryptHeader \<Rightarrow> bool" where
  "header_ok h = (length (eigen_val h) = 8 \<and> length (version h) = 256 \<and> length (custom h) = 64)"

lemma header_of_bytes: "header_ok h \<Longrightarrow> header_of (header_bytes h) = h \<and> length (header_bytes h) = HeaderLength"
  by (simp add: header_ok_def header_of_def header_bytes_def)

lemma info_of_bytes: "length (file_name i) = 256 \<Longrightarrow> info_of (info_bytes i) = i \<and> length (info_bytes i) = FileInfoLength"
  by (simp add: info_of_def info_bytes_def)

text \<open>An entry is its info block, the string and the room behind it.\<close>

type_synonym entry = "ConfigFileInfo \<times> byte list \<times> byte list"

definition entry_bytes :: "entry \<Rightarrow> byte list" where
  "entry_bytes e = (case e of (info, str, pad) \<Rightarrow> info_bytes info @ str @ pad)"

definition entry_ok :: "entry \<Rightarrow> bool" where
  "entry_ok e = (case e of (info, str, pad) \<Rightarrow>
     length (file_name info) = 256 \<and> file_size info = of_nat (length str) \<and> file_capacity info = of_nat (length str + length pad))"

definition layout :: "byte list \<Rightarrow> entry list \<Rightarrow> byte list" where
  "layout base es = base @ concat (map entry_bytes es)"

lemma layout_simps [simp]: "layout base [] = base" "layout base (e # es) = layout (base @ entry_bytes e) es"
  by (simp_all add: layout_def)

lemma layout_append: "layout base (es @ es') = layout (layout base es) es'"
  by (simp add: layout_def)

lemma layout_prefix: "\<exists>rest. layout base es = base @ rest"
  by (simp add: layout_def)

lemma entry_step:
  assumes "entry_ok e"
  shows "(of_nat (length base) :: u32) + of_nat FileInfoLength + file_capacity (fst e) = of_nat (length (base @ entry_bytes e))"
  using assms by (auto simp: entry_ok_def entry_bytes_def info_of_bytes split: prod.splits)

text \<open>Positions are summed up right, and the info blocks are found again.\<close>

lemma entry_pos_layout:
  "list_all entry_ok es \<Longrightarrow> i \<le> length es \<Longrightarrow>
   entry_pos (of_nat (length base)) (map fst es) i = of_nat (length (layout base (take i es)))"
proof (induction es arbitrary: base i)
  case (Cons e es)
  show ?case
  proof (cases i)
    case (Suc j)
    have p: "of_nat (length base) + of_nat FileInfoLength + file_capacity (fst e) = (of_nat (length (base @ entry_bytes e)) :: u32)"
      using Cons.prems(1) by (intro entry_step) simp
    have "entry_pos (of_nat (length base)) (map fst (e # es)) (Suc j) = entry_pos (of_nat (length (base @ entry_bytes e))) (map fst es) j"
      by (simp only: list.map entry_pos.simps p)
    then show ?thesis using Cons.IH [of j "base @ entry_bytes e"] Cons.prems Suc by simp
  qed simp
qed simp

definition at :: "fstream \<Rightarrow> nat \<Rightarrow> fstream" where
  "at f p = f\<lparr>fs_pos := p\<rparr>"

lemma read_fs_at:
  assumes "fs_good f" "fs_bytes f = pre @ bs @ post"
  shows "read_fs (length bs) (at f (length pre)) = (at f (length (pre @ bs)), bs)"
  using assms by (simp add: read_fs_def at_def)

lemma seek_to_at: "fs_good f \<Longrightarrow> n < 2 ^ 32 \<Longrightarrow> seek_to (of_nat n) (at f p) = at f n"
  by (simp add: seek_to_def at_def unat_of_nat32)

lemma read_infos_layout:
  assumes "fs_good f"
  shows "fs_bytes f = layout base es @ tail \<Longrightarrow> length (layout base es) < 2 ^ 32 \<Longrightarrow> list_all entry_ok es \<Longrightarrow>
   read_infos (length es) (of_nat (length base)) (at f (length base)) = (at f (length (layout base es)), map fst es)"
proof (induction es arbitrary: base)
  case (Cons e es)
  obtain info str pad where e: "e = (info, str, pad)" by (cases e)
  have ok: "entry_ok e" using Cons.prems(3) by simp
  then have i: "info_of (info_bytes info) = info" "length (info_bytes info) = FileInfoLength"
    using info_of_bytes [of info] by (auto simp: entry_ok_def e)
  obtain rest where "layout (base @ entry_bytes e) es = (base @ entry_bytes e) @ rest" using layout_prefix by blast
  then have "fs_bytes f = base @ info_bytes info @ (str @ pad @ rest @ tail)" and len: "length (base @ entry_bytes e) < 2 ^ 32"
    using Cons.prems(1,2) by (simp_all add: e entry_bytes_def)
  from read_fs_at [OF assms this(1)] have r: "read_fs FileInfoLength (at f (length base)) = (at f (length (base @ info_bytes info)), info_bytes info)"
    using i by simp
  have p: "(of_nat (length base) :: u32) + of_nat FileInfoLength + file_capacity info = of_nat (length (base @ entry_bytes e))"
    using entry_step [OF ok, of base] by (simp add: e)
  have s: "seek_to (of_nat (length (base @ entry_bytes e))) (at f q) = at f (length (base @ entry_bytes e))" for q
    by (rule seek_to_at [OF assms len])
  have IH: "read_infos (length es) (of_nat (length (base @ entry_bytes e))) (at f (length (base @ entry_bytes e))) =
      (at f (length (layout (base @ entry_bytes e) es)), map fst es)"
    by (rule Cons.IH) (use Cons.prems in simp_all)
  show ?case
    by (simp only: list.size read_infos.simps add_0_right add_Suc_right r Let_def prod.case i diff_self_eq_0 replicate_0 append_Nil2 p s IH)
      (simp add: e)
qed (simp add: at_def)

subsection \<open>Writing\<close>

text \<open>
  The object while entries are written: its file is the base and the entries, and what it knows of them is right. The header does
  not count for the first entry.
\<close>

definition writing :: "byte list \<Rightarrow> entry list \<Rightarrow> ConfigFile \<Rightarrow> bool" where
  "writing base es c =
     (\<exists>p. out_file c = Some \<lparr>fs_bytes = layout base es, fs_pos = p, fs_good = True, fs_writable = True\<rparr> \<and>
      file_list c = map fst es \<and> list_all entry_ok es \<and> header_ok (conf_header c) \<and>
      file_num (conf_header c) = of_nat (length es) \<and> (es \<noteq> [] \<longrightarrow> file_list_offset (conf_header c) = of_nat (length base)))"

definition new_entry :: "byte list \<Rightarrow> byte list \<Rightarrow> entry" where
  "new_entry name str =
     (\<lparr>file_name = set_field name (replicate 256 0), file_size = of_nat (length str), file_capacity = of_nat (length str) + 100\<rparr>,
      str, replicate 100 0x20)"

lemma new_entry_ok: "length name < 256 \<Longrightarrow> entry_ok (new_entry name str)"
  by (simp add: entry_ok_def new_entry_def set_field_def)

lemma write_end:
  "p = length xs \<Longrightarrow> write_fs bs \<lparr>fs_bytes = xs, fs_pos = p, fs_good = True, fs_writable = True\<rparr> =
   \<lparr>fs_bytes = xs @ bs, fs_pos = p + length bs, fs_good = True, fs_writable = True\<rparr>"
  by (simp add: write_fs_def)

text \<open>The entry found first under a name.\<close>

definition find_entry :: "byte list \<Rightarrow> entry list \<Rightarrow> entry option" where
  "find_entry name es = find (\<lambda>e. cstr (file_name (fst e)) = name) es"

lemma FindConfigFile_Some:
  "FindConfigFile name (map fst es) = Some i \<Longrightarrow> i < length es \<and> find_entry name es = Some (es ! i)"
  by (induction es arbitrary: i) (auto simp: find_entry_def split: if_splits)

lemma FindConfigFile_None: "FindConfigFile name (map fst es) = None \<longleftrightarrow> find_entry name es = None"
  by (induction es) (auto simp: find_entry_def)

lemma length_layout_entries: "list_all entry_ok es \<Longrightarrow> length es \<le> length (layout base es)"
proof -
  assume "list_all entry_ok es"
  then have "length es \<le> length (concat (map entry_bytes es))"
    by (induction es) (auto simp: entry_ok_def entry_bytes_def info_of_bytes)
  then show ?thesis by (simp add: layout_def)
qed

lemma num_entries:
  assumes "list_all entry_ok es" "length (layout base es) < 2 ^ 32"
  shows "unat (of_nat (length es) :: u32) = length es" "(of_nat (length es) :: u32) = 0 \<longleftrightarrow> es = []"
proof -
  show u: "unat (of_nat (length es) :: u32) = length es" using length_layout_entries [OF assms(1), of base] assms(2) by (intro unat_of_nat32) simp
  show "(of_nat (length es) :: u32) = 0 \<longleftrightarrow> es = []" using u by (metis length_0_conv of_nat_0 unat_eq_zero)
qed

lemma WriteFile_ok:
  assumes w: "writing base es c" and n: "length name < 256" and fresh: "find_entry name es = None"
    and small: "length (layout base es) < 2 ^ 32"
  shows "\<exists>c'. WriteFile name str c = (c', True) \<and> writing base (es @ [new_entry name str]) c' \<and> aes_key c' = aes_key c \<and>
    version (conf_header c') = version (conf_header c) \<and> custom (conf_header c') = custom (conf_header c)"
proof -
  from w obtain p where c: "out_file c = Some \<lparr>fs_bytes = layout base es, fs_pos = p, fs_good = True, fs_writable = True\<rparr>"
    "file_list c = map fst es" "list_all entry_ok es" "header_ok (conf_header c)"
    "file_num (conf_header c) = of_nat (length es)" "es \<noteq> [] \<longrightarrow> file_list_offset (conf_header c) = of_nat (length base)"
    by (auto simp: writing_def)
  have "FindConfigFile name (file_list c) = None" using fresh by (simp add: c(2) FindConfigFile_None)
  then show ?thesis using c n new_entry_ok [OF n, of str] num_entries(2) [OF c(3) small]
    by (cases "es = []") (simp_all add: WriteFile_def Let_def seek_end_def tell_def write_end writing_def layout_append
        new_entry_def [of name str] entry_bytes_def header_ok_def)
qed

text \<open>A file does not end with a header when it is too short or the bytes at its place are not the mark.\<close>

definition no_header :: "byte list \<Rightarrow> bool" where
  "no_header bs = (length bs < HeaderLength \<or> ArrayXOR (take 8 (drop (length bs - HeaderLength + 8) bs)) \<noteq> ArchConf)"

lemma ReadHeader_none:
  assumes f: "out_file c = Some \<lparr>fs_bytes = bs, fs_pos = p, fs_good = True, fs_writable = w\<rparr>" and n: "no_header bs" "length bs < 2 ^ 32"
  shows "\<exists>h. ReadHeader c = Ret (c\<lparr>conf_header := h,
    out_file := Some \<lparr>fs_bytes = bs, fs_pos = length bs, fs_good = True, fs_writable = w\<rparr>\<rparr>, False)"
proof -
  have u: "unat (of_nat (length bs) :: u32) = length bs" using n(2) by (rule unat_of_nat32)
  show ?thesis
  proof (cases "length bs < HeaderLength")
    case True
    then show ?thesis using f u by (intro exI [of _ "conf_header c"]) (simp add: ReadHeader_def Let_def seek_end_def tell_def word_less_nat_alt)
  next
    case False
    then have "ArrayXOR (take 8 (drop (length bs - HeaderLength + 8) bs)) \<noteq> ArchConf" using n(1) by (simp add: no_header_def)
    moreover have "\<not> (of_nat (length bs) :: u32) < 336" using u False by (simp add: word_less_nat_alt)
    ultimately show ?thesis using f False
      by (auto simp: ReadHeader_def Let_def seek_end_def tell_def read_fs_def header_of_def add.commute intro!: exI)
  qed
qed

text \<open>The header written behind the entries, and found there again.\<close>

lemma WriteHeader_ok:
  assumes w: "writing base es c" and n: "no_header (layout base es)" "length (layout base es) < 2 ^ 32"
  defines "h \<equiv> (conf_header c)\<lparr>file_num := of_nat (length es), eigen_val := ArrayXOR ArchConf, custom := ArrayXOR (custom (conf_header c))\<rparr>"
  shows "\<exists>c' p. WriteHeader c = Ret (c', True) \<and>
    out_file c' = Some \<lparr>fs_bytes = layout base es @ header_bytes h, fs_pos = p, fs_good = True, fs_writable = True\<rparr>"
proof -
  from w obtain p where c: "out_file c = Some \<lparr>fs_bytes = layout base es, fs_pos = p, fs_good = True, fs_writable = True\<rparr>"
    "file_list c = map fst es" by (auto simp: writing_def)
  obtain h' where "ReadHeader (c\<lparr>conf_header := h\<rparr>) = Ret (c\<lparr>conf_header := h',
      out_file := Some \<lparr>fs_bytes = layout base es, fs_pos = length (layout base es), fs_good = True, fs_writable = True\<rparr>\<rparr>, False)"
    using ReadHeader_none [of "c\<lparr>conf_header := h\<rparr>"] c n by auto
  then show ?thesis using c by (simp add: WriteHeader_def Let_def h_def seek_end_def write_end)
qed

definition marked :: "EncryptHeader \<Rightarrow> bool" where
  "marked h = (header_ok h \<and> eigen_val h = ArrayXOR ArchConf)"

lemma ReadHeader_ok:
  assumes f: "out_file c = Some \<lparr>fs_bytes = layout base es @ header_bytes h, fs_pos = p, fs_good = True, fs_writable = w\<rparr>"
    and h: "marked h" "file_num h = of_nat (length es)" "es \<noteq> [] \<longrightarrow> file_list_offset h = of_nat (length base)"
    and e: "list_all entry_ok es" "length (layout base es) + HeaderLength < 2 ^ 32"
  shows "\<exists>p. ReadHeader c = Ret (c\<lparr>conf_header := h\<lparr>eigen_val := ArchConf, custom := ArrayXOR (custom h)\<rparr>,
    out_file := Some \<lparr>fs_bytes = layout base es @ header_bytes h, fs_pos = p, fs_good = True, fs_writable = w\<rparr>, file_list := map fst es\<rparr>, True)"
proof -
  let ?f = "\<lparr>fs_bytes = layout base es @ header_bytes h, fs_pos = length (layout base es) + HeaderLength, fs_good = True, fs_writable = w\<rparr>"
  have hb: "header_of (header_bytes h) = h" "length (header_bytes h) = HeaderLength" using header_of_bytes [of h] h(1) by (auto simp: marked_def)
  have u: "unat (of_nat (length (layout base es @ header_bytes h)) :: u32) = length (layout base es @ header_bytes h)"
    using e(2) hb(2) by (intro unat_of_nat32) simp
  have num: "unat (file_num h) = length es" unfolding h(2) using num_entries(1) [OF e(1), of base] e(2) by simp
  have "\<exists>p. read_infos (unat (file_num h)) (file_list_offset h) (seek_to (file_list_offset h) ?f) = (at ?f p, map fst es)"
  proof (cases "es = []")
    case True
    then show ?thesis unfolding num by (auto simp: seek_to_def at_def)
  next
    case False
    obtain rest where "layout base es = base @ rest" using layout_prefix by blast
    then have b: "length base < 2 ^ 32" using e(2) by simp
    have "seek_to (file_list_offset h) ?f = at ?f (length base)" using seek_to_at [of ?f "length base"] b h(3) False by (simp add: seek_to_def at_def unat_of_nat32)
    moreover have "read_infos (length es) (of_nat (length base)) (at ?f (length base)) = (at ?f (length (layout base es)), map fst es)"
      by (rule read_infos_layout) (use e in simp_all)
    ultimately show ?thesis unfolding num using h(3) False by auto
  qed
  then obtain q where q: "read_infos (unat (file_num h)) (file_list_offset h) (seek_to (file_list_offset h) ?f) = (at ?f q, map fst es)" by blast
  show ?thesis using f u hb q h(1)
    by (auto simp: ReadHeader_def Let_def seek_end_def tell_def word_less_nat_alt read_fs_def at_def marked_def intro!: exI)
qed

subsection \<open>Reading\<close>

text \<open>The object while it is read: its file is the base, the entries and whatever follows.\<close>

definition reading :: "bool \<Rightarrow> byte list \<Rightarrow> entry list \<Rightarrow> byte list \<Rightarrow> ConfigFile \<Rightarrow> bool" where
  "reading w base es tail c =
     (\<exists>p. out_file c = Some \<lparr>fs_bytes = layout base es @ tail, fs_pos = p, fs_good = True, fs_writable = w\<rparr> \<and>
      file_list c = map fst es \<and> list_all entry_ok es \<and> file_num (conf_header c) = of_nat (length es) \<and>
      (es \<noteq> [] \<longrightarrow> file_list_offset (conf_header c) = of_nat (length base)) \<and> length (layout base es) < 2 ^ 32)"

definition string_of :: "entry option \<Rightarrow> byte list" where
  "string_of e = (case e of None \<Rightarrow> [] | Some (info, str, pad) \<Rightarrow> str)"

lemma layout_split:
  assumes "i < length es" and "es ! i = (info, str, pad)"
  obtains rest where "layout base es = layout base (take i es) @ info_bytes info @ str @ pad @ rest"
proof -
  have "es = take i es @ (info, str, pad) # drop (Suc i) es" using assms by (metis id_take_nth_drop)
  then have "layout base es = layout (layout base (take i es)) ((info, str, pad) # drop (Suc i) es)" by (metis layout_append)
  moreover obtain rest where "layout (layout base (take i es) @ entry_bytes (info, str, pad)) (drop (Suc i) es) =
      (layout base (take i es) @ entry_bytes (info, str, pad)) @ rest" using layout_prefix by blast
  ultimately show ?thesis using that by (simp add: entry_bytes_def)
qed

lemma ReadFile_ok:
  assumes r: "reading w base es tail c"
  shows "\<exists>c'. ReadFile name c = Ret (c', string_of (find_entry (cstr name) es)) \<and> reading w base es tail c' \<and>
    aes_key c' = aes_key c \<and> conf_header c' = conf_header c"
proof -
  from r obtain p where c: "out_file c = Some \<lparr>fs_bytes = layout base es @ tail, fs_pos = p, fs_good = True, fs_writable = w\<rparr>"
    "file_list c = map fst es" "list_all entry_ok es" "file_num (conf_header c) = of_nat (length es)"
    "es \<noteq> [] \<longrightarrow> file_list_offset (conf_header c) = of_nat (length base)" "length (layout base es) < 2 ^ 32"
    by (auto simp: reading_def)
  note num = num_entries(2) [OF c(3,6)]
  show ?thesis
  proof (cases "FindConfigFile (cstr name) (map fst es)")
    case None
    then have "find_entry (cstr name) es = None" by (simp add: FindConfigFile_None)
    then show ?thesis using r None c by (simp add: ReadFile_def string_of_def)
  next
    case (Some i)
    note i = FindConfigFile_Some [OF Some]
    obtain info str pad where e: "es ! i = (info, str, pad)" by (cases "es ! i")
    obtain rest where l: "layout base es = layout base (take i es) @ info_bytes info @ str @ pad @ rest"
      using layout_split [OF _ e] i by blast
    let ?pre = "layout base (take i es) @ info_bytes info"
    let ?f = "\<lparr>fs_bytes = layout base es @ tail, fs_pos = p, fs_good = True, fs_writable = w\<rparr>"
    have ok: "entry_ok (info, str, pad)" using c(3) i e by (metis list_all_length)
    then have len: "length (info_bytes info) = FileInfoLength" using info_of_bytes [of info] by (simp add: entry_ok_def)
    have "length (layout base es) = length (layout base (take i es)) + FileInfoLength + length str + length pad + length rest"
      using arg_cong [OF l, of length] len by simp
    then have small: "length ?pre < 2 ^ 32" "length str + 1 < 2 ^ 32" using c(6) len by simp_all
    have size: "file_size info = of_nat (length str)" "unat (file_size info) = length str"
      using ok small(2) by (simp_all add: entry_ok_def unat_of_nat32)
    have "unat (file_size info + 1) = length str + 1" using unat_of_nat32 [OF small(2)] by (simp add: size add.commute)
    then have nz: "file_size info + 1 \<noteq> 0" by force
    have pos: "entry_pos (file_list_offset (conf_header c)) (file_list c) i = of_nat (length (layout base (take i es)))"
      using entry_pos_layout [OF c(3), of i base] c(2,5) i by auto
    have "(of_nat (length (layout base (take i es))) :: u32) + of_nat FileInfoLength = of_nat (length ?pre)" using len by simp
    then have s: "seek_to (of_nat (length (layout base (take i es))) + of_nat FileInfoLength) ?f = at ?f (length ?pre)"
      by (simp only: seek_to_def at_def unat_of_nat32 [OF small(1)]) simp
    have rd: "read_fs (unat (file_size info)) (at ?f (length ?pre)) = (at ?f (length (?pre @ str)), str)"
      using read_fs_at [of ?f ?pre str "pad @ rest @ tail"] l size(2) by simp
    have "read_entry info (of_nat (length (layout base (take i es)))) ?f = Ret (at ?f (length (?pre @ str)), str)"
      unfolding read_entry_def s rd Let_def prod.case using nz size(2) by simp
    moreover have "es \<noteq> []" "file_list c ! i = info" using i e c(2) by auto
    ultimately have "ReadFile name c = Ret (c\<lparr>out_file := Some (at ?f (length (?pre @ str)))\<rparr>, str)"
      using Some by (simp add: ReadFile_def c(1,2,4) num pos [unfolded c(2)])
    moreover have "string_of (find_entry (cstr name) es) = str" using i e by (simp add: string_of_def)
    ultimately show ?thesis using c by (simp add: reading_def at_def)
  qed
qed

section \<open>Writing and reading back\<close>

definition good_name :: "byte list \<Rightarrow> bool" where
  "good_name name = (length name < 256 \<and> 0 \<notin> set name)"

lemma cstr_field: "0 \<notin> set str \<Longrightarrow> length str < length field \<Longrightarrow> set field = {0} \<Longrightarrow> cstr (set_field str field) = str"
proof -
  assume a: "0 \<notin> set str" "length str < length field" "set field = {0}"
  have "drop (length str) field \<noteq> []" using a(2) by simp
  then obtain b bs where d: "drop (length str) field = b # bs" by (meson list.exhaust)
  have "b \<in> set field" using d in_set_dropD [of b "length str" field] by simp
  then have "drop (length str) field = 0 # bs" using d a(3) by simp
  then show ?thesis using a(1) by (simp add: cstr_def set_field_def takeWhile_append)
qed

lemma cstr_id: "0 \<notin> set str \<Longrightarrow> cstr str = str"
  by (simp add: cstr_def takeWhile_eq_all_conv) auto

abbreviation entries :: "(byte list \<times> byte list) list \<Rightarrow> entry list" where
  "entries ps \<equiv> map (\<lambda>(name, str). new_entry name str) ps"

lemma find_entries:
  "list_all (\<lambda>(n, v). good_name n) ps \<Longrightarrow> string_of (find_entry name (entries ps)) = (case map_of ps name of None \<Rightarrow> [] | Some v \<Rightarrow> v) \<and>
    (find_entry name (entries ps) = None \<longleftrightarrow> map_of ps name = None)"
proof (induction ps)
  case (Cons x ps)
  obtain n v where x: "x = (n, v)" by (cases x)
  have "cstr (file_name (fst (new_entry n v))) = n"
    using Cons.prems by (auto simp: x new_entry_def good_name_def intro!: cstr_field)
  moreover have "string_of (Some (new_entry n v)) = v" by (simp add: string_of_def new_entry_def)
  ultimately show ?case using Cons by (simp add: x find_entry_def)
qed (simp add: find_entry_def string_of_def)

text \<open>The pairs of names and strings written one after the other.\<close>

fun write_pairs :: "(byte list \<times> byte list) list \<Rightarrow> ConfigFile \<Rightarrow> ConfigFile \<times> bool" where
  "write_pairs [] c = (c, True)"
| "write_pairs ((name, str) # ps) c = (let (c1, ok) = WriteStringPair name str c; (c2, ok') = write_pairs ps c1 in (c2, ok \<and> ok'))"

definition pairs_ok :: "(byte list \<times> byte list) list \<Rightarrow> bool" where
  "pairs_ok ps = (list_all (\<lambda>(n, v). good_name n \<and> v \<noteq> []) ps \<and> distinct (map fst ps))"

lemma write_pairs_ok:
  "writing base (entries qs) c \<Longrightarrow> pairs_ok (qs @ ps) \<Longrightarrow> length (layout base (entries (qs @ ps))) < 2 ^ 32 \<Longrightarrow>
   \<exists>c'. write_pairs ps c = (c', True) \<and> writing base (entries (qs @ ps)) c' \<and> aes_key c' = aes_key c \<and>
     version (conf_header c') = version (conf_header c) \<and> custom (conf_header c') = custom (conf_header c)"
proof (induction ps arbitrary: qs c)
  case (Cons x ps)
  obtain n v where x: "x = (n, v)" by (cases x)
  have ok: "good_name n" "v \<noteq> []" "map_of qs n = None" "list_all (\<lambda>(n, v). good_name n) qs"
    using Cons.prems(2) by (auto simp: pairs_ok_def x map_of_eq_None_iff elim!: list.pred_mono_strong)
  have "find_entry n (entries qs) = None" using find_entries [OF ok(4), of n] ok(3) by simp
  moreover have "length (layout base (entries qs)) < 2 ^ 32"
  proof -
    obtain rest where "layout base (entries (qs @ x # ps)) = layout base (entries qs) @ rest"
      using layout_prefix [of "layout base (entries qs)" "entries (x # ps)"] by (auto simp: layout_append)
    then show ?thesis using Cons.prems(3) by simp
  qed
  moreover have "length n < 256" using ok(1) by (simp add: good_name_def)
  ultimately obtain c1 where c1: "WriteFile n v c = (c1, True)" "writing base (entries (qs @ [x])) c1" "aes_key c1 = aes_key c"
    "version (conf_header c1) = version (conf_header c)" "custom (conf_header c1) = custom (conf_header c)"
    using WriteFile_ok [OF Cons.prems(1), of n v] by (auto simp: x)
  then show ?case using Cons.IH [of "qs @ [x]" c1] Cons.prems(2,3) ok(2) by (simp add: x WriteStringPair_def)
qed simp

text \<open>Opening a file that has no header yet, and opening one that has.\<close>

abbreviation file_with :: "byte list \<Rightarrow> bool \<Rightarrow> fstream" where
  "file_with bs w \<equiv> \<lparr>fs_bytes = bs, fs_pos = 0, fs_good = True, fs_writable = w\<rparr>"

lemma wipe_none:
  assumes "no_header base" "length base < 2 ^ 32"
  shows "\<exists>h. wipe (ConfigFile_closed\<lparr>out_file := Some (file_with base True)\<rparr>) =
    Ret (ConfigFile_closed\<lparr>conf_header := h, out_file := Some \<lparr>fs_bytes = base, fs_pos = length base, fs_good = True, fs_writable = True\<rparr>\<rparr>)"
  using ReadHeader_none [of "ConfigFile_closed\<lparr>out_file := Some (file_with base True)\<rparr>" base 0 True] assms
  by (auto simp: wipe_def)

definition final_header :: "byte list \<Rightarrow> entry list \<Rightarrow> EncryptHeader \<Rightarrow> EncryptHeader" where
  "final_header base es h =
     h\<lparr>file_num := of_nat (length es), eigen_val := ArrayXOR ArchConf, custom := ArrayXOR (custom h)\<rparr>"

lemma reopen_ok:
  assumes w: "writing base es c" and n: "length (layout base es) + HeaderLength < 2 ^ 32"
  shows "\<exists>c'. ConfigFile_open hash_range (Some (file_with (layout base es @ header_bytes (final_header base es (conf_header c))) wr)) = Ret c' \<and>
    reading wr base es (header_bytes (final_header base es (conf_header c))) c' \<and>
    version (conf_header c') = version (conf_header c) \<and> custom (conf_header c') = custom (conf_header c) \<and>
    aes_key c' = (let m = string_of (find_entry KEY1 es) in if m = [] then [] else GenerateKey hash_range (cstr (custom (conf_header c))) m)"
proof -
  let ?h = "final_header base es (conf_header c)"
  let ?c0 = "ConfigFile_closed\<lparr>out_file := Some (file_with (layout base es @ header_bytes ?h) wr)\<rparr>"
  from w have c: "header_ok (conf_header c)" "list_all entry_ok es" "file_num (conf_header c) = of_nat (length es)"
    "es \<noteq> [] \<longrightarrow> file_list_offset (conf_header c) = of_nat (length base)" by (auto simp: writing_def)
  have h: "marked ?h" "file_num ?h = of_nat (length es)" "es \<noteq> [] \<longrightarrow> file_list_offset ?h = of_nat (length base)"
    using c by (auto simp: marked_def header_ok_def final_header_def ArchConf_def)
  obtain p where r: "ReadHeader ?c0 = Ret (?c0\<lparr>conf_header := ?h\<lparr>eigen_val := ArchConf, custom := ArrayXOR (custom ?h)\<rparr>,
    out_file := Some \<lparr>fs_bytes = layout base es @ header_bytes ?h, fs_pos = p, fs_good = True, fs_writable = wr\<rparr>, file_list := map fst es\<rparr>, True)"
    (is "_ = Ret (?c1, True)")
    using ReadHeader_ok [OF _ h c(2) n, of ?c0 0 wr] by auto
  have "reading wr base es (header_bytes ?h) ?c1" using c h n by (simp add: reading_def)
  from ReadFile_ok [OF this, of KEY1] obtain c2 where c2: "ReadFile KEY1 ?c1 = Ret (c2, string_of (find_entry (cstr KEY1) es))"
    "reading wr base es (header_bytes ?h) c2" "aes_key c2 = []" "conf_header c2 = conf_header ?c1" by (auto simp: ConfigFile_closed_def)
  have k: "cstr KEY1 = KEY1" by (rule cstr_id) (simp add: KEY1_def)
  show ?thesis using r c2 k by (auto simp: ConfigFile_open_def Let_def final_header_def reading_def)
qed

text \<open>Finishing a file and opening it again.\<close>

lemma finish_ok:
  assumes w: "writing base es c" and n: "no_header (layout base es)" "length (layout base es) + HeaderLength < 2 ^ 32"
  obtains c3 f c4 tail where "WriteHeader c = Ret (c3, True)" "out_file c3 = Some f" "take (length base) (fs_bytes f) = base"
    "ConfigFile_open hash_range (Some (file_with (fs_bytes f) wr)) = Ret c4" "reading wr base es tail c4"
    "version (conf_header c4) = version (conf_header c)"
    "aes_key c4 = (let m = string_of (find_entry KEY1 es) in if m = [] then [] else GenerateKey hash_range (cstr (custom (conf_header c))) m)"
proof -
  let ?h = "final_header base es (conf_header c)"
  obtain c3 p where c3: "WriteHeader c = Ret (c3, True)"
    "out_file c3 = Some \<lparr>fs_bytes = layout base es @ header_bytes ?h, fs_pos = p, fs_good = True, fs_writable = True\<rparr>"
    using WriteHeader_ok [OF w n(1)] n(2) by (auto simp: final_header_def)
  moreover have "take (length base) (layout base es @ header_bytes ?h) = base" using layout_prefix [of base es] by auto
  ultimately show ?thesis using that reopen_ok [OF w n(2), of hash_range wr] by auto
qed

text \<open>
  C38: Strings appended to a program file are found again: for any distinct names of less than 256 bytes without zero bytes and any
  non-empty strings, written to a file that has no header yet and finished with \<^verbatim>\<open>WriteHeader\<close>, a later object on the same file
  returns under every name exactly the string written under it, nothing under every other name, and the version; the program
  itself is unchanged. The whole file must stay below 4 GiB, and the bytes written must not look like a header.
\<close>

theorem config_roundtrip:
  assumes "pairs_ok ps" and "no_header base" and "no_header (layout base (entries ps))"
    and "length (layout base (entries ps)) + HeaderLength < 2 ^ 32" and "good_name ver"
  shows "\<exists>c1 c2 c3 f. ConfigFile_plain junk (Some (file_with base True)) ver False = Ret c1 \<and> write_pairs ps c1 = (c2, True) \<and>
    WriteHeader c2 = Ret (c3, True) \<and> out_file c3 = Some f \<and> take (length base) (fs_bytes f) = base \<and>
    (\<exists>c4. ConfigFile_open hash_range (Some (file_with (fs_bytes f) wr)) = Ret c4 \<and> GetVersion c4 = ver \<and>
      (\<forall>name. \<exists>c5. ReadValue name c4 = Ret (c5, case map_of ps (cstr name) of None \<Rightarrow> [] | Some v \<Rightarrow> v)))"
proof -
  obtain rest where rest: "layout base (entries ps) = base @ rest" using layout_prefix by blast
  then have small: "length base < 2 ^ 32" "length (layout base (entries ps)) < 2 ^ 32" using assms(4) by simp_all
  let ?h1 = "zero_header\<lparr>version := set_field ver (version zero_header)\<rparr>"
  let ?c1 = "ConfigFile_closed\<lparr>conf_header := ?h1, out_file := Some \<lparr>fs_bytes = base, fs_pos = length base, fs_good = True, fs_writable = True\<rparr>\<rparr>"
  have c1: "ConfigFile_plain junk (Some (file_with base True)) ver False = Ret ?c1"
    using wipe_none [OF assms(2) small(1)] assms(5) by (auto simp: ConfigFile_plain_def good_name_def)
  have "writing base (entries []) ?c1" using assms(5)
    by (simp add: writing_def ConfigFile_closed_def zero_header_def header_ok_def set_field_def good_name_def)
  from write_pairs_ok [OF this, of ps] obtain c2 where c2: "write_pairs ps ?c1 = (c2, True)" "writing base (entries ps) c2"
    "version (conf_header c2) = set_field ver (version zero_header)" using assms(1) small(2) by auto
  obtain c3 f c4 tail where c3: "WriteHeader c2 = Ret (c3, True)" "out_file c3 = Some f" "take (length base) (fs_bytes f) = base"
    and c4: "ConfigFile_open hash_range (Some (file_with (fs_bytes f) wr)) = Ret c4" "reading wr base (entries ps) tail c4"
      "version (conf_header c4) = version (conf_header c2)"
    by (rule finish_ok [OF c2(2) assms(3,4)])
  have v: "GetVersion c4 = ver" using assms(5) by (auto simp: GetVersion_def c4(3) c2(3) zero_header_def good_name_def intro!: cstr_field)
  have "list_all (\<lambda>(n, v). good_name n) ps" using assms(1) by (auto simp: pairs_ok_def elim!: list.pred_mono_strong)
  then have "\<forall>name. \<exists>c5. ReadValue name c4 = Ret (c5, case map_of ps (cstr name) of None \<Rightarrow> [] | Some v \<Rightarrow> v)"
    using ReadFile_ok [OF c4(2)] find_entries by (simp add: ReadValue_def) metis
  then show ?thesis using c1 c2(1) c3 c4(1) v by blast
qed

theorem config_roundtrip_witness:
  "\<exists>c1 c2 c3 f. ConfigFile_plain zero_header (Some (file_with [7] True)) [0x31] False = Ret c1 \<and> write_pairs [([0x41], [1, 2])] c1 = (c2, True) \<and>
    WriteHeader c2 = Ret (c3, True) \<and> out_file c3 = Some f \<and> take (length [7 :: byte]) (fs_bytes f) = [7] \<and>
    (\<exists>c4. ConfigFile_open (\<lambda>s. 0) (Some (file_with (fs_bytes f) True)) = Ret c4 \<and> GetVersion c4 = [0x31] \<and>
      (\<forall>name. \<exists>c5. ReadValue name c4 = Ret (c5, case map_of [([0x41], [1, 2])] (cstr name) of None \<Rightarrow> [] | Some v \<Rightarrow> v)))"
proof (rule config_roundtrip)
  show "pairs_ok [([0x41], [1, 2])]" by code_simp
  show "no_header [7]" by (simp add: no_header_def)
  show "no_header (layout [7] (entries [([0x41], [1, 2])]))" by code_simp
  show "length (layout [7] (entries [([0x41], [1, 2])])) + HeaderLength < 2 ^ 32"
    by (simp add: layout_def entry_bytes_def new_entry_def info_bytes_def set_field_def)
  show "good_name [0x31]" by code_simp
qed

subsection \<open>Encrypted strings\<close>

text \<open>
  A service that offers a method: it starts, both processes have memory, the kernel moves the bytes, and the function registered for
  the method promises \<^term>\<open>out\<close> for the strings of the request.
\<close>

definition offers :: "service \<Rightarrow> u32 \<Rightarrow> byte list list \<Rightarrow> byte list \<Rightarrow> bool" where
  "offers sv mid strs out =
     (sv_started sv \<and> memory (sv_client sv) \<and> memory (sv_server sv) \<and> length (frames strs) \<le> 2 ^ 31 \<and> length (frame out) \<le> 2 ^ 31 \<and>
      (\<exists>func. sv_handlers sv mid = Some func \<and> answers_with (sv_server sv) func strs out) \<and>
      moves_all (sv_out sv) [8, length (frames strs), 8, length (frames strs)] \<and>
      moves_all (sv_in sv) [4, 4, 8, length (frame out), 8, length (frame out)])"

lemma greeting_ok:
  assumes "moves_all ans (4 # 4 # ns)"
  shows "\<exists>ans'. rbind (RunOnce_hello (ans, [])) IpcClient_new = Ret ((ans', []), True) \<and> moves_all ans' ns"
proof -
  obtain a1 a2 where a: "moves ans 4 = Some a1" "moves a1 4 = Some a2" "moves_all a2 ns"
    using assms by (auto split: option.splits)
  have "RunOnce_hello (ans, []) = Ret (a1, le32 magic_numb)"
    using write_moves [of ans "le32 magic_numb" a1 "[]" 0] a(1) by (simp add: RunOnce_hello_def write_ipc_def)
  moreover have "IpcClient_new (a1, le32 magic_numb) = Ret ((a2, []), True)"
    using read_moves [OF a(2), of "le32 magic_numb" "[]"] by (simp add: IpcClient_new_def read_ipc_def)
  ultimately show ?thesis using a(3) by simp
qed

lemma CryptStr_ok:
  assumes "offers sv mid [str, key] out"
  shows "CryptStr mid sv str key = Ret out"
proof -
  from assms obtain func where o: "sv_started sv" "memory (sv_client sv)" "memory (sv_server sv)" "length (frames [str, key]) \<le> 2 ^ 31"
    "length (frame out) \<le> 2 ^ 31" "sv_handlers sv mid = Some func" "answers_with (sv_server sv) func [str, key] out"
    "moves_all (sv_out sv) [8, length (frames [str, key]), 8, length (frames [str, key])]"
    "moves_all (sv_in sv) [4, 4, 8, length (frame out), 8, length (frame out)]"
    unfolding offers_def by blast
  obtain ans' where g: "rbind (RunOnce_hello (sv_in sv, [])) IpcClient_new = Ret ((ans', []), True)"
    "moves_all ans' [8, length (frame out), 8, length (frame out)]" using greeting_ok [OF o(9)] by blast
  obtain inp where i: "RunOnce_hello (sv_in sv, []) = Ret inp" "IpcClient_new inp = Ret ((ans', []), True)"
    using g(1) by (cases "RunOnce_hello (sv_in sv, [])") auto
  obtain req a a' req' rsp rsp' where c: "append_all (sv_client sv) [str, key] (SetMethodId mid (Request_new (sv_client sv) (sv_req sv))) = Ret req"
    "Call (sv_client sv) (RunOnce_serve (sv_server sv) (sv_hdrs sv) (sv_handlers sv)) (sv_out sv, []) (ans', []) req
       (Request_new (sv_client sv) (sv_rsp sv)) = Ret (((a, []), (a', [])), req', rsp, 0)"
    "req_SubStr rsp = Ret (rsp', out)"
    using call_ok [of "sv_client sv" "sv_server sv" "[str, key]" out "sv_handlers sv" mid func "sv_out sv" ans' "sv_req sv" "sv_hdrs sv" "sv_rsp sv"]
      o g(2) by blast
  show ?thesis unfolding CryptStr_def c(1) using o(1) i c(2,3) by simp
qed

lemma ConfigFile_new_ok:
  assumes "no_header base" "length base < 2 ^ 32" "length md5 = 256" "length cust < 64" "length ver < 256"
  shows "\<exists>c. ConfigFile_new hash_range (Some (file_with base True)) cust md5 ver = Ret c \<and> writing base (entries [(KEY1, md5)]) c \<and>
    aes_key c = GenerateKey hash_range cust md5 \<and> custom (conf_header c) = set_field cust (custom zero_header)"
proof -
  let ?h = "zero_header\<lparr>custom := set_field cust (custom zero_header), version := set_field ver (version zero_header)\<rparr>"
  let ?c = "ConfigFile_closed\<lparr>aes_key := GenerateKey hash_range cust md5, conf_header := ?h,
    out_file := Some \<lparr>fs_bytes = base, fs_pos = length base, fs_good = True, fs_writable = True\<rparr>\<rparr>"
  have w: "writing base [] ?c" using assms(4,5) by (simp add: writing_def ConfigFile_closed_def zero_header_def header_ok_def set_field_def)
  have k: "length KEY1 < 256" by (simp add: KEY1_def)
  obtain c1 where c1: "WriteFile KEY1 md5 ?c = (c1, True)" "writing base (entries [(KEY1, md5)]) c1" "aes_key c1 = GenerateKey hash_range cust md5"
    "custom (conf_header c1) = set_field cust (custom zero_header)"
    using WriteFile_ok [OF w k, of md5] assms(2) by (auto simp: find_entry_def)
  then show ?thesis
    using wipe_none [OF assms(1,2)] assms(3-5) by (auto simp: ConfigFile_new_def Let_def ConfigFile_closed_def)
qed

text \<open>
  C39: An encrypted string is found again: written with \<^verbatim>\<open>WriteConfigFile\<close> by an object created with a customer name, key material of 256
  bytes and a version, and finished with \<^verbatim>\<open>WriteHeader\<close>, it is returned by \<^verbatim>\<open>ReadConfigFile\<close> of a later object on the same file, which
  derives the same key from what the file holds. This needs the service process to offer the encryption \<^term>\<open>enc\<close> and the
  decryption \<^term>\<open>dec\<close>, its inverse.
\<close>

theorem config_encrypted_roundtrip:
  assumes "good_name name" and "name \<noteq> KEY1" and "length md5_str = 256" and "length cust < 64" and "0 \<notin> set cust" and "length ver < 256"
    and "key = GenerateKey hash_range cust md5_str"
    and "no_header base" and "no_header (layout base (entries [(KEY1, md5_str), (name, enc str key)]))"
    and "length (layout base (entries [(KEY1, md5_str), (name, enc str key)])) + HeaderLength < 2 ^ 32"
    and "offers sv 0 [str, key] (enc str key)" and "enc str key \<noteq> []"
    and "offers sv' 1 [enc str key, key] (dec (enc str key) key)" and "dec (enc str key) key = str"
  shows "\<exists>c1 c2 c3 f c4 c5. ConfigFile_new hash_range (Some (file_with base True)) cust md5_str ver = Ret c1 \<and>
    WriteConfigFile sv name str c1 = Ret (c2, True) \<and> WriteHeader c2 = Ret (c3, True) \<and> out_file c3 = Some f \<and>
    ConfigFile_open hash_range (Some (file_with (fs_bytes f) wr)) = Ret c4 \<and> ReadConfigFile sv' name c4 = Ret (c5, str)"
proof -
  let ?e = "enc str key" let ?ps = "[(KEY1, md5_str), (name, ?e)]"
  have k1: "good_name KEY1" by (simp add: KEY1_def good_name_def)
  have key: "key \<noteq> []" using assms(3,7) by (simp add: GenerateKey_def)
  have small: "length base < 2 ^ 32" "length (layout base (entries [(KEY1, md5_str)])) < 2 ^ 32"
    using assms(10) by (simp_all add: layout_def)
  obtain c1 where c1: "ConfigFile_new hash_range (Some (file_with base True)) cust md5_str ver = Ret c1" "writing base (entries [(KEY1, md5_str)]) c1"
    "aes_key c1 = key" "custom (conf_header c1) = set_field cust (custom zero_header)"
    using ConfigFile_new_ok [OF assms(8) small(1) assms(3,4,6)] assms(7) by blast
  have "find_entry name (entries [(KEY1, md5_str)]) = None" using find_entries [of "[(KEY1, md5_str)]" name] k1 assms(2) by simp
  then obtain c2 where c2: "WriteFile name ?e c1 = (c2, True)" "writing base (entries ?ps) c2" "custom (conf_header c2) = custom (conf_header c1)"
    using WriteFile_ok [OF c1(2) _ _ small(2), of name ?e] assms(1) by (auto simp: good_name_def)
  have n2: "WriteConfigFile sv name str c1 = Ret (c2, True)"
    using CryptStr_ok [OF assms(11)] assms(12) c1(3) c2(1) key by (simp add: WriteConfigFile_def EncryptStr_def)
  have cc: "cstr (custom (conf_header c2)) = cust"
    unfolding c2(3) c1(4) using assms(4,5) by (intro cstr_field) (auto simp: zero_header_def)
  have good: "list_all (\<lambda>(n, v). good_name n) ?ps" using k1 assms(1) by simp
  have look: "string_of (find_entry KEY1 (entries ?ps)) = md5_str" "string_of (find_entry name (entries ?ps)) = ?e"
    using find_entries [OF good, of KEY1] find_entries [OF good, of name] assms(2) by auto
  obtain c3 f c4 tail where c3: "WriteHeader c2 = Ret (c3, True)" "out_file c3 = Some f"
    and c4: "ConfigFile_open hash_range (Some (file_with (fs_bytes f) wr)) = Ret c4" "reading wr base (entries ?ps) tail c4"
      "aes_key c4 = (let m = string_of (find_entry KEY1 (entries ?ps)) in if m = [] then [] else GenerateKey hash_range (cstr (custom (conf_header c2))) m)"
    by (rule finish_ok [OF c2(2) assms(9,10)])
  have k4: "aes_key c4 = key" unfolding c4(3) look(1) cc using assms(3,7) by (auto simp: Let_def)
  have "cstr name = name" using assms(1) by (intro cstr_id) (simp add: good_name_def)
  with ReadFile_ok [OF c4(2), of name] obtain c5 where c5: "ReadFile name c4 = Ret (c5, ?e)" "aes_key c5 = key"
    using look(2) k4 by auto
  have "ReadConfigFile sv' name c4 = Ret (c5, str)"
    using CryptStr_ok [OF assms(13)] assms(12,14) c5 by (simp add: ReadConfigFile_def DecryptStr_def)
  then show ?thesis using c1(1) n2 c3 c4(1) by blast
qed

theorem config_encrypted_roundtrip_witness:
  "\<exists>sv c1 c2 c3 f c4 c5. ConfigFile_new (\<lambda>s. 0) (Some (file_with [7] True)) [0x43] (replicate 256 0) [0x31] = Ret c1 \<and>
    WriteConfigFile sv [0x41] [1] c1 = Ret (c2, True) \<and> WriteHeader c2 = Ret (c3, True) \<and> out_file c3 = Some f \<and>
    ConfigFile_open (\<lambda>s. 0) (Some (file_with (fs_bytes f) True)) = Ret c4 \<and> ReadConfigFile sv [0x41] c4 = Ret (c5, [1])"
proof -
  let ?al = "(\<lambda>n. True, \<lambda>i. 0) :: allocator"
  let ?sv = "\<lparr>sv_started = True, sv_client = ?al, sv_server = ?al, sv_handlers = [0 \<mapsto> echo ?al, 1 \<mapsto> echo ?al],
    sv_out = [Moved 8, Moved 25, Moved 8, Moved 25], sv_in = [Moved 4, Moved 4, Moved 8, Moved 5, Moved 8, Moved 5],
    sv_req = (0, 0), sv_rsp = (0, 0), sv_hdrs = ((0, 0), (0, 0))\<rparr>"
  let ?key = "GenerateKey (\<lambda>s. 0) [0x43] (replicate 256 0)"
  have mem: "memory ?al" by (simp add: memory_def)
  have len: "length ?key = 16" by (simp add: GenerateKey_def)
  have m: "moves_all [Moved 8, Moved 25, Moved 8, Moved 25] [8, 25, 8, 25]"
    "moves_all [Moved 4, Moved 4, Moved 8, Moved 5, Moved 8, Moved 5] [4, 4, 8, 5, 8, 5]" by code_simp+
  have o: "offers ?sv i [[1], ?key] [1]" if "i = 0 \<or> i = 1" for i
    using that m len mem echo_answers [OF mem, of "[1]" "[?key]"] by (auto simp: offers_def)
  have h: "no_header (layout [7] (entries [(KEY1, replicate 256 0), ([0x41], [1])]))" by code_simp
  have l: "length (layout [7] (entries [(KEY1, replicate 256 0), ([0x41], [1])])) + HeaderLength < 2 ^ 32"
    by (simp add: layout_def entry_bytes_def new_entry_def info_bytes_def set_field_def KEY1_def)
  have g: "good_name [0x41]" "[0x41] \<noteq> KEY1" "no_header [7]" by (simp_all add: good_name_def KEY1_def no_header_def)
  show ?thesis
    by (rule exI [of _ ?sv], rule config_encrypted_roundtrip [where enc = "\<lambda>s k. s" and dec = "\<lambda>s k. s" and key = ?key])
      (fact g h l refl | rule o | simp)+
qed

subsection \<open>Updating in place\<close>

lemma write_write:
  assumes "fs_good f" "fs_writable f" "fs_pos f \<le> length (fs_bytes f)"
  shows "write_fs b (write_fs a f) = write_fs (a @ b) f"
  using assms by (simp add: write_fs_def Let_def min_def ac_simps)

lemma write_entry:
  assumes "fs_good f" "fs_writable f" "fs_pos f \<le> length (fs_bytes f)"
  shows "write_fs pad (write_fs str (write_fs (info_bytes info) f)) = write_fs (entry_bytes (info, str, pad)) f"
  by (simp add: write_write assms entry_bytes_def)

lemma write_over:
  assumes "fs_bytes f = pre @ old @ post" "length old = length bs" "fs_good f" "fs_writable f"
  shows "write_fs bs (at f (length pre)) = at (f\<lparr>fs_bytes := pre @ bs @ post\<rparr>) (length (pre @ bs))"
  using assms by (simp add: write_fs_def at_def)

lemma layout_update:
  assumes "i < length es"
  obtains rest where "layout base es = layout base (take i es) @ entry_bytes (es ! i) @ rest"
    "\<And>e. layout base (es[i := e]) = layout base (take i es) @ entry_bytes e @ rest"
proof -
  let ?rest = "concat (map entry_bytes (drop (Suc i) es))"
  have l: "layout base (es[i := e]) = layout base (take i es) @ entry_bytes e @ ?rest" for e
    using assms by (simp add: upd_conv_take_nth_drop layout_def)
  show ?thesis using that [OF _ l] l [of "es ! i"] by simp
qed

lemma UpdateFile_ok:
  assumes r: "reading True base es tail c" and i: "i < length es" "es ! i = (info, str0, pad0)" and n: "length str \<le> length str0 + length pad0"
  defines "e \<equiv> (info\<lparr>file_size := of_nat (length str)\<rparr>, str, replicate (length str0 + length pad0 - length str) 0x20)"
  shows "\<exists>c'. UpdateFile i str c = (c', True) \<and> reading True base (es[i := e]) tail c' \<and> aes_key c' = aes_key c"
proof -
  from r obtain p where c: "out_file c = Some \<lparr>fs_bytes = layout base es @ tail, fs_pos = p, fs_good = True, fs_writable = True\<rparr>"
    "file_list c = map fst es" "list_all entry_ok es" "file_num (conf_header c) = of_nat (length es)"
    "file_list_offset (conf_header c) = of_nat (length base)" "length (layout base es) < 2 ^ 32"
    using i(1) by (auto simp: reading_def)
  let ?f = "\<lparr>fs_bytes = layout base es @ tail, fs_pos = p, fs_good = True, fs_writable = True\<rparr>"
  let ?pre = "layout base (take i es)" let ?info = "info\<lparr>file_size := of_nat (length str)\<rparr>"
  let ?pad = "replicate (length str0 + length pad0 - length str) (0x20 :: byte)"
  obtain rest where l: "layout base es = ?pre @ entry_bytes (info, str0, pad0) @ rest" "layout base (es[i := e]) = ?pre @ entry_bytes e @ rest"
    using layout_update [OF i(1), of base] i(2) by metis
  have ok: "entry_ok (info, str0, pad0)" using c(3) i by (metis list_all_length)
  then have len: "length (info_bytes info) = FileInfoLength" "length (info_bytes ?info) = FileInfoLength"
    using info_of_bytes [of info] info_of_bytes [of ?info] by (simp_all add: entry_ok_def)
  have "length (layout base es) = length ?pre + FileInfoLength + length str0 + length pad0 + length rest"
    using arg_cong [OF l(1), of length] len by (simp add: entry_bytes_def)
  then have small: "length ?pre < 2 ^ 32" "length str0 + length pad0 < 2 ^ 32" "length str < 2 ^ 32" using c(6) n by simp_all
  have eq: "length (entry_bytes e) = length (entry_bytes (info, str0, pad0))" using len n by (simp add: e_def entry_bytes_def)
  have ok': "entry_ok e" using ok n by (simp add: e_def entry_ok_def)
  have cap: "file_capacity info - of_nat (length str) = of_nat (length str0 + length pad0 - length str)"
    using ok n by (simp add: entry_ok_def of_nat_diff)
  have "unat (of_nat (length str0 + length pad0 - length str) :: u32) = length str0 + length pad0 - length str"
    using small(2) by (intro unat_of_nat32) simp
  then have pad: "replicate (unat (file_capacity ?info - file_size ?info)) 0x20 = ?pad" using cap by simp
  have pos: "entry_pos (file_list_offset (conf_header c)) (file_list c) i = of_nat (length ?pre)"
    using entry_pos_layout [OF c(3), of i base] c(2,5) i(1) by simp
  have seek: "seek_to (of_nat (length ?pre)) ?f = at ?f (length ?pre)" by (simp add: seek_to_def at_def unat_of_nat32 [OF small(1)])
  have "write_fs ?pad (write_fs str (write_fs (info_bytes ?info) (at ?f (length ?pre)))) = write_fs (entry_bytes e) (at ?f (length ?pre))"
    unfolding e_def using l(1) by (intro write_entry) (simp_all add: at_def)
  also have "\<dots> = at (?f\<lparr>fs_bytes := ?pre @ entry_bytes e @ rest @ tail\<rparr>) (length (?pre @ entry_bytes e))"
    using l(1) eq by (intro write_over) simp_all
  finally have w: "write_fs ?pad (write_fs str (write_fs (info_bytes ?info) (at ?f (length ?pre)))) =
      at (?f\<lparr>fs_bytes := ?pre @ entry_bytes e @ rest @ tail\<rparr>) (length (?pre @ entry_bytes e))" .
  have "file_list c ! i = info" using c(2) i by simp
  then have "UpdateFile i str c = (c\<lparr>file_list := (file_list c)[i := ?info],
      out_file := Some (at (?f\<lparr>fs_bytes := ?pre @ entry_bytes e @ rest @ tail\<rparr>) (length (?pre @ entry_bytes e)))\<rparr>, True)"
    by (simp only: UpdateFile_def c(1) option.case Let_def pos seek pad w)
  moreover have "list_all entry_ok (es[i := e])" 
    using c(3) ok' set_update_subset_insert [of es i e] by (auto simp: list_all_iff)
  moreover have "length (layout base (es[i := e])) = length (layout base es)" using l eq by simp
  ultimately show ?thesis using c l(2) by (simp add: reading_def at_def map_update e_def)
qed

lemma FindConfigFile_names:
  "map (\<lambda>i. cstr (file_name i)) infos = map (\<lambda>i. cstr (file_name i)) infos' \<Longrightarrow> FindConfigFile name infos = FindConfigFile name infos'"
proof (induction infos arbitrary: infos')
  case (Cons a infos)
  then obtain b rest where "infos' = b # rest" by (cases infos') auto
  then show ?case using Cons by auto
qed simp

lemma find_update:
  assumes i: "FindConfigFile name (map fst es) = Some i" and same: "file_name (fst e) = file_name (fst (es ! i))"
  shows "find_entry n (es[i := e]) = (if n = name then Some e else find_entry n es)"
proof -
  have li: "i < length es" "cstr (file_name (fst (es ! i))) = name"
    using FindConfigFile_Some [OF i] by (auto simp: find_entry_def find_Some_iff)
  let ?g = "\<lambda>e. cstr (file_name (fst e))"
  have "map ?g (es[i := e]) = (map ?g es)[i := map ?g es ! i]" using li(1) by (simp add: map_update same)
  then have "map (\<lambda>i. cstr (file_name i)) (map fst (es[i := e])) = map (\<lambda>i. cstr (file_name i)) (map fst es)" by (simp add: comp_def)
  note f = FindConfigFile_names [OF this]
  show ?thesis
  proof (cases "FindConfigFile n (map fst es)")
    case None
    then have "find_entry n (es[i := e]) = None" "find_entry n es = None" "n \<noteq> name"
      using f [of n] i FindConfigFile_None [of n "es[i := e]"] FindConfigFile_None [of n es] by auto
    then show ?thesis by simp
  next
    case (Some j)
    then have j: "j < length es" "find_entry n es = Some (es ! j)" "find_entry n (es[i := e]) = Some (es[i := e] ! j)"
      using FindConfigFile_Some [of n es j] FindConfigFile_Some [of n "es[i := e]" j] f [of n] by auto
    then have "cstr (file_name (fst (es ! j))) = n" by (auto simp: find_entry_def find_Some_iff)
    then show ?thesis using j li i Some by (cases "j = i") auto
  qed
qed

text \<open>
  C40: \<^verbatim>\<open>UpdateConfigFile\<close> replaces a string in place. When the encrypted string fits the room of the entry, the call returns 0, and
  from then on the entry reads as the new string and every other name as before; a longer one is refused with 4 and a
  name that is not there with 1, and nothing changes.
\<close>

theorem config_update:
  assumes "reading True base es tail c" and "aes_key c \<noteq> []" and "offers sv 0 [str, aes_key c] e" and "e \<noteq> []"
  shows "case find_entry name es of
      None \<Rightarrow> UpdateConfigFile sv name str c = Ret (c, 1)
    | Some (info, old, pad) \<Rightarrow>
        if length e \<le> length old + length pad
        then \<exists>c'. UpdateConfigFile sv name str c = Ret (c', 0) \<and>
          (\<forall>n. \<exists>c''. ReadFile n c' = Ret (c'', if cstr n = name then e else string_of (find_entry (cstr n) es)))
        else UpdateConfigFile sv name str c = Ret (c, 4)"
proof -
  from assms(1) have c: "file_list c = map fst es" "list_all entry_ok es" "length (layout base es) < 2 ^ 32" "out_file c \<noteq> None"
    by (auto simp: reading_def)
  show ?thesis
  proof (cases "FindConfigFile name (map fst es)")
    case None
    then show ?thesis using FindConfigFile_None [of name es] c(1) by (simp add: UpdateConfigFile_def)
  next
    case (Some i)
    note i = FindConfigFile_Some [OF Some]
    obtain info old pad where ent: "es ! i = (info, old, pad)" by (cases "es ! i")
    have ok: "entry_ok (info, old, pad)" using c(2) i ent by (metis list_all_length)
    obtain rest where "layout base es = layout base (take i es) @ info_bytes info @ old @ pad @ rest" using layout_split [OF _ ent] i by blast
    then have "length old + length pad < 2 ^ 32" using c(3) by simp
    then have cap: "unat (file_capacity (map fst es ! i)) = length old + length pad"
      using ok ent i by (simp add: entry_ok_def unat_of_nat32 flip: of_nat_add)
    have enc: "EncryptStr sv str (aes_key c) = Ret e" using CryptStr_ok [OF assms(3)] by (simp add: EncryptStr_def)
    show ?thesis
    proof (cases "length e \<le> length old + length pad")
      case True
      let ?e = "(info\<lparr>file_size := of_nat (length e)\<rparr>, e, replicate (length old + length pad - length e) 0x20)"
      obtain c' where c': "UpdateFile i e c = (c', True)" "reading True base (es[i := ?e]) tail c'"
        using UpdateFile_ok [OF assms(1) _ ent True] i by blast
      have "UpdateConfigFile sv name str c = Ret (c', 0)"
        using Some c(1,4) assms(2,4) enc True c'(1) cap by (simp add: UpdateConfigFile_def)
      moreover have "string_of (find_entry n (es[i := ?e])) = (if n = name then e else string_of (find_entry n es))" for n
        using find_update [OF Some, of ?e n] ent by (simp add: string_of_def)
      then have "\<exists>c''. ReadFile n c' = Ret (c'', if cstr n = name then e else string_of (find_entry (cstr n) es))" for n
        using ReadFile_ok [OF c'(2), of n] by fastforce
      ultimately show ?thesis using i ent True by auto
    next
      case False
      then show ?thesis using Some c(1,4) assms(2,4) enc cap i ent by (auto simp: UpdateConfigFile_def)
    qed
  qed
qed

theorem config_update_witness:
  "\<exists>sv c'. UpdateConfigFile sv [0x41] [2]
      \<lparr>aes_key = [9], conf_header = zero_header\<lparr>file_num := 1, file_list_offset := 1\<rparr>,
       out_file = Some (file_with (layout [7] [new_entry [0x41] [1]]) True), file_list = [fst (new_entry [0x41] [1])]\<rparr> = Ret (c', 0) \<and>
     (\<forall>n. \<exists>c''. ReadFile n c' = Ret (c'', if cstr n = [0x41] then [2] else string_of (find_entry (cstr n) [new_entry [0x41] [1]])))"
proof -
  let ?al = "(\<lambda>n. True, \<lambda>i. 0) :: allocator" let ?es = "[new_entry [0x41] [1]]"
  let ?sv = "\<lparr>sv_started = True, sv_client = ?al, sv_server = ?al, sv_handlers = [0 \<mapsto> echo ?al],
    sv_out = [Moved 8, Moved 10, Moved 8, Moved 10], sv_in = [Moved 4, Moved 4, Moved 8, Moved 5, Moved 8, Moved 5],
    sv_req = (0, 0), sv_rsp = (0, 0), sv_hdrs = ((0, 0), (0, 0))\<rparr>"
  let ?c = "\<lparr>aes_key = [9], conf_header = zero_header\<lparr>file_num := 1, file_list_offset := 1\<rparr>,
    out_file = Some (file_with (layout [7] ?es) True), file_list = [fst (new_entry [0x41] [1])]\<rparr>"
  have mem: "memory ?al" by (simp add: memory_def)
  have m: "moves_all [Moved 8, Moved 10, Moved 8, Moved 10] [8, 10, 8, 10]"
    "moves_all [Moved 4, Moved 4, Moved 8, Moved 5, Moved 8, Moved 5] [4, 4, 8, 5, 8, 5]" by code_simp+
  have o: "offers ?sv 0 [[2], aes_key ?c] [2]" using m mem echo_answers [OF mem, of "[2]" "[[9]]"] by (simp add: offers_def)
  have "length (layout [7] ?es) < 2 ^ 32" by (simp add: layout_def entry_bytes_def new_entry_def info_bytes_def set_field_def)
  then have r: "reading True [7] ?es [] ?c" using new_entry_ok [of "[0x41]" "[1]"] by (simp add: reading_def)
  have f: "find_entry [0x41] ?es = Some (fst (new_entry [0x41] [1]), [1], replicate 100 0x20)"
    using cstr_field [of "[0x41]" "replicate 256 0"] by (simp add: find_entry_def new_entry_def)
  show ?thesis using config_update [OF r _ o, of "[0x41]"] f by (intro exI [of _ ?sv]) simp
qed

end
