(* ===== verification/Shm_Seq_Lock.thy ===== *)
theory Shm_Seq_Lock
  imports Prelude
begin

section \<open>The sequence lock of the shards\<close>

text \<open>
  \<^verbatim>\<open>aaf/code/sharding/seq_lock.h\<close>: shards process the messages of one stream in parallel and serialise a section of the
  handling by the number of the message. \<^verbatim>\<open>lock_sqn_\<close> holds \<open>m\<close> when everything up to \<open>m\<close> has passed and \<open>-n\<close> while message
  \<open>n\<close> is in its section. A message that does not need the section calls \<^verbatim>\<open>UnLock\<close> alone: its number is parked in a ring of
  entries until the lock reaches it. A step is one access to the shared memory (the compare-and-swaps included), the
  accesses of any number of threads are interleaved in any order and are sequentially consistent. The 64-bit signed numbers
  are integers here, that they stay in range is part of what is proved.
\<close>

record seqlock =
  lock_sqn :: int
  prev_lock_sqn :: int
  curr_lock_index :: int
  queue_mask :: u32
  queue_size :: u32
  entries :: "int list"

definition sl_header_size :: "u64 \<Rightarrow> u64" where
  "sl_header_size sizeof_lock = ADK_ROUND_UP sizeof_lock 64"

definition queue_size_align :: "u32 \<Rightarrow> u32" where
  "queue_size_align cache_size = RoundToPowerOf2 cache_size"

definition sl_CalcMemSize :: "u64 \<Rightarrow> u32 \<Rightarrow> u64 run" where
  "sl_CalcMemSize sizeof_lock cache_size =
     rassert (2 \<le> cache_size) (Ret (sl_header_size sizeof_lock + 8 * ucast (queue_size_align cache_size)))"

definition sl_Create :: "u32 \<Rightarrow> seqlock" where
  "sl_Create cache_size =
     (let size = queue_size_align cache_size
      in \<lparr>lock_sqn = 0, prev_lock_sqn = 0, curr_lock_index = 0, queue_mask = size - 1, queue_size = size,
          entries = replicate (unat size) 0\<rparr>)"

definition sl_GetInQueueIndex :: "seqlock \<Rightarrow> int \<Rightarrow> nat" where
  "sl_GetInQueueIndex s index = nat (index AND uint (queue_mask s))"

definition entry_at :: "seqlock \<Rightarrow> int \<Rightarrow> int" where
  "entry_at s index = entries s ! sl_GetInQueueIndex s index"

definition set_entry :: "int \<Rightarrow> int \<Rightarrow> seqlock \<Rightarrow> seqlock" where
  "set_entry index v s = s\<lparr>entries := (entries s)[sl_GetInQueueIndex s index := v]\<rparr>"

text \<open>Where a thread is, with its local variables; \<^verbatim>\<open>TryRelease\<close> returns to the loop of \<^verbatim>\<open>Lock\<close> or to the caller.\<close>

datatype cont = KLock int int int | KDone

datatype pc =
    Idle
  | LSwap int int int        \<comment> \<open>\<^verbatim>\<open>Lock\<close>: about to compare and swap, with \<^verbatim>\<open>total_seq\<close>, \<^verbatim>\<open>index\<close>, \<^verbatim>\<open>expect_value\<close>\<close>
  | LIndex int int int       \<comment> \<open>lock taken, about to store \<^verbatim>\<open>curr_lock_index_\<close>\<close>
  | LPrev int int            \<comment> \<open>about to store \<^verbatim>\<open>prev_lock_sqn_\<close>\<close>
  | Section int              \<comment> \<open>\<^verbatim>\<open>Lock\<close> has returned\<close>
  | UMax int                 \<comment> \<open>\<^verbatim>\<open>UnLock\<close>: about to read \<^verbatim>\<open>prev_lock_sqn_\<close>\<close>
  | USwap int int            \<comment> \<open>about to compare and swap, with the number and its maximum with \<^verbatim>\<open>prev_lock_sqn_\<close>\<close>
  | CSwap int int            \<comment> \<open>\<^verbatim>\<open>UnlockCache\<close>: about to compare and swap the entry; the second is \<^verbatim>\<open>lock_value\<close>\<close>
  | CRead int int            \<comment> \<open>about to read the entry\<close>
  | CReplace int int int     \<comment> \<open>about to replace a smaller number\<close>
  | TRead int cont           \<comment> \<open>\<^verbatim>\<open>TryRelease\<close>: about to read the entry of the next number\<close>
  | TSwap int cont           \<comment> \<open>about to compare and swap the lock\<close>
  | TClear int cont          \<comment> \<open>about to clear the entry\<close>
  | Failed                   \<comment> \<open>an assertion failed\<close>

fun return_to :: "cont \<Rightarrow> pc" where
  "return_to (KLock n i e) = LSwap n i e"
| "return_to KDone = Idle"

definition TryRelease :: "int \<Rightarrow> cont \<Rightarrow> pc" where
  "TryRelease curr_lock k = (if 0 \<le> curr_lock then TRead curr_lock k else Failed)"

text \<open>The end of \<^verbatim>\<open>UnLock\<close> after the number was parked.\<close>

definition parked :: "int \<Rightarrow> int \<Rightarrow> pc" where
  "parked total_seq lock_value = (if 0 \<le> lock_value \<and> lock_value < total_seq then TryRelease lock_value KDone else Idle)"

text \<open>The next access of a thread.\<close>

fun advance :: "pc \<Rightarrow> seqlock \<Rightarrow> seqlock \<times> pc" where
  "advance Idle s = (s, Idle)"
| "advance (LSwap n i e) s =
     (if lock_sqn s = e then (s\<lparr>lock_sqn := - n\<rparr>, LIndex n i e)
      else let curr_lock = lock_sqn s
           in if curr_lock < 0 then (s, LSwap n i e)
              else if n \<le> curr_lock then (s, LSwap n i curr_lock)
              else (s, TryRelease curr_lock (KLock n i e)))"
| "advance (LIndex n i e) s = (s\<lparr>curr_lock_index := i\<rparr>, LPrev n e)"
| "advance (LPrev n e) s = (s\<lparr>prev_lock_sqn := e\<rparr>, Section n)"
| "advance (Section n) s = (s, Section n)"
| "advance (UMax n) s = (s, USwap n (max n (prev_lock_sqn s)))"
| "advance (USwap n t) s =
     (if lock_sqn s = - n then (s\<lparr>lock_sqn := t\<rparr>, TryRelease t KDone) else (s, CSwap t (lock_sqn s)))"
| "advance (CSwap t v) s = (if entry_at s t = 0 then (set_entry t t s, parked t v) else (s, CRead t v))"
| "advance (CRead t v) s =
     (let cur_val = entry_at s t
      in if 0 < cur_val then (if cur_val < t then (s, CReplace t v cur_val) else (s, parked t v)) else (s, CSwap t v))"
| "advance (CReplace t v c) s = (if entry_at s t = c then (set_entry t t s, parked t v) else (s, CSwap t v))"
| "advance (TRead c k) s = (if entry_at s (c + 1) = c + 1 then (s, TSwap c k) else (s, return_to k))"
| "advance (TSwap c k) s = (if lock_sqn s = c then (s\<lparr>lock_sqn := c + 1\<rparr>, TClear (c + 1) k) else (s, return_to k))"
| "advance (TClear c k) s = (set_entry c 0 s, TRead c k)"
| "advance Failed s = (s, Failed)"

text \<open>
  The threads, with the numbers ever locked, the numbers unlocked alone, the numbers for which \<^verbatim>\<open>UnLock\<close> was called, and
  the numbers in the order in which they took the lock.
\<close>

record world =
  sl :: seqlock
  pcs :: "nat \<Rightarrow> pc"
  locked :: "int set"
  alone :: "int set"
  released :: "int set"
  entered :: "int list"

definition sl_access :: "nat \<Rightarrow> world \<Rightarrow> world" where
  "sl_access p w =
     (let (s, pc) = advance (pcs w p) (sl w)
      in w\<lparr>sl := s, pcs := (pcs w)(p := pc), entered := (case pc of LIndex n i e \<Rightarrow> entered w @ [n] | _ \<Rightarrow> entered w)\<rparr>)"

text \<open>
  A number up to \<^term>\<open>hi\<close> is either locked or unlocked alone, never both; with \<^term>\<open>dup\<close> it may be used any number of times,
  otherwise once.
\<close>

inductive sl_step :: "bool \<Rightarrow> int \<Rightarrow> world \<Rightarrow> world \<Rightarrow> bool" for dup hi where
  lock_call: "pcs w p = Idle \<Longrightarrow> 1 \<le> n \<Longrightarrow> n \<le> hi \<Longrightarrow> n \<notin> alone w \<Longrightarrow> dup \<or> n \<notin> locked w \<Longrightarrow>
    sl_step dup hi w (w\<lparr>pcs := (pcs w)(p := LSwap n i (n - 1)), locked := insert n (locked w)\<rparr>)"
| unlock_call: "pcs w p = Section n \<Longrightarrow> sl_step dup hi w (w\<lparr>pcs := (pcs w)(p := UMax n), released := insert n (released w)\<rparr>)"
| alone_call: "pcs w p = Idle \<Longrightarrow> 1 \<le> n \<Longrightarrow> n \<le> hi \<Longrightarrow> n \<notin> locked w \<Longrightarrow> dup \<or> n \<notin> alone w \<Longrightarrow>
    sl_step dup hi w (w\<lparr>pcs := (pcs w)(p := UMax n), alone := insert n (alone w), released := insert n (released w)\<rparr>)"
| access: "sl_step dup hi w (sl_access p w)"

definition sl_init :: "u32 \<Rightarrow> world" where
  "sl_init cache_size = \<lparr>sl = sl_Create cache_size, pcs = (\<lambda>_. Idle), locked = {}, alone = {}, released = {}, entered = []\<rparr>"

inductive sl_reach :: "bool \<Rightarrow> int \<Rightarrow> u32 \<Rightarrow> world \<Rightarrow> bool" for dup hi cache_size where
  start: "sl_reach dup hi cache_size (sl_init cache_size)"
| move: "sl_reach dup hi cache_size w \<Longrightarrow> sl_step dup hi w w' \<Longrightarrow> sl_reach dup hi cache_size w'"

section \<open>One thread in the section\<close>

text \<open>The number with which a thread has the lock.\<close>

fun has_lock :: "int set \<Rightarrow> pc \<Rightarrow> int option" where
  "has_lock L (LIndex n i e) = Some n"
| "has_lock L (LPrev n e) = Some n"
| "has_lock L (Section n) = Some n"
| "has_lock L (UMax n) = (if n \<in> L then Some n else None)"
| "has_lock L (USwap n t) = (if n \<in> L then Some n else None)"
| "has_lock L _ = None"

text \<open>The local variables of a thread are in range.\<close>

fun cont_ok :: "int \<Rightarrow> int set \<Rightarrow> cont \<Rightarrow> bool" where
  "cont_ok hi L (KLock n i e) \<longleftrightarrow> 1 \<le> n \<and> n \<le> hi \<and> n \<in> L \<and> 0 \<le> e \<and> e \<le> hi"
| "cont_ok hi L KDone \<longleftrightarrow> True"

fun sl_pc_ok :: "int \<Rightarrow> int set \<Rightarrow> int set \<Rightarrow> pc \<Rightarrow> bool" where
  "sl_pc_ok hi L A (LSwap n i e) \<longleftrightarrow> 1 \<le> n \<and> n \<le> hi \<and> n \<in> L \<and> 0 \<le> e \<and> e \<le> hi"
| "sl_pc_ok hi L A (LIndex n i e) \<longleftrightarrow> 1 \<le> n \<and> n \<le> hi \<and> n \<in> L \<and> 0 \<le> e \<and> e \<le> hi"
| "sl_pc_ok hi L A (LPrev n e) \<longleftrightarrow> 1 \<le> n \<and> n \<le> hi \<and> n \<in> L \<and> 0 \<le> e \<and> e \<le> hi"
| "sl_pc_ok hi L A (Section n) \<longleftrightarrow> 1 \<le> n \<and> n \<le> hi \<and> n \<in> L"
| "sl_pc_ok hi L A (UMax n) \<longleftrightarrow> 1 \<le> n \<and> n \<le> hi \<and> n \<in> L \<union> A"
| "sl_pc_ok hi L A (USwap n t) \<longleftrightarrow> 1 \<le> n \<and> n \<le> t \<and> t \<le> hi \<and> n \<in> L \<union> A"
| "sl_pc_ok hi L A (CSwap t v) \<longleftrightarrow> 1 \<le> t \<and> t \<le> hi"
| "sl_pc_ok hi L A (CRead t v) \<longleftrightarrow> 1 \<le> t \<and> t \<le> hi"
| "sl_pc_ok hi L A (CReplace t v c) \<longleftrightarrow> 1 \<le> t \<and> t \<le> hi"
| "sl_pc_ok hi L A (TRead c k) \<longleftrightarrow> 0 \<le> c \<and> c \<le> hi \<and> cont_ok hi L k"
| "sl_pc_ok hi L A (TSwap c k) \<longleftrightarrow> 0 \<le> c \<and> c < hi \<and> cont_ok hi L k"
| "sl_pc_ok hi L A (TClear c k) \<longleftrightarrow> 1 \<le> c \<and> c \<le> hi \<and> cont_ok hi L k"
| "sl_pc_ok hi L A Idle \<longleftrightarrow> True"
| "sl_pc_ok hi L A Failed \<longleftrightarrow> False"

definition lock_ok :: "int \<Rightarrow> seqlock \<Rightarrow> bool" where
  "lock_ok hi s \<longleftrightarrow> (\<exists>k. unat (queue_size s) = 2 ^ k) \<and> queue_mask s = queue_size s - 1 \<and> length (entries s) = unat (queue_size s) \<and>
     \<bar>lock_sqn s\<bar> \<le> hi \<and> 0 \<le> prev_lock_sqn s \<and> prev_lock_sqn s \<le> hi \<and> (\<forall>v \<in> set (entries s). 0 \<le> v \<and> v \<le> hi)"

definition mutex :: "int set \<Rightarrow> int \<Rightarrow> (nat \<Rightarrow> pc) \<Rightarrow> bool" where
  "mutex L lk P \<longleftrightarrow> (\<forall>p n. has_lock L (P p) = Some n \<longrightarrow> lk = - n) \<and>
     (\<forall>p q. has_lock L (P p) \<noteq> None \<longrightarrow> has_lock L (P q) \<noteq> None \<longrightarrow> p = q) \<and> (lk < 0 \<longrightarrow> (\<exists>p. has_lock L (P p) \<noteq> None))"

definition sl_inv :: "int \<Rightarrow> world \<Rightarrow> bool" where
  "sl_inv hi w \<longleftrightarrow> lock_ok hi (sl w) \<and> locked w \<inter> alone w = {} \<and> (\<forall>p. sl_pc_ok hi (locked w) (alone w) (pcs w p)) \<and>
     mutex (locked w) (lock_sqn (sl w)) (pcs w)"

lemma holds_ok: "sl_pc_ok hi L A pc \<Longrightarrow> has_lock L pc = Some n \<Longrightarrow> 1 \<le> n \<and> n \<le> hi \<and> n \<in> L"
  by (cases pc) (auto split: if_splits)

lemma mutex_same:
  assumes "mutex L lk P" and h: "has_lock L pc = has_lock L (P p)"
  shows "mutex L lk (P(p := pc))"
proof -
  have "has_lock L ((P(p := pc)) q) = has_lock L (P q)" for q using h by simp
  then show ?thesis using assms(1) unfolding mutex_def by presburger
qed

lemma mutex_free: "mutex L lk P \<Longrightarrow> 0 \<le> lk \<Longrightarrow> \<forall>q n. has_lock L (P q) = Some n \<longrightarrow> 1 \<le> n \<Longrightarrow> has_lock L (P q) = None"
  unfolding mutex_def by (cases "has_lock L (P q)") fastforce+

lemma mutex_take:
  assumes "mutex L lk P" "0 \<le> lk" "\<forall>q n. has_lock L (P q) = Some n \<longrightarrow> 1 \<le> n" "has_lock L pc = Some n"
  shows "mutex L (- n) (P(p := pc))"
  using mutex_free [OF assms(1-3)] assms(4) by (auto simp: mutex_def)

lemma mutex_leave:
  assumes "mutex L lk P" "has_lock L (P p) \<noteq> None \<or> (\<forall>q. has_lock L (P q) = None)" "has_lock L pc = None" "0 \<le> lk'"
  shows "mutex L lk' (P(p := pc))"
proof -
  have "has_lock L (P q) = None" if "q \<noteq> p" for q using assms(1,2) that unfolding mutex_def by blast
  then show ?thesis using assms(3,4) by (auto simp: mutex_def)
qed

text \<open>A number used in one way is not used in the other, so more locked numbers do not make another thread a holder.\<close>

lemma holds_insert: "sl_pc_ok hi L A pc \<Longrightarrow> n \<notin> A \<Longrightarrow> has_lock (insert n L) pc = has_lock L pc"
  by (cases pc) auto

lemma cont_ok_insert: "cont_ok hi L k \<Longrightarrow> cont_ok hi (insert n L) k"
  by (cases k) auto

lemma pc_ok_insert: "sl_pc_ok hi L A pc \<Longrightarrow> sl_pc_ok hi (insert n L) A pc" "sl_pc_ok hi L A pc \<Longrightarrow> sl_pc_ok hi L (insert n A) pc"
  by (cases pc; simp add: cont_ok_insert; blast)+

lemma return_ok [simp]: "sl_pc_ok hi L A (return_to k) = cont_ok hi L k" "has_lock L (return_to k) = None"
  by (cases k; simp)+

lemma TryRelease_ok [simp]:
  "0 \<le> c \<Longrightarrow> sl_pc_ok hi L A (TryRelease c k) = (c \<le> hi \<and> cont_ok hi L k)" "has_lock L (TryRelease c k) = None"
  by (simp_all add: TryRelease_def)

lemma parked_ok [simp]: "t \<le> hi \<Longrightarrow> sl_pc_ok hi L A (parked t v)" "has_lock L (parked t v) = None"
  by (simp_all add: parked_def)

subsection \<open>The ring of entries\<close>

lemma queue_index:
  assumes "lock_ok hi s"
  shows "sl_GetInQueueIndex s n = nat (n mod int (length (entries s)))" "sl_GetInQueueIndex s n < length (entries s)"
proof -
  obtain k where k: "unat (queue_size s) = 2 ^ k" and m: "queue_mask s = queue_size s - 1" "length (entries s) = unat (queue_size s)"
    using assms by (auto simp: lock_ok_def)
  have pos: "0 < unat (queue_size s)" using k by simp
  then have "queue_size s \<noteq> 0" by auto
  then have "unat (queue_mask s) = 2 ^ k - 1" using k m by (simp add: unat_minus_one)
  then have "int (unat (queue_mask s)) = int (2 ^ k - 1)" by simp
  then have "uint (queue_mask s) = mask k" unfolding mask_eq_exp_minus_1 by (simp add: of_nat_diff)
  then have "sl_GetInQueueIndex s n = nat (n mod 2 ^ k)" unfolding sl_GetInQueueIndex_def by (simp only: take_bit_eq_mask [symmetric] take_bit_eq_mod)
  then show e: "sl_GetInQueueIndex s n = nat (n mod int (length (entries s)))" using k m by simp
  have "0 < length (entries s)" using pos m by simp
  then have "n mod int (length (entries s)) < int (length (entries s))" by (intro pos_mod_bound) linarith
  then show "sl_GetInQueueIndex s n < length (entries s)" unfolding e using \<open>0 < length (entries s)\<close> by linarith
qed

lemma entry_in: "lock_ok hi s \<Longrightarrow> entry_at s n \<in> set (entries s)"
  by (simp add: entry_at_def queue_index(2))

lemma entry_range: "lock_ok hi s \<Longrightarrow> 0 \<le> entry_at s n \<and> entry_at s n \<le> hi"
  using entry_in [of hi s n] unfolding lock_ok_def by blast

lemma set_entry_sel [simp]:
  "lock_sqn (set_entry n v s) = lock_sqn s" "prev_lock_sqn (set_entry n v s) = prev_lock_sqn s" "queue_size (set_entry n v s) = queue_size s"
  "queue_mask (set_entry n v s) = queue_mask s" "length (entries (set_entry n v s)) = length (entries s)"
  by (simp_all add: set_entry_def)

lemma set_entry_ok: "lock_ok hi s \<Longrightarrow> 0 \<le> v \<Longrightarrow> v \<le> hi \<Longrightarrow> lock_ok hi (set_entry n v s)"
  using set_update_subset_insert [of "entries s" "sl_GetInQueueIndex s n" v] unfolding lock_ok_def set_entry_sel
  by (auto simp: set_entry_def)

lemma lock_ok_upd:
  "lock_ok hi s \<Longrightarrow> - hi \<le> v \<Longrightarrow> v \<le> hi \<Longrightarrow> lock_ok hi (s\<lparr>lock_sqn := v\<rparr>)"
  "lock_ok hi s \<Longrightarrow> 0 \<le> v \<Longrightarrow> v \<le> hi \<Longrightarrow> lock_ok hi (s\<lparr>prev_lock_sqn := v\<rparr>)"
  "lock_ok hi s \<Longrightarrow> lock_ok hi (s\<lparr>curr_lock_index := i\<rparr>)"
  by (simp_all add: lock_ok_def abs_le_iff)

subsection \<open>Every step keeps the lock to one thread\<close>

lemma sl_inv_call:
  assumes "sl_inv hi w" "pcs w p = Idle" "1 \<le> n" "n \<le> hi" "n \<notin> alone w"
  shows "sl_inv hi (w\<lparr>pcs := (pcs w)(p := LSwap n i (n - 1)), locked := insert n (locked w)\<rparr>)"
proof -
  have ok: "sl_pc_ok hi (locked w) (alone w) (pcs w q)" for q using assms(1) by (simp add: sl_inv_def)
  have h: "has_lock (insert n (locked w)) (pcs w q) = has_lock (locked w) (pcs w q)" for q by (rule holds_insert [OF ok assms(5)])
  have "mutex (insert n (locked w)) (lock_sqn (sl w)) (pcs w)" using assms(1) unfolding sl_inv_def mutex_def h by blast
  then have "mutex (insert n (locked w)) (lock_sqn (sl w)) ((pcs w)(p := LSwap n i (n - 1)))" using assms(2) by (intro mutex_same) simp_all
  then show ?thesis using assms ok by (auto simp: sl_inv_def pc_ok_insert)
qed

lemma sl_inv_alone:
  assumes "sl_inv hi w" "pcs w p = Idle" "1 \<le> n" "n \<le> hi" "n \<notin> locked w"
  shows "sl_inv hi (w\<lparr>pcs := (pcs w)(p := UMax n), alone := insert n (alone w), released := R\<rparr>)"
proof -
  have "mutex (locked w) (lock_sqn (sl w)) ((pcs w)(p := UMax n))"
    using assms(1,2,5) by (intro mutex_same) (simp_all add: sl_inv_def)
  then show ?thesis using assms by (auto simp: sl_inv_def pc_ok_insert)
qed

lemma sl_inv_unlock:
  assumes "sl_inv hi w" "pcs w p = Section n"
  shows "sl_inv hi (w\<lparr>pcs := (pcs w)(p := UMax n), released := R\<rparr>)"
proof -
  have ok: "sl_pc_ok hi (locked w) (alone w) (Section n)" using assms by (metis sl_inv_def)
  then have "mutex (locked w) (lock_sqn (sl w)) ((pcs w)(p := UMax n))"
    using assms by (intro mutex_same) (simp_all add: sl_inv_def)
  then show ?thesis using assms ok by (auto simp: sl_inv_def)
qed

lemma advance_pc:
  assumes "lock_ok hi s" "sl_pc_ok hi L A pc"
  shows "lock_ok hi (fst (advance pc s))" "sl_pc_ok hi L A (snd (advance pc s))"
proof -
  have e: "0 \<le> entry_at s n" "entry_at s n \<le> hi" for n using entry_range [OF assms(1)] by auto
  have l: "\<bar>lock_sqn s\<bar> \<le> hi" "0 \<le> prev_lock_sqn s" "prev_lock_sqn s \<le> hi" using assms(1) by (simp_all add: lock_ok_def)
  show "lock_ok hi (fst (advance pc s))"
    using assms by (cases pc) (simp_all add: Let_def set_entry_ok lock_ok_upd)
  show "sl_pc_ok hi L A (snd (advance pc s))"
  proof (cases pc)
    case (TRead c k)
    then show ?thesis using assms(2) e(2) [of "c + 1"] by auto
  qed (use assms(2) l e in \<open>auto simp: Let_def\<close>)
qed

lemma advance_mutex:
  assumes inv: "sl_inv hi w"
  shows "mutex (locked w) (lock_sqn (fst (advance (pcs w p) (sl w)))) ((pcs w)(p := snd (advance (pcs w p) (sl w))))"
proof -
  let ?L = "locked w" let ?lk = "lock_sqn (sl w)"
  have m: "mutex ?L ?lk (pcs w)" and ok: "sl_pc_ok hi ?L (alone w) (pcs w q)" for q using inv by (simp_all add: sl_inv_def)
  have num: "\<forall>q n. has_lock ?L (pcs w q) = Some n \<longrightarrow> 1 \<le> n" using holds_ok [OF ok] by blast
  show ?thesis
  proof (cases "pcs w p")
    case (LSwap n i e)
    show ?thesis
    proof (cases "?lk = e")
      case True
      then have "0 \<le> ?lk" using ok [of p] LSwap by simp
      then show ?thesis using LSwap True mutex_take [OF m _ num, of "LIndex n i e"] by simp
    next
      case False
      then show ?thesis using LSwap m mutex_same [OF m] by (simp add: Let_def)
    qed
  next
    case (USwap n t)
    have n: "1 \<le> n" "n \<le> t" "n \<in> ?L \<union> alone w" using ok [of p] USwap by simp_all
    show ?thesis
    proof (cases "?lk = - n")
      case True
      then obtain q where q: "has_lock ?L (pcs w q) \<noteq> None" using m n unfolding mutex_def by auto
      then have "has_lock ?L (pcs w q) = Some n" using m True unfolding mutex_def by fastforce
      then have "n \<in> ?L" using holds_ok [OF ok] by blast
      then have "has_lock ?L (pcs w p) \<noteq> None" using USwap by simp
      then show ?thesis using USwap True mutex_leave [OF m, of p "TryRelease t KDone" t] n by simp
    next
      case False
      then have "has_lock ?L (pcs w p) = None" using m USwap unfolding mutex_def by (metis has_lock.simps(5))
      then show ?thesis using USwap False mutex_same [OF m, of "CSwap t ?lk" p] by simp
    qed
  next
    case (TSwap c k)
    show ?thesis
    proof (cases "?lk = c")
      case True
      then have "0 \<le> ?lk" using ok [of p] TSwap by simp
      then have "\<forall>q. has_lock ?L (pcs w q) = None" using mutex_free [OF m _ num] by blast
      then show ?thesis using TSwap True \<open>0 \<le> ?lk\<close> mutex_leave [OF m, of p "TClear (c + 1) k" "c + 1"] by simp
    next
      case False
      then show ?thesis using TSwap mutex_same [OF m, of "return_to k" p] by simp
    qed
  qed (use m mutex_same [OF m, of _ p] in \<open>auto simp: Let_def fun_upd_idem\<close>)
qed

lemma sl_inv_access: "sl_inv hi w \<Longrightarrow> sl_inv hi (sl_access p w)"
  using advance_mutex [of hi w p] advance_pc [of hi "sl w" "locked w" "alone w" "pcs w p"]
  by (auto simp: sl_inv_def sl_access_def split: prod.split)

lemma sl_Create_ok:
  assumes "2 \<le> cache_size" "unat cache_size \<le> 2 ^ 31" "0 \<le> hi"
  shows "lock_ok hi (sl_Create cache_size)"
proof -
  have "0 < unat cache_size" using assms(1) by (auto simp: word_le_nat_alt)
  then obtain k where "k \<le> 31" "RoundToPowerOf2 cache_size = 2 ^ k" using RoundToPowerOf2_obtain [of cache_size] assms by blast
  then show ?thesis using assms(3) by (auto simp: lock_ok_def sl_Create_def queue_size_align_def Let_def)
qed

lemma sl_reach_inv:
  assumes "sl_reach dup hi cache_size w" "2 \<le> cache_size" "unat cache_size \<le> 2 ^ 31" "0 \<le> hi"
  shows "sl_inv hi w"
  using assms(1)
proof (induction rule: sl_reach.induct)
  case start
  then show ?case using sl_Create_ok [OF assms(2-4)] by (simp add: sl_inv_def sl_init_def mutex_def sl_Create_def Let_def)
next
  case (move w w')
  from move(2,3) show ?case
    by (cases rule: sl_step.cases) (auto intro: sl_inv_call sl_inv_alone sl_inv_unlock sl_inv_access)
qed

section \<open>In the order of the numbers\<close>

text \<open>Here every number is used once. The number a thread has called \<^verbatim>\<open>Lock\<close> with and not yet \<^verbatim>\<open>UnLock\<close>:\<close>

fun wants_k :: "cont \<Rightarrow> int option" where
  "wants_k (KLock n i e) = Some n"
| "wants_k KDone = None"

fun wants :: "pc \<Rightarrow> int option" where
  "wants (LSwap n i e) = Some n"
| "wants (LIndex n i e) = Some n"
| "wants (LPrev n e) = Some n"
| "wants (Section n) = Some n"
| "wants (TRead c k) = wants_k k"
| "wants (TSwap c k) = wants_k k"
| "wants (TClear c k) = wants_k k"
| "wants _ = None"

text \<open>All numbers up to the lock have been released, and so have those that the threads and the entries carry.\<close>

definition passed :: "int \<Rightarrow> int" where
  "passed lk = (if lk < 0 then - lk - 1 else lk)"

fun once_k :: "cont \<Rightarrow> bool" where
  "once_k (KLock n i e) \<longleftrightarrow> e = n - 1"
| "once_k KDone \<longleftrightarrow> True"

fun once_ok :: "int set \<Rightarrow> pc \<Rightarrow> bool" where
  "once_ok R (LSwap n i e) \<longleftrightarrow> e = n - 1"
| "once_ok R (LIndex n i e) \<longleftrightarrow> {1..e} \<subseteq> R"
| "once_ok R (LPrev n e) \<longleftrightarrow> {1..e} \<subseteq> R"
| "once_ok R (UMax n) \<longleftrightarrow> n \<in> R"
| "once_ok R (USwap n t) \<longleftrightarrow> n \<in> R \<and> (t = n \<or> {1..t} \<subseteq> R)"
| "once_ok R (CSwap t v) \<longleftrightarrow> t \<in> R"
| "once_ok R (CRead t v) \<longleftrightarrow> t \<in> R"
| "once_ok R (CReplace t v c) \<longleftrightarrow> t \<in> R"
| "once_ok R (TRead c k) \<longleftrightarrow> once_k k"
| "once_ok R (TSwap c k) \<longleftrightarrow> c + 1 \<in> R \<and> once_k k"
| "once_ok R (TClear c k) \<longleftrightarrow> once_k k"
| "once_ok R _ \<longleftrightarrow> True"

definition once_lock :: "int set \<Rightarrow> seqlock \<Rightarrow> bool" where
  "once_lock R s \<longleftrightarrow> {1..passed (lock_sqn s)} \<subseteq> R \<and> {1..prev_lock_sqn s} \<subseteq> R \<and> (\<forall>v \<in> set (entries s). v = 0 \<or> v \<in> R)"

definition once_threads :: "int set \<Rightarrow> (nat \<Rightarrow> pc) \<Rightarrow> bool" where
  "once_threads R P \<longleftrightarrow> (\<forall>p. once_ok R (P p)) \<and> (\<forall>p n. wants (P p) = Some n \<longrightarrow> n \<notin> R) \<and>
     (\<forall>p q n. wants (P p) = Some n \<longrightarrow> wants (P q) = Some n \<longrightarrow> p = q)"

definition order_inv :: "world \<Rightarrow> bool" where
  "order_inv w \<longleftrightarrow> released w \<subseteq> locked w \<union> alone w \<and> once_lock (released w) (sl w) \<and> once_threads (released w) (pcs w) \<and>
     sorted_wrt (<) (entered w) \<and> (\<forall>h \<in> set (entered w). h \<le> \<bar>lock_sqn (sl w)\<bar>)"

lemma wants_locked: "sl_pc_ok hi L A pc \<Longrightarrow> wants pc = Some n \<Longrightarrow> n \<in> L"
proof -
  have k: "cont_ok hi L k \<Longrightarrow> wants_k k = Some n \<Longrightarrow> n \<in> L" for k by (cases k) auto
  assume "sl_pc_ok hi L A pc" "wants pc = Some n"
  then show ?thesis using k by (cases pc) auto
qed

lemma once_grow:
  assumes "once_ok R pc" "R \<subseteq> R'"
  shows "once_ok R' pc"
  using assms by (cases pc) auto

lemma once_lock_grow: "once_lock R s \<Longrightarrow> R \<subseteq> R' \<Longrightarrow> once_lock R' s"
  unfolding once_lock_def by blast

lemma return_once [simp]: "once_ok R (return_to k) = once_k k" "wants (return_to k) = wants_k k"
  by (cases k; simp)+

lemma TryRelease_once [simp]: "once_k k \<Longrightarrow> once_ok R (TryRelease c k)" "0 \<le> c \<Longrightarrow> wants (TryRelease c k) = wants_k k"
  by (simp_all add: TryRelease_def)

lemma parked_once [simp]: "once_ok R (parked t v)" "wants (parked t v) = None"
  by (simp_all add: parked_def)

lemma advance_wants: "sl_pc_ok hi L A pc \<Longrightarrow> wants (snd (advance pc s)) = wants pc"
  by (cases pc) (auto simp: Let_def)

lemma once_lock_upd:
  "once_lock R s \<Longrightarrow> {1..passed v} \<subseteq> R \<Longrightarrow> once_lock R (s\<lparr>lock_sqn := v\<rparr>)"
  "once_lock R s \<Longrightarrow> {1..v} \<subseteq> R \<Longrightarrow> once_lock R (s\<lparr>prev_lock_sqn := v\<rparr>)"
  "once_lock R s \<Longrightarrow> once_lock R (s\<lparr>curr_lock_index := i\<rparr>)"
  "once_lock R s \<Longrightarrow> v = 0 \<or> v \<in> R \<Longrightarrow> once_lock R (set_entry n v s)"
  using set_update_subset_insert [of "entries s" "sl_GetInQueueIndex s n" v] by (auto simp: once_lock_def set_entry_def)

text \<open>One access keeps the order; the lock is taken only with the number right behind those that have passed.\<close>

lemma advance_once:
  assumes lock: "lock_ok hi s" "once_lock R s" and pc: "sl_pc_ok hi L A pc" "once_ok R pc" "\<forall>n. wants pc = Some n \<longrightarrow> n \<notin> R"
    and s': "advance pc s = (s', pc')"
  shows "once_lock R s'" "once_ok R pc'" "\<bar>lock_sqn s\<bar> \<le> \<bar>lock_sqn s'\<bar>"
    "pc' = LIndex n i e \<Longrightarrow> n = \<bar>lock_sqn s\<bar> + 1 \<and> n \<le> \<bar>lock_sqn s'\<bar>"
proof -
  have e: "entry_at s m = 0 \<or> entry_at s m \<in> R" for m using entry_in [OF lock(1)] lock(2) by (auto simp: once_lock_def)
  have l: "{1..passed (lock_sqn s)} \<subseteq> R" "{1..prev_lock_sqn s} \<subseteq> R" using lock(2) by (simp_all add: once_lock_def)
  have last: "{1..m} \<subseteq> R" if "{1..m - 1} \<subseteq> R" "m \<in> R" for m :: int
  proof
    fix x assume "x \<in> {1..m}"
    then show "x \<in> R" using that by (cases "x = m") auto
  qed
  have "once_lock R s' \<and> once_ok R pc' \<and> \<bar>lock_sqn s\<bar> \<le> \<bar>lock_sqn s'\<bar> \<and>
    (\<forall>n i e. pc' = LIndex n i e \<longrightarrow> n = \<bar>lock_sqn s\<bar> + 1 \<and> n \<le> \<bar>lock_sqn s'\<bar>)"
  proof (cases pc)
    case (LSwap n i e)
    then have n: "e = n - 1" "n \<notin> R" "1 \<le> n" using pc by simp_all
    have "\<not> n \<le> lock_sqn s" if "0 \<le> lock_sqn s" using l(1) n that by (auto simp: passed_def)
    then show ?thesis using LSwap n lock(2) l(1) s'
      by (auto simp: Let_def once_lock_upd(1) passed_def TryRelease_def split: if_splits)
  next
    case (USwap n t)
    then have n: "1 \<le> n" "n \<le> t" "n \<in> R" "t = n \<or> {1..t} \<subseteq> R" "t \<in> R" using pc by auto
    have "{1..t} \<subseteq> R" if "lock_sqn s = - n" using last [of n] l(1) n that by (auto simp: passed_def)
    then show ?thesis using USwap n lock(2) s' by (auto simp: once_lock_upd(1) passed_def TryRelease_def split: if_splits)
  next
    case (TSwap c k)
    then have c: "0 \<le> c" "c + 1 \<in> R" "once_k k" using pc by simp_all
    have "{1..c + 1} \<subseteq> R" if "lock_sqn s = c" using last [of "c + 1"] l(1) c that by (auto simp: passed_def)
    then show ?thesis using TSwap c lock(2) s' by (cases k) (auto simp: once_lock_upd(1) passed_def split: if_splits)
  next
    case (TRead c k)
    then show ?thesis using pc lock(2) s' e [of "c + 1"] by (cases k) (auto split: if_splits)
  next
    case (UMax n)
    then show ?thesis using pc lock(2) s' l(2) by (auto simp: max_def)
  qed (use pc lock(2) s' in \<open>auto simp: Let_def once_lock_upd parked_def TryRelease_def split: if_splits\<close>)
  then show "once_lock R s'" "once_ok R pc'" "\<bar>lock_sqn s\<bar> \<le> \<bar>lock_sqn s'\<bar>"
    "pc' = LIndex n i e \<Longrightarrow> n = \<bar>lock_sqn s\<bar> + 1 \<and> n \<le> \<bar>lock_sqn s'\<bar>" by blast+
qed

lemma once_threads_upd:
  assumes "once_threads R P" "once_ok R pc" "wants pc = wants (P p) \<or> wants pc = None"
  shows "once_threads R (P(p := pc))"
proof -
  have "wants ((P(p := pc)) q) = Some n \<Longrightarrow> wants (P q) = Some n" for q n using assms(3) by (cases "q = p") auto
  moreover have "once_ok R ((P(p := pc)) q)" for q using assms(1,2) by (simp add: once_threads_def)
  ultimately show ?thesis using assms(1) unfolding once_threads_def by metis
qed

lemma once_threads_release:
  assumes "once_threads R P" "\<And>q. q \<noteq> p \<Longrightarrow> wants (P q) \<noteq> Some n"
  shows "once_threads (insert n R) (P(p := UMax n))"
  using assms once_grow [of R _ "insert n R"] unfolding once_threads_def by (auto split: if_splits)

lemma order_access:
  assumes "sl_inv hi w" "order_inv w"
  shows "order_inv (sl_access p w)"
proof -
  obtain s' pc' where s': "advance (pcs w p) (sl w) = (s', pc')" by (cases "advance (pcs w p) (sl w)")
  have ok: "lock_ok hi (sl w)" "sl_pc_ok hi (locked w) (alone w) (pcs w p)" using assms(1) by (simp_all add: sl_inv_def)
  have on: "once_lock (released w) (sl w)" "once_threads (released w) (pcs w)" "sorted_wrt (<) (entered w)"
    "\<forall>h \<in> set (entered w). h \<le> \<bar>lock_sqn (sl w)\<bar>" "released w \<subseteq> locked w \<union> alone w" using assms(2) by (simp_all add: order_inv_def)
  have "once_ok (released w) (pcs w p)" "\<forall>n. wants (pcs w p) = Some n \<longrightarrow> n \<notin> released w" using on(2) by (auto simp: once_threads_def)
  note A = advance_once [OF ok(1) on(1) ok(2) this s']
  have w: "wants pc' = wants (pcs w p)" using advance_wants [OF ok(2), of "sl w"] s' by simp
  have t: "once_threads (released w) ((pcs w)(p := pc'))" by (rule once_threads_upd [OF on(2) A(2) disjI1 [OF w]])
  have h: "\<forall>h \<in> set (entered w). h \<le> \<bar>lock_sqn s'\<bar>" using on(4) A(3) by (meson order_trans)
  have "sorted_wrt (<) (entered w @ [n]) \<and> (\<forall>h \<in> set (entered w @ [n]). h \<le> \<bar>lock_sqn s'\<bar>)" if "pc' = LIndex n i e" for n i e
    using on(3,4) h A(4) [OF that] by (auto simp: sorted_wrt_append)
  then show ?thesis using A(1) t h on(3,5) by (simp add: order_inv_def sl_access_def s' split: pc.split)
qed

lemma order_step:
  assumes "sl_step False hi w w'" "sl_inv hi w" "order_inv w"
  shows "order_inv w'"
proof -
  have ok: "sl_pc_ok hi (locked w) (alone w) (pcs w q)" for q using assms(2) by (simp add: sl_inv_def)
  have on: "once_lock (released w) (sl w)" "once_threads (released w) (pcs w)" "sorted_wrt (<) (entered w)"
    "\<forall>h \<in> set (entered w). h \<le> \<bar>lock_sqn (sl w)\<bar>" "released w \<subseteq> locked w \<union> alone w" using assms(3) by (simp_all add: order_inv_def)
  from assms(1) show ?thesis
  proof cases
    case (lock_call p n i)
    then have n: "n \<notin> released w" "\<And>q. wants (pcs w q) \<noteq> Some n" using on(5) wants_locked [OF ok] by auto
    then have "once_threads (released w) ((pcs w)(p := LSwap n i (n - 1)))"
      using on(2) unfolding once_threads_def by (auto split: if_splits)
    then show ?thesis using lock_call on by (auto simp: order_inv_def)
  next
    case (unlock_call p n)
    have "wants (pcs w q) \<noteq> Some n" if "q \<noteq> p" for q using on(2) unlock_call(2) that unfolding once_threads_def by (metis wants.simps(4))
    then have "once_threads (insert n (released w)) ((pcs w)(p := UMax n))" by (rule once_threads_release [OF on(2)])
    moreover have "n \<in> locked w" using ok [of p] unlock_call by simp
    ultimately show ?thesis using unlock_call on once_lock_grow [OF on(1), of "insert n (released w)"] by (auto simp: order_inv_def)
  next
    case (alone_call p n)
    have "wants (pcs w q) \<noteq> Some n" if "q \<noteq> p" for q using wants_locked [OF ok] alone_call by blast
    then have "once_threads (insert n (released w)) ((pcs w)(p := UMax n))" by (rule once_threads_release [OF on(2)])
    then show ?thesis using alone_call on once_lock_grow [OF on(1), of "insert n (released w)"] by (auto simp: order_inv_def)
  next
    case (access p)
    then show ?thesis using order_access [OF assms(2,3)] by simp
  qed
qed

lemma order_reach:
  assumes "sl_reach False hi cache_size w" "2 \<le> cache_size" "unat cache_size \<le> 2 ^ 31" "0 \<le> hi"
  shows "order_inv w"
  using assms(1)
proof (induction rule: sl_reach.induct)
  case start
  then show ?case by (auto simp: order_inv_def sl_init_def sl_Create_def Let_def once_lock_def once_threads_def passed_def)
next
  case (move w w')
  then show ?case using order_step sl_reach_inv [OF move(1) assms(2-4)] by blast
qed

section \<open>No number is forgotten\<close>

text \<open>
  A number parked in the entries is overwritten by one a multiple of the ring size larger, and a thread that is late with
  clearing an entry clears what came later. Neither happens as long as nobody unlocks alone too far ahead: less than one
  ring beyond the lock and beyond the entries still to be cleared.
\<close>

fun clearing :: "pc \<Rightarrow> int option" where
  "clearing (TClear c k) = Some c"
| "clearing _ = None"

abbreviation ring :: "seqlock \<Rightarrow> int" where
  "ring s \<equiv> int (length (entries s))"

definition ahead_ok :: "seqlock \<Rightarrow> (nat \<Rightarrow> pc) \<Rightarrow> int \<Rightarrow> bool" where
  "ahead_ok s P n \<longleftrightarrow> n \<le> \<bar>lock_sqn s\<bar> + ring s \<and> (\<forall>p c. clearing (P p) = Some c \<longrightarrow> n < c + ring s)"

inductive sl_near :: "int \<Rightarrow> u32 \<Rightarrow> world \<Rightarrow> bool" for hi cache_size where
  near_start: "sl_near hi cache_size (sl_init cache_size)"
| near_move: "sl_near hi cache_size w \<Longrightarrow> sl_step False hi w w' \<Longrightarrow> \<forall>n \<in> alone w' - alone w. ahead_ok (sl w) (pcs w) n \<Longrightarrow>
    sl_near hi cache_size w'"

lemma near_reach: "sl_near hi cache_size w \<Longrightarrow> sl_reach False hi cache_size w"
  by (induction rule: sl_near.induct) (auto intro: sl_reach.intros)

text \<open>A thread on its way to park a number, and what else the threads rely on.\<close>

fun parking :: "int set \<Rightarrow> pc \<Rightarrow> int option" where
  "parking A (UMax n) = (if n \<in> A then Some n else None)"
| "parking A (USwap n t) = (if n \<in> A then Some n else None)"
| "parking A (CSwap t v) = Some t"
| "parking A (CRead t v) = Some t"
| "parking A (CReplace t v c) = Some t"
| "parking A _ = None"

fun near_pc :: "seqlock \<Rightarrow> pc \<Rightarrow> bool" where
  "near_pc s (LIndex n i e) \<longleftrightarrow> e \<le> \<bar>lock_sqn s\<bar>"
| "near_pc s (LPrev n e) \<longleftrightarrow> e \<le> \<bar>lock_sqn s\<bar>"
| "near_pc s (USwap n t) \<longleftrightarrow> t = n"
| "near_pc s (CRead t v) \<longleftrightarrow> False"
| "near_pc s (CReplace t v c) \<longleftrightarrow> False"
| "near_pc s (TSwap c k) \<longleftrightarrow> c < \<bar>lock_sqn s\<bar> \<or> entry_at s (c + 1) = c + 1"
| "near_pc s _ \<longleftrightarrow> True"

definition parks_ok :: "int set \<Rightarrow> seqlock \<Rightarrow> (nat \<Rightarrow> pc) \<Rightarrow> bool" where
  "parks_ok A s P \<longleftrightarrow> (\<forall>p v. parking A (P p) = Some v \<longrightarrow> v \<in> A \<and> \<bar>lock_sqn s\<bar> < v \<and> entry_at s v = 0) \<and>
     (\<forall>p q v. parking A (P p) = Some v \<longrightarrow> parking A (P q) = Some v \<longrightarrow> p = q)"

definition clears_ok :: "seqlock \<Rightarrow> (nat \<Rightarrow> pc) \<Rightarrow> bool" where
  "clears_ok s P \<longleftrightarrow> (\<forall>p c. clearing (P p) = Some c \<longrightarrow> 1 \<le> c \<and> c \<le> \<bar>lock_sqn s\<bar> \<and> entry_at s c = c) \<and>
     (\<forall>p q c. clearing (P p) = Some c \<longrightarrow> clearing (P q) = Some c \<longrightarrow> p = q)"

definition kept_ok :: "int set \<Rightarrow> seqlock \<Rightarrow> (nat \<Rightarrow> pc) \<Rightarrow> bool" where
  "kept_ok A s P \<longleftrightarrow>
     (\<forall>v \<in> A. \<bar>lock_sqn s\<bar> < v \<longrightarrow> ahead_ok s P v \<and> (entry_at s v = v \<or> (\<exists>p. parking A (P p) = Some v))) \<and>
     (\<forall>x. entry_at s x = 0 \<or> entry_at s x \<in> A \<and> entry_at s x mod ring s = x mod ring s \<and>
       (\<bar>lock_sqn s\<bar> < entry_at s x \<or> (\<exists>p. clearing (P p) = Some (entry_at s x))))"

definition near_inv :: "int set \<Rightarrow> seqlock \<Rightarrow> (nat \<Rightarrow> pc) \<Rightarrow> bool" where
  "near_inv A s P \<longleftrightarrow> (\<forall>p. near_pc s (P p)) \<and> prev_lock_sqn s \<le> \<bar>lock_sqn s\<bar> \<and> parks_ok A s P \<and> clears_ok s P \<and> kept_ok A s P"

lemma entry_upd:
  assumes "lock_ok hi s"
  shows "entry_at (set_entry c v s) x = (if x mod ring s = c mod ring s then v else entry_at s x)"
proof -
  note q = queue_index [OF assms]
  have l: "0 < ring s" using q(2) [of 0] by auto
  have "sl_GetInQueueIndex (set_entry c v s) x = sl_GetInQueueIndex s x" by (simp add: sl_GetInQueueIndex_def)
  moreover have "sl_GetInQueueIndex s x = sl_GetInQueueIndex s c \<longleftrightarrow> x mod ring s = c mod ring s"
    unfolding q(1) using l by (metis nat_eq_iff2 pos_mod_sign)
  ultimately show ?thesis using q(2) [of c] by (auto simp: entry_at_def set_entry_def nth_list_update)
qed

text \<open>Numbers in one window of the ring have different slots.\<close>

lemma window_neq:
  assumes "a mod m = b mod (m :: int)" "a < b"
  shows "a + m \<le> b"
proof -
  have "m dvd b - a" using assms(1) by (metis mod_eq_dvd_iff)
  then show ?thesis using assms(2) zdvd_imp_le [of m "b - a"] by simp
qed

subsection \<open>The kinds of steps\<close>

lemma near_pc_cong:
  assumes "lock_sqn s' = lock_sqn s" "\<And>x. entry_at s' x = entry_at s x"
  shows "near_pc s' pc = near_pc s pc"
  using assms by (cases pc) simp_all

text \<open>A thread moves on without touching the lock or the entries.\<close>

lemma near_same:
  assumes inv: "near_inv A s P" and eq: "lock_sqn s' = lock_sqn s" "\<And>x. entry_at s' x = entry_at s x" "ring s' = ring s"
    and pc: "near_pc s pc" "parking A pc = parking A (P p)" "clearing pc = clearing (P p)" and prev: "prev_lock_sqn s' \<le> \<bar>lock_sqn s\<bar>"
  shows "near_inv A s' (P(p := pc))"
proof -
  have same: "parking A ((P(p := pc)) q) = parking A (P q)" "clearing ((P(p := pc)) q) = clearing (P q)" for q using pc by simp_all
  have "near_pc s' ((P(p := pc)) q)" for q using inv pc(1) near_pc_cong [OF eq(1,2)] by (simp add: near_inv_def)
  then show ?thesis
    using inv prev unfolding near_inv_def parks_ok_def clears_ok_def kept_ok_def ahead_ok_def same eq by blast
qed

text \<open>The lock moves on past a number that is not parked.\<close>

lemma near_lock:
  assumes inv: "near_inv A s P" and up: "\<bar>lock_sqn s\<bar> \<le> \<bar>lk\<bar>" and none: "\<And>v. v \<in> A \<Longrightarrow> \<bar>lock_sqn s\<bar> < v \<Longrightarrow> \<bar>lk\<bar> < v"
    and pc: "near_pc (s\<lparr>lock_sqn := lk\<rparr>) pc" "parking A pc = parking A (P p)" "clearing pc = clearing (P p)"
  shows "near_inv A (s\<lparr>lock_sqn := lk\<rparr>) (P(p := pc))"
proof -
  define s' where "s' = s\<lparr>lock_sqn := lk\<rparr>"
  have sel: "lock_sqn s' = lk" "entries s' = entries s" "prev_lock_sqn s' = prev_lock_sqn s" "entry_at s' x = entry_at s x" for x
    by (simp_all add: s'_def entry_at_def sl_GetInQueueIndex_def)
  have same: "parking A ((P(p := pc)) q) = parking A (P q)" "clearing ((P(p := pc)) q) = clearing (P q)" for q using pc by simp_all
  have D: "\<And>q. near_pc s (P q)" "prev_lock_sqn s \<le> \<bar>lock_sqn s\<bar>" "parks_ok A s P" "clears_ok s P" "kept_ok A s P"
    using inv by (simp_all add: near_inv_def)
  have "near_pc s' (P q)" for q using D(1) [of q] up by (cases "P q") (auto simp: sel)
  then have 1: "near_pc s' ((P(p := pc)) q)" for q using pc(1) by (simp add: s'_def)
  have 2: "prev_lock_sqn s' \<le> \<bar>lock_sqn s'\<bar>" using D(2) up by (simp add: sel)
  have 3: "parks_ok A s' (P(p := pc))" using D(3) none unfolding parks_ok_def same sel by blast
  have 4: "clears_ok s' (P(p := pc))" using D(4) up unfolding clears_ok_def same sel by (meson order_trans)
  have a: "ahead_ok s' (P(p := pc)) v" if "ahead_ok s P v" for v using that up unfolding ahead_ok_def same sel by auto
  have "kept_ok A s' (P(p := pc))"
    unfolding kept_ok_def same sel
  proof (intro conjI ballI impI allI)
    fix v assume v: "v \<in> A" "\<bar>lk\<bar> < v"
    then have "\<bar>lock_sqn s\<bar> < v" using up by simp
    then show "ahead_ok s' (P(p := pc)) v" "entry_at s v = v \<or> (\<exists>q. parking A (P q) = Some v)"
      using D(5) v(1) a unfolding kept_ok_def by blast+
  next
    fix x
    show "entry_at s x = 0 \<or> entry_at s x \<in> A \<and> entry_at s x mod ring s = x mod ring s \<and>
      (\<bar>lk\<bar> < entry_at s x \<or> (\<exists>q. clearing (P q) = Some (entry_at s x)))"
      using D(5) none unfolding kept_ok_def by blast
  qed
  then show ?thesis using 1 2 3 4 unfolding near_inv_def s'_def by blast
qed

text \<open>The lock moves on to a parked number, which is to be cleared.\<close>

lemma near_swap:
  assumes inv: "near_inv A s P" and p: "P p = TSwap c k" and c: "0 \<le> c" "lock_sqn s = c"
  shows "near_inv A (s\<lparr>lock_sqn := c + 1\<rparr>) (P(p := TClear (c + 1) k))"
proof -
  define s' where "s' = s\<lparr>lock_sqn := c + 1\<rparr>"
  let ?P = "P(p := TClear (c + 1) k)"
  have sel: "lock_sqn s' = c + 1" "entries s' = entries s" "prev_lock_sqn s' = prev_lock_sqn s" "entry_at s' x = entry_at s x" for x
    by (simp_all add: s'_def entry_at_def sl_GetInQueueIndex_def)
  have D: "\<And>q. near_pc s (P q)" "prev_lock_sqn s \<le> \<bar>lock_sqn s\<bar>" "parks_ok A s P" "clears_ok s P" "kept_ok A s P"
    using inv by (simp_all add: near_inv_def)
  have e: "entry_at s (c + 1) = c + 1" using D(1) [of p] p c by simp
  have park: "parking A (?P q) = parking A (P q)" for q using p by simp
  have clear: "clearing (?P q) = (if q = p then Some (c + 1) else clearing (P q))" "clearing (P p) = None" for q using p by simp_all
  have "near_pc s' (P q)" for q using D(1) [of q] c by (cases "P q") (auto simp: sel)
  then have 1: "near_pc s' (?P q)" for q by simp
  have 2: "prev_lock_sqn s' \<le> \<bar>lock_sqn s'\<bar>" using D(2) c by (simp add: sel)
  have "c + 1 < v" if "parking A (P q) = Some v" for q v
  proof -
    have "c < v" "entry_at s v = 0" using D(3) that c unfolding parks_ok_def by auto
    then show ?thesis using e c(1) by (cases "v = c + 1") auto
  qed
  then have 3: "parks_ok A s' ?P" using D(3) c unfolding parks_ok_def park sel by auto
  have old: "1 \<le> d \<and> d \<le> c \<and> entry_at s d = d" if "clearing (P q) = Some d" for q d using D(4) that c unfolding clears_ok_def by auto
  have "1 \<le> d \<and> d \<le> \<bar>c + 1\<bar> \<and> entry_at s d = d" if "clearing (?P q) = Some d" for q d
    using that old [of q d] e c(1) unfolding clear(1) by (cases "q = p") auto
  moreover have "q = q'" if "clearing (?P q) = Some d" "clearing (?P q') = Some d" for q q' d
  proof -
    have "q = p \<longleftrightarrow> q' = p" using that old [of q d] old [of q' d] unfolding clear(1) by (auto split: if_splits)
    then show ?thesis using that D(4) unfolding clears_ok_def clear(1) by (metis (full_types))
  qed
  ultimately have 4: "clears_ok s' ?P" unfolding clears_ok_def sel by blast
  have "kept_ok A s' ?P"
    unfolding kept_ok_def park sel
  proof (intro conjI ballI impI allI)
    fix v assume v: "v \<in> A" "\<bar>c + 1\<bar> < v"
    then have "\<bar>lock_sqn s\<bar> < v" using c by simp
    then have a: "ahead_ok s P v" and "entry_at s v = v \<or> (\<exists>q. parking A (P q) = Some v)" using D(5) v(1) unfolding kept_ok_def by blast+
    then show "entry_at s v = v \<or> (\<exists>q. parking A (P q) = Some v)" by blast
    show "ahead_ok s' ?P v" using a c unfolding ahead_ok_def sel clear by (auto split: if_splits)
  next
    fix x
    have "entry_at s x = 0 \<or> entry_at s x \<in> A \<and> entry_at s x mod ring s = x mod ring s \<and>
      (\<bar>lock_sqn s\<bar> < entry_at s x \<or> (\<exists>q. clearing (P q) = Some (entry_at s x)))" using D(5) unfolding kept_ok_def by blast
    moreover have "\<bar>c + 1\<bar> < entry_at s x \<or> (\<exists>q. clearing (?P q) = Some (entry_at s x))" if "c < entry_at s x"
      using that c(1) clear(1) [of p] by (cases "entry_at s x = c + 1") auto
    moreover have "\<exists>q. clearing (?P q) = Some u" if "clearing (P q) = Some u" for u q
      using that clear by (intro exI [of _ q]) auto
    ultimately show "entry_at s x = 0 \<or> entry_at s x \<in> A \<and> entry_at s x mod ring s = x mod ring s \<and>
      (\<bar>c + 1\<bar> < entry_at s x \<or> (\<exists>q. clearing (?P q) = Some (entry_at s x)))" using c unfolding abs_of_nonneg [OF c(1)] c(2) by blast
  qed
  then show ?thesis using 1 2 3 4 unfolding near_inv_def s'_def by blast
qed

text \<open>The entry is cleared.\<close>

lemma near_clear:
  assumes inv: "near_inv A s P" and ok: "lock_ok hi s" and p: "P p = TClear c k"
  shows "near_inv A (set_entry c 0 s) (P(p := TRead c k))"
proof -
  define s' where "s' = set_entry c 0 s"
  let ?P = "P(p := TRead c k)"
  have sel: "lock_sqn s' = lock_sqn s" "ring s' = ring s" "prev_lock_sqn s' = prev_lock_sqn s"
    "entry_at s' x = (if x mod ring s = c mod ring s then 0 else entry_at s x)" for x
    by (simp_all add: s'_def entry_upd [OF ok])
  have D: "\<And>q. near_pc s (P q)" "prev_lock_sqn s \<le> \<bar>lock_sqn s\<bar>" "parks_ok A s P" "clears_ok s P" "kept_ok A s P"
    using inv by (simp_all add: near_inv_def)
  have c: "1 \<le> c" "c \<le> \<bar>lock_sqn s\<bar>" "entry_at s c = c" using D(4) p unfolding clears_ok_def by (metis clearing.simps(1))+
  have slot: "entry_at s x = c" if "x mod ring s = c mod ring s" for x
    using that queue_index(1) [OF ok] c(3) by (simp add: entry_at_def)
  have park: "parking A (?P q) = parking A (P q)" for q using p by simp
  have clear: "clearing (?P q) = (if q = p then None else clearing (P q))" for q by simp
  have other: "d \<noteq> c" if "clearing (P q) = Some d" "q \<noteq> p" for q d using D(4) p that unfolding clears_ok_def by (metis clearing.simps(1))
  have "near_pc s' (P q)" for q
  proof (cases "P q")
    case (TSwap d k')
    then show ?thesis using D(1) [of q] slot [of "d + 1"] c(2) by (auto simp: sel)
  qed (use D(1) [of q] in \<open>auto simp: sel\<close>)
  then have 1: "near_pc s' (?P q)" for q by simp
  have 3: "parks_ok A s' ?P" using D(3) unfolding parks_ok_def park sel by auto
  have "1 \<le> d \<and> d \<le> \<bar>lock_sqn s\<bar> \<and> entry_at s' d = d" if "clearing (?P q) = Some d" for q d
  proof -
    have q: "clearing (P q) = Some d" "q \<noteq> p" using that unfolding clear by (auto split: if_splits)
    have d: "1 \<le> d" "d \<le> \<bar>lock_sqn s\<bar>" "entry_at s d = d" using D(4) q(1) unfolding clears_ok_def by blast+
    then show ?thesis using slot [of d] other [OF q] by (auto simp: sel)
  qed
  then have 4: "clears_ok s' ?P" using D(4) unfolding clears_ok_def sel(1) clear by (metis option.distinct(1))
  have "kept_ok A s' ?P"
    unfolding kept_ok_def park sel(1-3)
  proof (intro conjI ballI impI allI)
    fix v assume v: "v \<in> A" "\<bar>lock_sqn s\<bar> < v"
    then have a: "ahead_ok s P v" and e: "entry_at s v = v \<or> (\<exists>q. parking A (P q) = Some v)" using D(5) unfolding kept_ok_def by blast+
    then show "ahead_ok s' ?P v" unfolding ahead_ok_def sel(1-3) clear by (metis option.distinct(1))
    show "entry_at s' v = v \<or> (\<exists>q. parking A (P q) = Some v)" using e slot [of v] c(2) v(2) by (auto simp: sel(4))
  next
    fix x
    have "entry_at s x = 0 \<or> entry_at s x \<in> A \<and> entry_at s x mod ring s = x mod ring s \<and>
      (\<bar>lock_sqn s\<bar> < entry_at s x \<or> (\<exists>q. clearing (P q) = Some (entry_at s x)))" using D(5) unfolding kept_ok_def by blast
    then show "entry_at s' x = 0 \<or> entry_at s' x \<in> A \<and> entry_at s' x mod ring s = x mod ring s \<and>
      (\<bar>lock_sqn s\<bar> < entry_at s' x \<or> (\<exists>q. clearing (?P q) = Some (entry_at s' x)))"
    proof (cases "x mod ring s = c mod ring s")
      case False
      have "\<exists>q. clearing (?P q) = Some u" if "clearing (P q) = Some u" "u mod ring s = x mod ring s" for q u
        using that p False by (cases "q = p") (auto intro!: exI [of _ q])
      moreover have eq: "entry_at s' x = entry_at s x" using False by (simp add: sel(4))
      ultimately show ?thesis using \<open>entry_at s x = 0 \<or> _\<close> unfolding eq by blast
    qed (simp add: sel(4))
  qed
  then show ?thesis using 1 3 4 D(2) unfolding near_inv_def s'_def by (simp add: sel)
qed

text \<open>A number is parked in a free entry.\<close>

lemma near_park:
  assumes inv: "near_inv A s P" and ok: "lock_ok hi s" and p: "P p = CSwap t v" and pc: "near_pc (set_entry t t s) pc" "parking A pc = None" "clearing pc = None"
  shows "near_inv A (set_entry t t s) (P(p := pc))"
proof -
  define s' where "s' = set_entry t t s"
  let ?P = "P(p := pc)"
  have sel: "lock_sqn s' = lock_sqn s" "ring s' = ring s" "prev_lock_sqn s' = prev_lock_sqn s"
    "entry_at s' x = (if x mod ring s = t mod ring s then t else entry_at s x)" for x
    by (simp_all add: s'_def entry_upd [OF ok])
  have D: "\<And>q. near_pc s (P q)" "prev_lock_sqn s \<le> \<bar>lock_sqn s\<bar>" "parks_ok A s P" "clears_ok s P" "kept_ok A s P"
    using inv by (simp_all add: near_inv_def)
  have t: "t \<in> A" "\<bar>lock_sqn s\<bar> < t" "entry_at s t = 0" using D(3) p unfolding parks_ok_def by (metis parking.simps(3))+
  have slot: "entry_at s x = 0" if "x mod ring s = t mod ring s" for x
    using that queue_index(1) [OF ok] t(3) by (simp add: entry_at_def)
  have park: "parking A (?P q) = (if q = p then None else parking A (P q))" for q using pc by simp
  have clear: "clearing (?P q) = clearing (P q)" for q using pc p by simp
  have near: "u \<le> \<bar>lock_sqn s\<bar> + ring s" if "u \<in> A" "\<bar>lock_sqn s\<bar> < u" for u using D(5) that unfolding kept_ok_def ahead_ok_def by blast
  have "near_pc s' (P q)" for q
  proof (cases "P q")
    case (TSwap d k')
    then show ?thesis using D(1) [of q] slot [of "d + 1"] t(2) by (auto simp: sel)
  qed (use D(1) [of q] in \<open>auto simp: sel\<close>)
  then have 1: "near_pc s' (?P q)" for q using pc(1) by (simp add: s'_def)
  have "u \<in> A \<and> \<bar>lock_sqn s\<bar> < u \<and> entry_at s' u = 0" if "parking A (?P q) = Some u" for q u
  proof -
    have q: "parking A (P q) = Some u" "q \<noteq> p" using that unfolding park by (auto split: if_splits)
    have u: "u \<in> A" "\<bar>lock_sqn s\<bar> < u" "entry_at s u = 0" using D(3) q(1) unfolding parks_ok_def by blast+
    have "u \<noteq> t" using D(3) q p unfolding parks_ok_def by (metis parking.simps(3))
    then have "u mod ring s \<noteq> t mod ring s"
      using window_neq [of u "ring s" t] window_neq [of t "ring s" u] near [OF u(1,2)] near [OF t(1,2)] u(2) t(2) by (cases "u < t") auto
    then show ?thesis using u by (simp add: sel(4))
  qed
  then have 3: "parks_ok A s' ?P" using D(3) unfolding parks_ok_def sel(1) park by (metis option.distinct(1))
  have "entry_at s' d = d" if "entry_at s d = d" "1 \<le> d" for d using that slot [of d] by (auto simp: sel(4))
  then have 4: "clears_ok s' ?P" using D(4) unfolding clears_ok_def sel(1) clear by blast
  have "kept_ok A s' ?P"
    unfolding kept_ok_def clear sel(1-3)
  proof (intro conjI ballI impI allI)
    fix u assume u: "u \<in> A" "\<bar>lock_sqn s\<bar> < u"
    then have a: "ahead_ok s P u" and e: "entry_at s u = u \<or> (\<exists>q. parking A (P q) = Some u)" using D(5) unfolding kept_ok_def by blast+
    then show "ahead_ok s' ?P u" unfolding ahead_ok_def sel(1-3) clear by blast
    show "entry_at s' u = u \<or> (\<exists>q. parking A (?P q) = Some u)"
      using e slot [of u] u p unfolding park sel(4) by (metis abs_ge_zero not_less option.inject parking.simps(3))
  next
    fix x
    have "entry_at s x = 0 \<or> entry_at s x \<in> A \<and> entry_at s x mod ring s = x mod ring s \<and>
      (\<bar>lock_sqn s\<bar> < entry_at s x \<or> (\<exists>q. clearing (P q) = Some (entry_at s x)))" using D(5) unfolding kept_ok_def by blast
    then show "entry_at s' x = 0 \<or> entry_at s' x \<in> A \<and> entry_at s' x mod ring s = x mod ring s \<and>
      (\<bar>lock_sqn s\<bar> < entry_at s' x \<or> (\<exists>q. clearing (P q) = Some (entry_at s' x)))"
      using t unfolding sel(4) by auto
  qed
  then show ?thesis using 1 3 4 D(2) unfolding near_inv_def s'_def by (simp add: sel)
qed

text \<open>A call of \<^verbatim>\<open>UnLock\<close> alone with a new number not too far ahead finds its entry free.\<close>

lemma near_alone:
  assumes inv: "near_inv A s P" and p: "P p = Idle" and n: "n \<notin> A" "\<bar>lock_sqn s\<bar> < n" "ahead_ok s P n"
    and other: "\<And>q. parking (insert n A) (P q) = parking A (P q)"
  shows "near_inv (insert n A) s (P(p := UMax n))"
proof -
  let ?P = "P(p := UMax n)" let ?A = "insert n A"
  have D: "\<And>q. near_pc s (P q)" "prev_lock_sqn s \<le> \<bar>lock_sqn s\<bar>" "parks_ok A s P" "clears_ok s P" "kept_ok A s P"
    using inv by (simp_all add: near_inv_def)
  have park: "parking ?A (?P q) = (if q = p then Some n else parking A (P q))" "parking A (P p) = None" for q using other p by simp_all
  have clear: "clearing (?P q) = clearing (P q)" for q using p by simp
  have "entry_at s n = 0"
  proof (rule ccontr)
    let ?u = "entry_at s n"
    assume "?u \<noteq> 0"
    then have u: "?u \<in> A" "?u mod ring s = n mod ring s" "\<bar>lock_sqn s\<bar> < ?u \<or> (\<exists>q. clearing (P q) = Some ?u)"
      using D(5) unfolding kept_ok_def by blast+
    show False
    proof (cases "\<bar>lock_sqn s\<bar> < ?u")
      case True
      then have "?u \<le> \<bar>lock_sqn s\<bar> + ring s" using D(5) u(1) unfolding kept_ok_def ahead_ok_def by blast
      moreover have "n \<le> \<bar>lock_sqn s\<bar> + ring s" "?u \<noteq> n" using n(1,3) u(1) by (auto simp: ahead_ok_def)
      ultimately show False using window_neq [OF u(2)] window_neq [OF u(2) [symmetric]] True n(2) by linarith
    next
      case False
      then obtain q where q: "clearing (P q) = Some ?u" using u(3) by blast
      then have "?u \<le> \<bar>lock_sqn s\<bar>" "n < ?u + ring s" using D(4) n(3) unfolding clears_ok_def ahead_ok_def by blast+
      then show False using window_neq [OF u(2)] n(2) by linarith
    qed
  qed
  then have "v \<in> ?A \<and> \<bar>lock_sqn s\<bar> < v \<and> entry_at s v = 0" if "parking ?A (?P q) = Some v" for q v
    using that D(3) n(2) unfolding park(1) parks_ok_def by (auto split: if_splits)
  moreover have "q = q'" if "parking ?A (?P q) = Some v" "parking ?A (?P q') = Some v" for q q' v
  proof -
    have "parking A (P r) \<noteq> Some n" for r using D(3) n(1) unfolding parks_ok_def by blast
    then have "q = p \<longleftrightarrow> q' = p" using that unfolding park(1) by (auto split: if_splits)
    then show ?thesis using that D(3) unfolding park(1) parks_ok_def by (metis (full_types))
  qed
  ultimately have 3: "parks_ok ?A s ?P" unfolding parks_ok_def by blast
  have 1: "near_pc s (?P q)" for q using D(1) by simp
  have 4: "clears_ok s ?P" using D(4) unfolding clears_ok_def clear .
  have "kept_ok ?A s ?P"
    unfolding kept_ok_def clear
  proof (intro conjI ballI impI allI)
    fix v assume v: "v \<in> ?A" "\<bar>lock_sqn s\<bar> < v"
    then have a: "ahead_ok s P v" "v \<noteq> n \<Longrightarrow> entry_at s v = v \<or> (\<exists>q. parking A (P q) = Some v)" using D(5) n(3) unfolding kept_ok_def by blast+
    then show "ahead_ok s ?P v" unfolding ahead_ok_def clear by blast
    have "\<exists>q. parking ?A (?P q) = Some v" if "parking A (P q) = Some v" for q
      using that park by (intro exI [of _ q]) auto
    moreover have "parking ?A (?P p) = Some n" using park by simp
    ultimately show "entry_at s v = v \<or> (\<exists>q. parking ?A (?P q) = Some v)" using a(2) by blast
  next
    fix x
    show "entry_at s x = 0 \<or> entry_at s x \<in> ?A \<and> entry_at s x mod ring s = x mod ring s \<and>
      (\<bar>lock_sqn s\<bar> < entry_at s x \<or> (\<exists>q. clearing (P q) = Some (entry_at s x)))" using D(5) unfolding kept_ok_def by blast
  qed
  then show ?thesis using 1 3 4 D(2) unfolding near_inv_def by blast
qed

lemma return_near [simp]: "near_pc s (return_to k)" "parking A (return_to k) = None" "clearing (return_to k) = None"
  by (cases k; simp)+

lemma TryRelease_near [simp]: "near_pc s (TryRelease c k)" "parking A (TryRelease c k) = None" "clearing (TryRelease c k) = None"
  by (simp_all add: TryRelease_def)

lemma parked_near [simp]: "near_pc s (parked t v)" "parking A (parked t v) = None" "clearing (parked t v) = None"
  by (simp_all add: parked_def)

lemma near_advance:
  assumes inv: "sl_inv hi w" and on: "order_inv w" and near: "near_inv (alone w) (sl w) (pcs w)"
  shows "near_inv (alone w) (fst (advance (pcs w p) (sl w))) ((pcs w)(p := snd (advance (pcs w p) (sl w))))"
proof -
  let ?s = "sl w" let ?A = "alone w" let ?P = "pcs w"
  have ok: "lock_ok hi ?s" "locked w \<inter> ?A = {}" "sl_pc_ok hi (locked w) ?A (?P p)" using inv by (simp_all add: sl_inv_def)
  have once: "once_ok (released w) (?P p)" using on by (simp add: order_inv_def once_threads_def)
  have held: "lock_sqn ?s = - n" if "has_lock (locked w) (?P p) = Some n" for n using inv that unfolding sl_inv_def mutex_def by blast
  have park: "n \<in> ?A \<and> \<bar>lock_sqn ?s\<bar> < n \<and> entry_at ?s n = 0" if "parking ?A (?P p) = Some n" for n
    using near that unfolding near_inv_def parks_ok_def by blast
  have D: "near_pc ?s (?P p)" "prev_lock_sqn ?s \<le> \<bar>lock_sqn ?s\<bar>" using near by (simp_all add: near_inv_def)
  note same = near_same [OF near, of _ _ p] and stay = near_same [OF near refl refl refl, of _ p, OF _ _ _ D(2)]
  show ?thesis
  proof (cases "?P p")
    case (LSwap n i e)
    then have n: "e = n - 1" "1 \<le> n" "n \<notin> ?A" using once ok by auto
    show ?thesis
    proof (cases "lock_sqn ?s = e")
      case True
      have "\<bar>- n\<bar> < v" if "v \<in> ?A" "\<bar>lock_sqn ?s\<bar> < v" for v using that n True by (cases "v = n") auto
      then show ?thesis using LSwap True n near_lock [OF near, of "- n" "LIndex n i e" p] by simp
    next
      case False
      have "near_inv ?A ?s (?P(p := LSwap n i x))" "near_inv ?A ?s (?P(p := TryRelease c (KLock n i e)))" for x c
        using LSwap by (intro stay; simp)+
      then show ?thesis using LSwap False by (simp add: Let_def)
    qed
  next
    case (LIndex n i e)
    then show ?thesis using D by (auto simp: entry_at_def sl_GetInQueueIndex_def intro!: same)
  next
    case (LPrev n e)
    then show ?thesis using D by (auto simp: entry_at_def sl_GetInQueueIndex_def intro!: same)
  next
    case (UMax n)
    have "prev_lock_sqn ?s \<le> n"
    proof (cases "n \<in> ?A")
      case True
      then have "parking ?A (?P p) = Some n" using UMax by simp
      then have "\<bar>lock_sqn ?s\<bar> < n" using park by blast
      then show ?thesis using D(2) by linarith
    next
      case False
      then have "lock_sqn ?s = - n" "1 \<le> n" using held [of n] UMax ok(3) by simp_all
      then show ?thesis using D(2) by linarith
    qed
    then show ?thesis using UMax stay [of "USwap n n"] by (simp add: max_def)
  next
    case (USwap n t)
    then have t: "t = n" "1 \<le> n" "n \<in> locked w \<union> ?A" using D(1) ok(3) by simp_all
    show ?thesis
    proof (cases "lock_sqn ?s = - n")
      case True
      then have "n \<notin> ?A" using park [of n] USwap t(2) by auto
      then show ?thesis using USwap True t near_lock [OF near, of n "TryRelease n KDone" p] by simp
    next
      case False
      then have "n \<in> ?A" using held [of n] USwap t(3) by auto
      then show ?thesis using USwap False t stay [of "CSwap n (lock_sqn ?s)"] by simp
    qed
  next
    case (CSwap t v)
    then show ?thesis using park [of t] near_park [OF near ok(1), of p t v "parked t v"] by simp
  next
    case (TRead c k)
    then show ?thesis using stay [of "TSwap c k"] stay [of "return_to k"] by simp
  next
    case (TSwap c k)
    then show ?thesis using ok(3) near_swap [OF near, of p c k] stay [of "return_to k"] by simp
  next
    case (TClear c k)
    then show ?thesis using near_clear [OF near ok(1), of p c k] by simp
  qed (use D near in \<open>auto simp: fun_upd_idem\<close>)
qed

lemma sl_access_sel [simp]:
  "sl (sl_access p w) = fst (advance (pcs w p) (sl w))" "pcs (sl_access p w) = (pcs w)(p := snd (advance (pcs w p) (sl w)))"
  "alone (sl_access p w) = alone w" "locked (sl_access p w) = locked w" "released (sl_access p w) = released w"
  by (simp_all add: sl_access_def split: prod.split)

text \<open>A number that was locked and released again lies behind the lock.\<close>

definition met :: "world \<Rightarrow> bool" where
  "met w \<longleftrightarrow> (\<forall>v \<in> locked w \<inter> released w. v \<le> \<bar>lock_sqn (sl w)\<bar>)"

lemma lock_mono:
  assumes "sl_inv hi w" "order_inv w"
  shows "\<bar>lock_sqn (sl w)\<bar> \<le> \<bar>lock_sqn (fst (advance (pcs w p) (sl w)))\<bar>"
  using advance_once(3) [of hi "sl w" "released w" "locked w" "alone w" "pcs w p"] assms
  by (simp add: sl_inv_def order_inv_def once_threads_def prod_eq_iff)

lemma near_step:
  assumes "sl_step False hi w w'" "sl_inv hi w" "order_inv w" "near_inv (alone w) (sl w) (pcs w)" "met w"
    and ahead: "\<forall>n \<in> alone w' - alone w. ahead_ok (sl w) (pcs w) n"
  shows "near_inv (alone w') (sl w') (pcs w')" "met w'"
proof -
  have ok: "sl_pc_ok hi (locked w) (alone w) (pcs w q)" for q using assms(2) by (simp add: sl_inv_def)
  have R: "released w \<subseteq> locked w \<union> alone w" "{1..passed (lock_sqn (sl w))} \<subseteq> released w"
    using assms(3) by (simp_all add: order_inv_def once_lock_def)
  have prev: "prev_lock_sqn (sl w) \<le> \<bar>lock_sqn (sl w)\<bar>" using assms(4) by (simp add: near_inv_def)
  have "near_inv (alone w') (sl w') (pcs w') \<and> met w'"
    using assms(1)
  proof cases
    case (lock_call p n i)
    then show ?thesis using near_same [OF assms(4) refl refl refl, of "LSwap n i (n - 1)" p] assms(5) R(1) prev by (auto simp: met_def)
  next
    case (unlock_call p n)
    have "n \<in> locked w" "lock_sqn (sl w) = - n" using ok [of p] assms(2) unlock_call(2) unfolding sl_inv_def mutex_def
      by (auto dest: spec [of _ p])
    moreover have "n \<notin> alone w" using \<open>n \<in> locked w\<close> assms(2) by (auto simp: sl_inv_def)
    ultimately show ?thesis using unlock_call near_same [OF assms(4) refl refl refl, of "UMax n" p] assms(5) prev by (auto simp: met_def)
  next
    case (alone_call p n)
    have n: "n \<notin> alone w" "n \<notin> locked w" "1 \<le> n" using alone_call by auto
    have "n \<notin> released w" using R(1) n by blast
    then have "passed (lock_sqn (sl w)) < n" using R(2) n(3) by (meson atLeastAtMost_iff not_le subsetD)
    moreover have "n \<noteq> - lock_sqn (sl w)" if "lock_sqn (sl w) < 0"
      using assms(2) that n(2) holds_ok [OF ok] unfolding sl_inv_def mutex_def by (metis minus_minus not_None_eq)
    ultimately have lt: "\<bar>lock_sqn (sl w)\<bar> < n" by (auto simp: passed_def split: if_splits)
    have "parking (insert n (alone w)) (pcs w q) = parking (alone w) (pcs w q)" for q
      using ok [of q] n by (cases "pcs w q") auto
    then have "near_inv (insert n (alone w)) (sl w) ((pcs w)(p := UMax n))"
      using ahead alone_call n(1) by (intro near_alone [OF assms(4) _ n(1) lt]) auto
    then show ?thesis using alone_call assms(5) n(2) by (auto simp: met_def)
  next
    case (access p)
    have "met w'" using lock_mono [OF assms(2,3), of p] assms(5) unfolding access met_def sl_access_sel by (meson order_trans)
    then show ?thesis using near_advance [OF assms(2-4), of p] unfolding access sl_access_sel by blast
  qed
  then show "near_inv (alone w') (sl w') (pcs w')" "met w'" by blast+
qed

lemma near_invs:
  assumes "sl_near hi cache_size w" "2 \<le> cache_size" "unat cache_size \<le> 2 ^ 31" "0 \<le> hi"
  shows "near_inv (alone w) (sl w) (pcs w) \<and> met w"
  using assms(1)
proof (induction rule: sl_near.induct)
  case near_start
  have "entry_at (sl_Create cache_size) x = 0" for x
    using queue_index(2) [OF sl_Create_ok [OF assms(2-4)], of x] by (simp add: entry_at_def sl_Create_def Let_def)
  then show ?case
    by (simp add: near_inv_def parks_ok_def clears_ok_def kept_ok_def met_def sl_init_def) (simp add: sl_Create_def Let_def)
next
  case (near_move w w')
  note r = near_reach [OF near_move(1)]
  show ?case using near_step [OF near_move(2) sl_reach_inv [OF r assms(2-4)] order_reach [OF r assms(2-4)] _ _ near_move(3)] near_move(4) by blast
qed

subsection \<open>The next number gets the lock\<close>

text \<open>A thread that runs alone.\<close>

definition solo :: "pc \<times> seqlock \<Rightarrow> pc \<times> seqlock" where
  "solo = (\<lambda>(pc, s). (snd (advance pc s), fst (advance pc s)))"

lemma solo_access: "(pcs ((sl_access p ^^ j) w) p, sl ((sl_access p ^^ j) w)) = (solo ^^ j) (pcs w p, sl w)"
  by (induction j) (simp_all add: solo_def split: prod.splits, metis fst_conv snd_conv)

text \<open>In \<^verbatim>\<open>TryRelease\<close> it takes the lock past all parked numbers and comes back to \<^verbatim>\<open>Lock\<close>.\<close>

lemma solo_release:
  assumes "lock_ok hi s" "lock_sqn s = m" "0 \<le> m" "m < n" "\<And>v. m < v \<Longrightarrow> v < n \<Longrightarrow> entry_at s v = v" "entry_at s n \<noteq> n" "n \<le> m + ring s + 1"
  shows "\<exists>j s'. (solo ^^ j) (TRead m (KLock n i e), s) = (LSwap n i e, s') \<and> lock_sqn s' = n - 1"
  using assms
proof (induction "nat (n - 1 - m)" arbitrary: m s)
  case 0
  then have "m = n - 1" by simp
  then show ?case using 0 by (intro exI [of _ 1] exI [of _ s]) (simp add: solo_def)
next
  case (Suc d)
  have m: "m + 1 < n" using Suc.hyps(2) by simp
  then have e: "entry_at s (m + 1) = m + 1" using Suc.prems(5) [of "m + 1"] by simp
  define s1 where "s1 = set_entry (m + 1) 0 (s\<lparr>lock_sqn := m + 1\<rparr>)"
  have ok1: "lock_ok hi (s\<lparr>lock_sqn := m + 1\<rparr>)"
    using Suc.prems(1,3) entry_range [OF Suc.prems(1), of "m + 1"] e by (intro lock_ok_upd) auto
  have ok2: "lock_ok hi s1" unfolding s1_def using entry_range [OF Suc.prems(1), of "m + 1"] e Suc.prems(3) by (intro set_entry_ok ok1) auto
  have sel: "lock_sqn s1 = m + 1" "ring s1 = ring s" by (simp_all add: s1_def)
  have at: "entry_at s1 x = (if x mod ring s = (m + 1) mod ring s then 0 else entry_at s x)" for x
    unfolding s1_def entry_upd [OF ok1] by (simp add: entry_at_def sl_GetInQueueIndex_def)
  have "entry_at s1 v = v" if "m + 1 < v" "v < n" for v
    using window_neq [of "m + 1" "ring s" v] that Suc.prems(5) [of v] Suc.prems(7) unfolding at by auto
  moreover have "entry_at s1 n \<noteq> n" using Suc.prems(3,4,6) unfolding at by simp
  moreover have "d = nat (n - 1 - (m + 1))" using Suc.hyps(2) by simp
  ultimately obtain j s' where j: "(solo ^^ j) (TRead (m + 1) (KLock n i e), s1) = (LSwap n i e, s')" "lock_sqn s' = n - 1"
    using Suc.hyps(1) [of "m + 1" s1] ok2 sel m Suc.prems(3,7) by auto
  have "(solo ^^ 3) (TRead m (KLock n i e), s) = (TRead (m + 1) (KLock n i e), s1)"
    using e Suc.prems(2) by (simp add: solo_def s1_def eval_nat_numeral)
  then have "(solo ^^ (j + 3)) (TRead m (KLock n i e), s) = (LSwap n i e, s')" using j(1) by (simp add: funpow_add)
  then show ?case using j(2) by blast
qed

section \<open>The properties\<close>

text \<open>A sequence of calls and accesses that can be evaluated.\<close>

datatype sl_move = MLock nat int int | MUnlock nat | MAlone nat int | MAccess nat

fun do_move :: "sl_move \<Rightarrow> world \<Rightarrow> world" where
  "do_move (MLock p n i) w = w\<lparr>pcs := (pcs w)(p := LSwap n i (n - 1)), locked := insert n (locked w)\<rparr>"
| "do_move (MUnlock p) w =
     (case pcs w p of Section n \<Rightarrow> w\<lparr>pcs := (pcs w)(p := UMax n), released := insert n (released w)\<rparr> | _ \<Rightarrow> w)"
| "do_move (MAlone p n) w = w\<lparr>pcs := (pcs w)(p := UMax n), alone := insert n (alone w), released := insert n (released w)\<rparr>"
| "do_move (MAccess p) w = sl_access p w"

fun allowed :: "int \<Rightarrow> sl_move \<Rightarrow> world \<Rightarrow> bool" where
  "allowed hi (MLock p n i) w \<longleftrightarrow> pcs w p = Idle \<and> 1 \<le> n \<and> n \<le> hi \<and> n \<notin> alone w \<and> n \<notin> locked w"
| "allowed hi (MUnlock p) w \<longleftrightarrow> (case pcs w p of Section n \<Rightarrow> True | _ \<Rightarrow> False)"
| "allowed hi (MAlone p n) w \<longleftrightarrow> pcs w p = Idle \<and> 1 \<le> n \<and> n \<le> hi \<and> n \<notin> locked w \<and> n \<notin> alone w"
| "allowed hi (MAccess p) w \<longleftrightarrow> True"

fun all_allowed :: "int \<Rightarrow> sl_move list \<Rightarrow> world \<Rightarrow> bool" where
  "all_allowed hi [] w \<longleftrightarrow> True"
| "all_allowed hi (m # ms) w \<longleftrightarrow> allowed hi m w \<and> all_allowed hi ms (do_move m w)"

lemma move_reach:
  assumes "sl_reach False hi cache_size w" "allowed hi m w"
  shows "sl_reach False hi cache_size (do_move m w)"
  using assms(2) by (cases m) (auto intro!: sl_reach.move [OF assms(1)] sl_step.intros split: pc.splits)

lemma moves_reach:
  "sl_reach False hi cache_size w \<Longrightarrow> all_allowed hi ms w \<Longrightarrow> sl_reach False hi cache_size (fold do_move ms w)"
  by (induction ms arbitrary: w) (auto intro: move_reach)

text \<open>Number 2 is unlocked alone, number 1 is locked and the lock is taken: two threads.\<close>

definition demo_moves :: "sl_move list" where
  "demo_moves = [MAlone 1 2, MAccess 1, MAccess 1, MAccess 1, MAccess 1, MLock 0 1 7, MAccess 0, MAccess 0, MAccess 0]"

definition demo_world :: world where
  "demo_world = fold do_move demo_moves (sl_init 2)"

lemma sl_init_2:
  "sl_init 2 = \<lparr>sl = \<lparr>lock_sqn = 0, prev_lock_sqn = 0, curr_lock_index = 0, queue_mask = 1, queue_size = 2, entries = [0, 0]\<rparr>,
     pcs = (\<lambda>_. Idle), locked = {}, alone = {}, released = {}, entered = []\<rparr>"
proof -
  have "RoundToPowerOf2 2 = 2 ^ 1" by (rule RoundToPowerOf2_eq) simp_all
  moreover have "replicate (unat (2 :: u32)) (0 :: int) = [0, 0]" 
  proof -
    have "unat (2 :: u32) = Suc (Suc 0)" by simp
    then show ?thesis by (simp only: replicate.simps)
  qed
  ultimately show ?thesis by (simp add: sl_init_def sl_Create_def queue_size_align_def Let_def)
qed

lemmas sl_eval = sl_access_def entry_at_def set_entry_def sl_GetInQueueIndex_def TryRelease_def parked_def


lemma demo_reach: "sl_reach False 9 2 demo_world"
proof -
  have "all_allowed 9 demo_moves (sl_init 2)" by (simp add: sl_init_2 demo_moves_def sl_eval)
  then show ?thesis unfolding demo_world_def by (rule moves_reach [OF sl_reach.start])
qed

lemma demo_section: "pcs demo_world 0 = Section 1"
  by (simp add: demo_world_def demo_moves_def sl_init_2 sl_eval)


text \<open>
  C9: when each number is used once, locked or unlocked alone, the threads take the lock in increasing order of their
  numbers, and a thread that has it finds that \<^verbatim>\<open>UnLock\<close> was called for every smaller number from 1 on.
\<close>

theorem seq_lock_order:
  assumes "sl_reach False hi cache_size w" and "2 \<le> cache_size" and "unat cache_size \<le> 2 ^ 31" and "0 \<le> hi"
  shows "sorted_wrt (<) (entered w) \<and> (\<forall>p n. pcs w p = Section n \<longrightarrow> {1..<n} \<subseteq> released w \<and> n \<notin> released w)"
proof -
  have inv: "sl_inv hi w" and on: "order_inv w" using sl_reach_inv [OF assms] order_reach [OF assms] by blast+
  have "{1..<n} \<subseteq> released w \<and> n \<notin> released w" if p: "pcs w p = Section n" for p n
  proof -
    have "lock_sqn (sl w) = - n" "1 \<le> n"
      using inv p unfolding sl_inv_def mutex_def by (metis has_lock.simps(3), metis sl_pc_ok.simps(4))
    then have "{1..n - 1} \<subseteq> released w" using on by (simp add: order_inv_def once_lock_def passed_def)
    moreover have "n \<notin> released w" using on p unfolding order_inv_def once_threads_def by (metis wants.simps(4))
    ultimately show ?thesis by auto
  qed
  then show ?thesis using on by (simp add: order_inv_def)
qed


theorem seq_lock_order_witness:
  "sl_reach False 9 2 demo_world \<and> sorted_wrt (<) (entered demo_world) \<and> pcs demo_world 0 = Section 1 \<and> 1 \<notin> released demo_world"
  using seq_lock_order [OF demo_reach] demo_section demo_reach by simp

text \<open>
  C10: as long as nobody unlocks a number alone too far ahead, no number is forgotten: when every smaller number has been
  released, nobody is in the section and no \<^verbatim>\<open>UnLock\<close> is still on its way to park its number, a thread in \<^verbatim>\<open>Lock\<close> enters the
  section by its own accesses alone, whatever was missed before.
\<close>

theorem seq_lock_progress:
  assumes "sl_near hi cache_size w" and "2 \<le> cache_size" and "unat cache_size \<le> 2 ^ 31" and "0 \<le> hi"
    and "pcs w p = LSwap n i e" and "{1..<n} \<subseteq> released w"
    and "\<forall>q. has_lock (locked w) (pcs w q) = None \<and> parking (alone w) (pcs w q) = None"
  shows "\<exists>j. pcs ((sl_access p ^^ j) w) p = Section n"
proof -
  let ?s = "sl w"
  note r = near_reach [OF assms(1)]
  have inv: "sl_inv hi w" and on: "order_inv w" and near: "near_inv (alone w) ?s (pcs w)" and met: "met w"
    using sl_reach_inv [OF r assms(2-4)] order_reach [OF r assms(2-4)] near_invs [OF assms(1-4)] by blast+
  have ok: "lock_ok hi ?s" "locked w \<inter> alone w = {}" "sl_pc_ok hi (locked w) (alone w) (pcs w p)" using inv by (simp_all add: sl_inv_def)
  have R: "released w \<subseteq> locked w \<union> alone w" "{1..passed (lock_sqn ?s)} \<subseteq> released w" using on by (simp_all add: order_inv_def once_lock_def)
  have n: "e = n - 1" "1 \<le> n" "n \<in> locked w" "n \<notin> alone w" using ok on assms(5) unfolding order_inv_def once_threads_def
    by (auto dest: spec [of _ p])
  have nR: "n \<notin> released w" using on assms(5) unfolding order_inv_def once_threads_def by (metis wants.simps(1))
  define m where "m = lock_sqn ?s"
  have m: "0 \<le> m" using inv assms(7) unfolding sl_inv_def mutex_def m_def by (meson not_less)
  have mn: "m < n" using R(2) nR n(2) m unfolding passed_def m_def by (force simp: not_less)
  have alone: "v \<in> alone w" if "m < v" "v < n" for v
  proof -
    have "v \<in> released w" using that m assms(6) by (force simp: subset_iff)
    then show ?thesis using R(1) met that m unfolding met_def m_def by force
  qed
  have kept: "entry_at ?s v = v" if "m < v" "v < n" for v
    using near alone [OF that] that m assms(7) unfolding near_inv_def kept_ok_def m_def by force
  have "entry_at ?s n = 0 \<or> entry_at ?s n \<in> alone w" using near unfolding near_inv_def kept_ok_def by blast
  then have "entry_at ?s n \<noteq> n" using n(2,4) by auto
  moreover have "n \<le> m + ring ?s + 1"
  proof (cases "m + 1 < n")
    case True
    then have "ahead_ok ?s (pcs w) (n - 1)" using near alone [of "n - 1"] m unfolding near_inv_def kept_ok_def m_def by force
    then show ?thesis using m by (simp add: ahead_ok_def m_def)
  qed simp
  ultimately obtain j s' where j: "(solo ^^ j) (TRead m (KLock n i e), ?s) = (LSwap n i e, s')" "lock_sqn s' = n - 1"
    using solo_release [OF ok(1) m_def [symmetric] m mn kept] by blast
  have "\<exists>k s'. (solo ^^ k) (LSwap n i e, ?s) = (LSwap n i e, s') \<and> lock_sqn s' = e"
  proof (cases "m = e")
    case True
    then show ?thesis by (intro exI [of _ 0] exI [of _ ?s]) (simp add: m_def)
  next
    case False
    then have "solo (LSwap n i e, ?s) = (TRead m (KLock n i e), ?s)" using m mn by (simp add: solo_def Let_def TryRelease_def m_def)
    then have "(solo ^^ Suc j) (LSwap n i e, ?s) = (LSwap n i e, s')" using j(1) by (simp add: funpow_swap1)
    then show ?thesis using j(2) n(1) by blast
  qed
  then obtain k s' where k: "(solo ^^ k) (LSwap n i e, ?s) = (LSwap n i e, s')" "lock_sqn s' = e" by blast
  have "(solo ^^ (3 + k)) (LSwap n i e, ?s) = (solo ^^ 3) (LSwap n i e, s')" using k(1) by (simp add: funpow_add)
  then have "fst ((solo ^^ (3 + k)) (pcs w p, ?s)) = Section n" using k(2) assms(5) by (simp add: solo_def eval_nat_numeral)
  then show ?thesis using solo_access [where j = "3 + k" and p = p and w = w] by (metis fst_conv)
qed

lemma moves_near:
  assumes "sl_near hi cache_size w" "all_allowed hi ms w" "\<forall>m \<in> set ms. \<forall>p n. m \<noteq> MAlone p n"
  shows "sl_near hi cache_size (fold do_move ms w)"
  using assms
proof (induction ms arbitrary: w)
  case (Cons m ms)
  have "sl_near hi cache_size (do_move m w)"
    using Cons.prems by (cases m) (auto intro!: sl_near.near_move [OF Cons.prems(1)] sl_step.intros split: pc.splits)
  then show ?case using Cons by simp
qed simp

text \<open>Number 2 was parked when the lock was at 0, number 1 was locked and released, the thread of number 3 comes next.\<close>

definition demo_calls :: "sl_move list" where
  "demo_calls = [MAccess 1, MAccess 1, MAccess 1, MAccess 1, MLock 0 1 7, MAccess 0, MAccess 0, MAccess 0, MUnlock 0, MAccess 0, MAccess 0, MLock 2 3 8]"

lemma demo_near: "sl_near 9 2 (fold do_move demo_calls (do_move (MAlone 1 2) (sl_init 2)))"
proof (rule moves_near)
  have "ahead_ok (sl (sl_init 2)) (pcs (sl_init 2)) 2" by (simp add: ahead_ok_def sl_init_2)
  moreover have "sl_step False 9 (sl_init 2) (do_move (MAlone 1 2) (sl_init 2))"
    unfolding do_move.simps by (rule sl_step.alone_call) (simp_all add: sl_init_2)
  ultimately show "sl_near 9 2 (do_move (MAlone 1 2) (sl_init 2))"
    by (intro sl_near.near_move [OF sl_near.near_start]) auto
  show "all_allowed 9 demo_calls (do_move (MAlone 1 2) (sl_init 2))" by (simp add: demo_calls_def sl_init_2 sl_eval)
  show "\<forall>m \<in> set demo_calls. \<forall>p n. m \<noteq> MAlone p n" by (simp add: demo_calls_def)
qed

theorem seq_lock_progress_witness:
  "\<exists>j. pcs ((sl_access 2 ^^ j) (fold do_move demo_calls (do_move (MAlone 1 2) (sl_init 2)))) 2 = Section 3"
proof -
  let ?w = "fold do_move demo_calls (do_move (MAlone 1 2) (sl_init 2))"
  have "{1..<3 :: int} = {1, 2}" by auto
  then have "pcs ?w 2 = LSwap 3 8 2" "{1..<3} \<subseteq> released ?w" "\<forall>q. has_lock (locked ?w) (pcs ?w q) = None \<and> parking (alone ?w) (pcs ?w q) = None"
    by (simp_all add: demo_calls_def sl_init_2 sl_eval)
  then show ?thesis using seq_lock_progress [OF demo_near] by simp
qed

text \<open>Numbers 2 and 4 share an entry of a ring of two; then number 1 is locked and released and number 3 waits.\<close>

definition far_calls :: "sl_move list" where
  "far_calls = [MAlone 1 2, MAccess 1, MAccess 1, MAccess 1, MAccess 1, MAlone 1 4, MAccess 1, MAccess 1, MAccess 1, MAccess 1, MAccess 1, MAccess 1,
     MLock 0 1 7, MAccess 0, MAccess 0, MAccess 0, MUnlock 0, MAccess 0, MAccess 0, MAccess 0, MLock 2 3 8]"

definition far_world :: world where
  "far_world = fold do_move far_calls (sl_init 2)"

text \<open>
  C11: \<^verbatim>\<open>UnLock\<close> replaces a parked number by a later one with the same entry, and the earlier one is forgotten: in a ring of two,
  numbers 2 and 4 are unlocked alone, then 1 is locked and released. The thread of number 3 waits for ever, although all
  smaller numbers were released and every other call has returned.
\<close>

theorem seq_lock_forgets:
  "sl_reach False 9 2 far_world \<and> {1..<3} \<subseteq> released far_world \<and> pcs far_world = (\<lambda>_. Idle)(2 := LSwap 3 8 2) \<and> (\<forall>j. pcs ((sl_access 2 ^^ j) far_world) 2 \<noteq> Section 3)"
proof -
  have "all_allowed 9 far_calls (sl_init 2)" by (simp add: far_calls_def sl_init_2 sl_eval)
  then have r: "sl_reach False 9 2 far_world" unfolding far_world_def by (rule moves_reach [OF sl_reach.start])
  have "{1..<3 :: int} = {1, 2}" by auto
  then have w: "{1..<3} \<subseteq> released far_world" "\<forall>q. q \<noteq> 2 \<longrightarrow> pcs far_world q = Idle" "pcs far_world 2 = LSwap 3 8 2" "lock_sqn (sl far_world) = 1"
    "entry_at (sl far_world) 2 = 4"
    by (simp_all add: far_world_def far_calls_def sl_init_2 sl_eval)
  have "(solo ^^ j) (LSwap 3 8 2, sl far_world) \<in> {(LSwap 3 8 2, sl far_world), (TRead 1 (KLock 3 8 2), sl far_world)}" for j
    using w(4,5) by (induction j) (auto simp: solo_def Let_def TryRelease_def)
  then have "pcs ((sl_access 2 ^^ j) far_world) 2 \<noteq> Section 3" for j
    using solo_access [where p = 2 and w = far_world and j = j] w(3) by (metis (no_types, lifting) insertE pc.distinct Pair_inject singletonD)
  moreover have "pcs far_world = (\<lambda>_. Idle)(2 := LSwap 3 8 2)" using w(2,3) by auto
  ultimately show ?thesis using r w(1) by blast
qed

end
