(* ===== verification/Wwf_Ring.thy ===== *)
theory Wwf_Ring
  imports Prelude
begin

section \<open>A ring buffer whose writer never waits\<close>

text \<open>
  \<^verbatim>\<open>include/adk/writer_wait_free_ring_buffer.h\<close> and \<^verbatim>\<open>include/adk/seq_lock.h\<close>: one writer overwrites the ring without looking
  at the reader; every slot has a sequence lock whose counter is odd while the slot is being written, and half of which says
  how often it was written. The reader recognises from it whether the slot holds the element it expects, nothing yet, or a
  later one, in which case it jumps forward. An element is a list of cells that are copied one at a time, so that a copy and
  a write of the same slot may overlap. A step is one access to the memory; writer and reader are interleaved in any order.
\<close>

subsection \<open>The lock of a slot\<close>

definition sq_is_locked :: "u64 \<Rightarrow> bool" where
  "sq_is_locked sequence \<longleftrightarrow> sequence AND 1 \<noteq> 0"

definition sq_RollBack :: "u64 \<Rightarrow> u64" where
  "sq_RollBack sequence = push_bit 1 (drop_bit 1 sequence)"

definition sq_lock_hist_nr :: "u64 \<Rightarrow> u64" where
  "sq_lock_hist_nr sequence = drop_bit 1 sequence"

subsection \<open>The ring\<close>

definition wwf_CalcEntrySize :: "u32 \<Rightarrow> u32" where
  "wwf_CalcEntrySize payload_size = RoundToPowerOf2 (payload_size + 8)"

record 'c wmem =
  wm_entry_size :: u32
  wm_mask :: u32
  wm_size :: u32
  wm_offset :: u32
  wm_notify :: int
  wm_tail :: u64
  wm_head :: u64
  wm_locks :: "u64 list"
  wm_bufs :: "'c list list"

record wobj =
  wo_mask :: u64
  wo_size :: u64
  wo_entry_bits :: nat
  wo_size_bits :: nat

text \<open>\<^verbatim>\<open>InitEntries\<close> constructs the lock of every slot; \<open>room\<close> is what the block has from the first slot on.\<close>

fun wwf_InitEntries :: "nat \<Rightarrow> nat \<Rightarrow> nat \<Rightarrow> nat \<Rightarrow> u64 list run" where
  "wwf_InitEntries 0 i room sz = Ret []"
| "wwf_InitEntries (Suc n) i room sz =
     (if i * sz + 8 \<le> room then rbind (wwf_InitEntries n (Suc i) room sz) (\<lambda>ls. Ret (0 # ls)) else Undef)"

definition wwf_Init :: "'c wmem \<Rightarrow> wobj run" where
  "wwf_Init m =
     rbind (GetBits (wm_entry_size m)) (\<lambda>eb.
     rbind (GetBits (wm_size m)) (\<lambda>sb.
       Ret \<lparr>wo_mask = ucast (wm_mask m), wo_size = ucast (wm_size m), wo_entry_bits = eb, wo_size_bits = sb\<rparr>))"

text \<open>The byte count is a 32-bit product here too; \<open>junk\<close> is what the cells of a slot hold at first.\<close>

definition wwf_Create :: "u32 \<Rightarrow> (u64 \<Rightarrow> bool) \<Rightarrow> (nat \<Rightarrow> 'c list) \<Rightarrow> u32 \<Rightarrow> u32 \<Rightarrow> ('c wmem \<times> wobj) option run" where
  "wwf_Create header_size malloc_ok junk payload_size ring_buffer_size =
     (let entry_size = wwf_CalcEntrySize payload_size;
          size = RoundToPowerOf2 ring_buffer_size;
          total_size = (ucast (header_size + size * entry_size) :: u64)
      in if \<not> malloc_ok total_size then Ret None
         else rbind (wwf_InitEntries (unat size) 0 (unat total_size - unat header_size) (unat entry_size)) (\<lambda>ls.
              let m = \<lparr>wm_entry_size = entry_size, wm_mask = size - 1, wm_size = size, wm_offset = header_size, wm_notify = 0,
                       wm_tail = 0, wm_head = 0, wm_locks = ls, wm_bufs = map junk [0..<unat size]\<rparr>
              in rbind (wwf_Init m) (\<lambda>ob. Ret (Some (m, ob)))))"

definition wwf_slot :: "wobj \<Rightarrow> u64 \<Rightarrow> nat" where
  "wwf_slot ob cursor = unat (cursor AND wo_mask ob)"

definition ThrowEntry :: "wobj \<Rightarrow> 'c wmem \<Rightarrow> 'c wmem" where
  "ThrowEntry ob m = m\<lparr>wm_head := wm_tail m - wo_size ob + drop_bit 2 (wo_size ob)\<rparr>"

definition wwf_RollBack :: "wobj \<Rightarrow> 'c wmem \<Rightarrow> 'c wmem" where
  "wwf_RollBack ob m =
     (let i = wwf_slot ob (wm_tail m) in m\<lparr>wm_locks := (wm_locks m)[i := sq_RollBack (wm_locks m ! i)]\<rparr>)"

subsection \<open>The accesses of writer and reader\<close>

datatype 'c wpc =
    WIdle
  | WLock "'c list"              \<comment> \<open>about to make the lock odd\<close>
  | WCopy "'c list" nat nat      \<comment> \<open>copying into a slot, next cell; then about to advance \<^verbatim>\<open>tail\<close>\<close>
  | WUnlock nat                  \<comment> \<open>about to make the lock even\<close>

fun write_step :: "wobj \<Rightarrow> 'c wpc \<Rightarrow> 'c wmem \<Rightarrow> 'c wmem \<times> 'c wpc" where
  "write_step ob WIdle m = (m, WIdle)"
| "write_step ob (WLock x) m =
     (let i = wwf_slot ob (wm_tail m) in (m\<lparr>wm_locks := (wm_locks m)[i := wm_locks m ! i + 1]\<rparr>, WCopy x i 0))"
| "write_step ob (WCopy x i j) m =
     (if j < length x then (m\<lparr>wm_bufs := (wm_bufs m)[i := (wm_bufs m ! i)[j := x ! j]]\<rparr>, WCopy x i (Suc j))
      else (m\<lparr>wm_tail := wm_tail m + 1\<rparr>, WUnlock i))"
| "write_step ob (WUnlock i) m = (m\<lparr>wm_locks := (wm_locks m)[i := wm_locks m ! i + 1]\<rparr>, WIdle)"

text \<open>\<^verbatim>\<open>Read\<close> waits for an even lock (\<^term>\<open>None\<close>), \<^verbatim>\<open>TryRead\<close> gives up after three odd ones (the number seen).\<close>

datatype 'c rpc =
    RIdle
  | RBegin "nat option"                    \<comment> \<open>about to read the lock\<close>
  | RCopy "nat option" u64 nat "'c list"   \<comment> \<open>lock value, next cell, cells copied; then about to read the lock again\<close>
  | RNext "nat option" "'c list"           \<comment> \<open>about to advance \<^verbatim>\<open>head\<close>\<close>
  | RThrow "nat option"                    \<comment> \<open>about to jump forward\<close>

fun read_step :: "wobj \<Rightarrow> 'c rpc \<Rightarrow> 'c wmem \<Rightarrow> 'c wmem \<times> 'c rpc \<times> (ErrorCode + 'c list) option" where
  "read_step ob RIdle m = (m, RIdle, None)"
| "read_step ob (RBegin t) m =
     (let start = wm_locks m ! wwf_slot ob (wm_head m);
          last_loop = drop_bit (wo_size_bits ob) (wm_head m) + 1;
          real_loop = sq_lock_hist_nr start
      in if sq_is_locked start
         then (case t of None \<Rightarrow> (m, RBegin None, None)
               | Some i \<Rightarrow> if 3 \<le> i + 1 then (m, RIdle, Some (Inl kFailure)) else (m, RBegin (Some (i + 1)), None))
         else if last_loop = real_loop then (m, RCopy t start 0 [], None)
         else if real_loop < last_loop then (m, RIdle, Some (Inl kFailure))
         else (m, RThrow t, None))"
| "read_step ob (RCopy t start j acc) m =
     (let i = wwf_slot ob (wm_head m)
      in if j < length (wm_bufs m ! i) then (m, RCopy t start (Suc j) (acc @ [wm_bufs m ! i ! j]), None)
         else if wm_locks m ! i = start then (m, RNext t acc, None) else (m, RThrow t, None))"
| "read_step ob (RNext t acc) m = (m\<lparr>wm_head := wm_head m + 1\<rparr>, RIdle, Some (Inr acc))"
| "read_step ob (RThrow t) m = (ThrowEntry ob m, RBegin (map_option (\<lambda>_. 0) t), None)"

text \<open>Both at work, with the elements the writer has begun and those the reader got, with their positions.\<close>

record 'c wworld =
  ww_mem :: "'c wmem"
  ww_w :: "'c wpc"
  ww_r :: "'c rpc"
  ww_written :: "'c list list"
  ww_taken :: "(nat \<times> 'c list) list"

definition write_access :: "wobj \<Rightarrow> 'c wworld \<Rightarrow> 'c wworld" where
  "write_access ob w =
     (let (m, pc) = write_step ob (ww_w w) (ww_mem w)
      in w\<lparr>ww_mem := m, ww_w := pc, ww_written := (case ww_w w of WLock x \<Rightarrow> ww_written w @ [x] | _ \<Rightarrow> ww_written w)\<rparr>)"

definition read_access :: "wobj \<Rightarrow> 'c wworld \<Rightarrow> 'c wworld" where
  "read_access ob w =
     (let (m, pc, r) = read_step ob (ww_r w) (ww_mem w)
      in w\<lparr>ww_mem := m, ww_r := pc,
           ww_taken := (case r of Some (Inr x) \<Rightarrow> ww_taken w @ [(unat (wm_head (ww_mem w)), x)] | _ \<Rightarrow> ww_taken w)\<rparr>)"

text \<open>Elements have \<open>wd\<close> cells, and fewer than \<open>2 ^ 62\<close> of them are written, a limit the 64-bit counters keep.\<close>

inductive wwf_step :: "wobj \<Rightarrow> nat \<Rightarrow> 'c wworld \<Rightarrow> 'c wworld \<Rightarrow> bool" for ob wd where
  write_call: "ww_w w = WIdle \<Longrightarrow> length x = wd \<Longrightarrow> length (ww_written w) < 2 ^ 62 \<Longrightarrow> wwf_step ob wd w (w\<lparr>ww_w := WLock x\<rparr>)"
| write_go: "wwf_step ob wd w (write_access ob w)"
| read_call: "ww_r w = RIdle \<Longrightarrow> t = None \<or> t = Some 0 \<Longrightarrow> wwf_step ob wd w (w\<lparr>ww_r := RBegin t\<rparr>)"
| read_go: "wwf_step ob wd w (read_access ob w)"

definition wwf_start :: "'c wmem \<Rightarrow> 'c wworld" where
  "wwf_start m = \<lparr>ww_mem = m, ww_w = WIdle, ww_r = RIdle, ww_written = [], ww_taken = []\<rparr>"

inductive wwf_reach :: "wobj \<Rightarrow> nat \<Rightarrow> 'c wworld \<Rightarrow> 'c wworld \<Rightarrow> bool" for ob wd w0 where
  wwf_begin: "wwf_reach ob wd w0 w0"
| wwf_go: "wwf_reach ob wd w0 w \<Longrightarrow> wwf_step ob wd w w' \<Longrightarrow> wwf_reach ob wd w0 w'"

section \<open>How often a slot was written\<close>

text \<open>Of the first \<open>N\<close> elements, those of slot \<open>i\<close>.\<close>

definition cnt :: "nat \<Rightarrow> nat \<Rightarrow> nat \<Rightarrow> nat" where
  "cnt sz N i = (N + (sz - 1 - i)) div sz"

lemma cnt_Suc:
  assumes "i < sz"
  shows "cnt sz (Suc N) i = cnt sz N i + (if N mod sz = i then 1 else 0)"
proof -
  let ?m = "N + (sz - 1 - i)"
  have "Suc ?m mod sz = 0 \<longleftrightarrow> N mod sz = i"
  proof -
    have "Suc ?m = N + (sz - i)" using assms by simp
    moreover have "(N + (sz - i)) mod sz = 0 \<longleftrightarrow> N mod sz = i"
    proof
      assume "N mod sz = i"
      then have "(N mod sz + (sz - i)) mod sz = 0" using assms by simp
      then show "(N + (sz - i)) mod sz = 0" by (simp add: mod_add_left_eq)
    next
      assume "(N + (sz - i)) mod sz = 0"
      then have z: "(N mod sz + (sz - i)) mod sz = 0" by (simp add: mod_add_left_eq)
      have b: "0 < N mod sz + (sz - i)" "N mod sz + (sz - i) < 2 * sz" using assms mod_less_divisor [of sz N] by linarith+
      from z obtain q where q: "N mod sz + (sz - i) = sz * q" by (metis mod_0_imp_dvd dvdE)
      have "q = 1" using b unfolding q by (cases q) auto
      then show "N mod sz = i" using q assms by simp
    qed
    ultimately show ?thesis by metis
  qed
  then show ?thesis by (simp add: cnt_def div_Suc)
qed

lemma cnt_gt: "0 < sz \<Longrightarrow> h div sz < cnt sz N (h mod sz) \<longleftrightarrow> h < N"
proof -
  assume sz: "0 < sz"
  have "h div sz < cnt sz N (h mod sz) \<longleftrightarrow> (h div sz + 1) * sz \<le> N + (sz - 1 - h mod sz)"
    unfolding cnt_def less_eq_div_iff_mult_less_eq [OF sz, symmetric] by (simp only: Suc_eq_plus1 [symmetric] Suc_le_eq)
  also have "\<dots> \<longleftrightarrow> h < N"
  proof -
    have h: "h = h div sz * sz + h mod sz" by simp
    have "(h div sz + 1) * sz = h div sz * sz + sz" by simp
    then show ?thesis using mod_less_divisor [OF sz, of h] h by linarith
  qed
  finally show ?thesis .
qed

section \<open>The invariant\<close>

definition wgeo :: "wobj \<Rightarrow> nat \<Rightarrow> nat \<Rightarrow> 'c wmem \<Rightarrow> bool" where
  "wgeo ob sz wd m \<longleftrightarrow> (\<exists>k \<le> 31. sz = 2 ^ k \<and> wo_mask ob = 2 ^ k - 1 \<and> wo_size ob = 2 ^ k \<and> wo_size_bits ob = k) \<and>
     length (wm_locks m) = sz \<and> length (wm_bufs m) = sz \<and> (\<forall>b \<in> set (wm_bufs m). length b = wd)"

lemma wgeo_words:
  assumes "wgeo ob sz wd m"
  shows "0 < sz" "sz \<le> 2 ^ 31" "wwf_slot ob c = unat c mod sz" "unat (wo_size ob) = sz" "unat (drop_bit 2 (wo_size ob)) = sz div 4"
    "unat (drop_bit (wo_size_bits ob) c) = unat c div sz" "length (wm_locks m) = sz" "length (wm_bufs m) = sz"
    "i < sz \<Longrightarrow> length (wm_bufs m ! i) = wd"
proof -
  obtain k where k: "k \<le> 31" "sz = 2 ^ k" "wo_mask ob = 2 ^ k - 1" "wo_size ob = 2 ^ k" "wo_size_bits ob = k"
    using assms by (auto simp: wgeo_def)
  show "0 < sz" using k by simp
  show "sz \<le> 2 ^ 31" unfolding k(2) using k(1) by (intro power_increasing) simp_all
  show "wwf_slot ob c = unat c mod sz" using k unat_and_pow2_mask [of k c] by (simp add: wwf_slot_def)
  show s: "unat (wo_size ob) = sz" using k by simp
  show "unat (drop_bit 2 (wo_size ob)) = sz div 4" unfolding unat_drop_bit_eq s by (simp add: drop_bit_eq_div)
  show "unat (drop_bit (wo_size_bits ob) c) = unat c div sz" unfolding unat_drop_bit_eq using k by (simp add: drop_bit_eq_div)
  show "length (wm_locks m) = sz" "length (wm_bufs m) = sz" "i < sz \<Longrightarrow> length (wm_bufs m ! i) = wd"
    using assms by (auto simp: wgeo_def)
qed

lemma sq_words: "sq_is_locked s \<longleftrightarrow> odd (unat s)" "unat (sq_lock_hist_nr s) = unat s div 2"
proof -
  have "unat (s AND 1) = unat s mod 2" using unat_and_pow2_mask [of 1 s] by simp
  then show "sq_is_locked s \<longleftrightarrow> odd (unat s)" unfolding sq_is_locked_def by (metis odd_iff_mod_2_eq_one even_iff_mod_2_eq_zero unat_eq_0)
  show "unat (sq_lock_hist_nr s) = unat s div 2" unfolding sq_lock_hist_nr_def unat_drop_bit_eq by (simp add: drop_bit_eq_div)
qed

fun slot_open :: "'c wpc \<Rightarrow> bool" where
  "slot_open (WCopy x i j) \<longleftrightarrow> True"
| "slot_open (WUnlock i) \<longleftrightarrow> True"
| "slot_open _ \<longleftrightarrow> False"

text \<open>The locks count the writes, the slots hold the last elements, apart from the one being written.\<close>

definition lock_inv :: "nat \<Rightarrow> bool \<Rightarrow> nat \<Rightarrow> u64 list \<Rightarrow> bool" where
  "lock_inv sz wr N ls \<longleftrightarrow> (\<forall>i < sz. unat (ls ! i) = 2 * cnt sz N i - (if wr \<and> (N - 1) mod sz = i then 1 else 0))"

definition buf_inv :: "nat \<Rightarrow> bool \<Rightarrow> 'c list list \<Rightarrow> 'c list list \<Rightarrow> bool" where
  "buf_inv sz wr xs bs \<longleftrightarrow> (\<forall>k < length xs. length xs \<le> k + sz \<longrightarrow> \<not> (wr \<and> k = length xs - 1) \<longrightarrow> bs ! (k mod sz) = xs ! k)"

fun writer_ok :: "nat \<Rightarrow> nat \<Rightarrow> 'c list list \<Rightarrow> 'c wmem \<Rightarrow> 'c wpc \<Rightarrow> bool" where
  "writer_ok sz wd xs m WIdle \<longleftrightarrow> unat (wm_tail m) = length xs"
| "writer_ok sz wd xs m (WLock x) \<longleftrightarrow> unat (wm_tail m) = length xs \<and> length x = wd \<and> length xs < 2 ^ 62"
| "writer_ok sz wd xs m (WCopy x i j) \<longleftrightarrow> length xs = Suc (unat (wm_tail m)) \<and> i = unat (wm_tail m) mod sz \<and>
     x = xs ! unat (wm_tail m) \<and> length x = wd \<and> j \<le> wd \<and> take j (wm_bufs m ! i) = take j x"
| "writer_ok sz wd xs m (WUnlock i) \<longleftrightarrow> unat (wm_tail m) = length xs \<and> xs \<noteq> [] \<and> i = (length xs - 1) mod sz \<and> wm_bufs m ! i = xs ! (length xs - 1)"

fun reader_ok :: "nat \<Rightarrow> nat \<Rightarrow> 'c list list \<Rightarrow> 'c wmem \<Rightarrow> 'c rpc \<Rightarrow> bool" where
  "reader_ok sz wd xs m (RCopy t st j acc) \<longleftrightarrow> unat st = 2 * (unat (wm_head m) div sz + 1) \<and>
     unat st \<le> unat (wm_locks m ! (unat (wm_head m) mod sz)) \<and> j \<le> wd \<and>
     (wm_locks m ! (unat (wm_head m) mod sz) = st \<longrightarrow> acc = take j (xs ! unat (wm_head m)))"
| "reader_ok sz wd xs m (RNext t acc) \<longleftrightarrow> unat (wm_head m) < unat (wm_tail m) \<and> acc = xs ! unat (wm_head m)"
| "reader_ok sz wd xs m (RThrow t) \<longleftrightarrow> unat (wm_head m) + sz \<le> unat (wm_tail m)"
| "reader_ok sz wd xs m _ \<longleftrightarrow> True"

definition taken_ok :: "nat \<Rightarrow> 'c list list \<Rightarrow> nat \<Rightarrow> nat \<Rightarrow> (nat \<times> 'c list) list \<Rightarrow> bool" where
  "taken_ok sz xs H T tk \<longleftrightarrow> sorted_wrt (<) (map fst tk) \<and> (\<forall>(h, x) \<in> set tk. h < H \<and> h < T \<and> x = xs ! h) \<and>
     (\<forall>p < H. p \<notin> fst ` set tk \<longrightarrow> p + sz < T + sz div 4)"

definition wwf_inv :: "wobj \<Rightarrow> nat \<Rightarrow> nat \<Rightarrow> 'c wworld \<Rightarrow> bool" where
  "wwf_inv ob sz wd w \<longleftrightarrow> wgeo ob sz wd (ww_mem w) \<and> length (ww_written w) \<le> 2 ^ 62 \<and> (\<forall>x \<in> set (ww_written w). length x = wd) \<and>
     lock_inv sz (slot_open (ww_w w)) (length (ww_written w)) (wm_locks (ww_mem w)) \<and>
     buf_inv sz (slot_open (ww_w w)) (ww_written w) (wm_bufs (ww_mem w)) \<and> writer_ok sz wd (ww_written w) (ww_mem w) (ww_w w) \<and>
     reader_ok sz wd (ww_written w) (ww_mem w) (ww_r w) \<and> unat (wm_head (ww_mem w)) \<le> unat (wm_tail (ww_mem w)) \<and>
     taken_ok sz (ww_written w) (unat (wm_head (ww_mem w))) (unat (wm_tail (ww_mem w))) (ww_taken w)"

subsection \<open>What the lock of a slot tells\<close>

lemma lock_exact:
  assumes "lock_inv sz wr N ls" "0 < sz" "unat (ls ! (h mod sz)) = 2 * (h div sz + 1)"
  shows "h < N" "N \<le> h + sz" "\<not> (wr \<and> h = N - 1)"
proof -
  let ?i = "h mod sz" let ?d = "if wr \<and> (N - 1) mod sz = ?i then 1 else 0 :: nat"
  have v: "2 * cnt sz N ?i - ?d = 2 * (h div sz + 1)" using assms by (simp add: lock_inv_def)
  have d: "?d = 0" using arg_cong [OF v, of even] v by (cases "cnt sz N ?i"; auto split: if_splits)
  then have c: "cnt sz N ?i = h div sz + 1" using v by simp
  show "h < N" using cnt_gt [OF assms(2), of h N] c by simp
  have "\<not> (h + sz) div sz < cnt sz N ((h + sz) mod sz)" using c assms(2) div_add_self2 [of sz h] by simp
  then show "N \<le> h + sz" using cnt_gt [OF assms(2), of "h + sz" N] by simp
  show "\<not> (wr \<and> h = N - 1)" using d by (auto split: if_splits)
qed

lemma lock_over:
  assumes "lock_inv sz wr N ls" "0 < sz" "2 * (h div sz + 1) < unat (ls ! (h mod sz))"
  shows "h + sz < N"
proof -
  have "2 * (h div sz + 1) < 2 * cnt sz N (h mod sz)" using assms by (simp add: lock_inv_def split: if_splits)
  then have "(h + sz) div sz < cnt sz N ((h + sz) mod sz)" using assms(2) div_add_self2 [of sz h] by simp
  then show ?thesis using cnt_gt [OF assms(2), of "h + sz" N] by simp
qed

lemma lock_under:
  assumes "lock_inv sz wr N ls" "0 < sz" "even (unat (ls ! (h mod sz)))" "unat (ls ! (h mod sz)) < 2 * (h div sz + 1)"
  shows "N \<le> h"
proof -
  let ?i = "h mod sz"
  have v: "unat (ls ! ?i) = 2 * cnt sz N ?i - (if wr \<and> (N - 1) mod sz = ?i then 1 else 0)" using assms by (simp add: lock_inv_def)
  have "cnt sz N ?i \<le> h div sz" using v assms(3,4) by (cases "cnt sz N ?i"; auto split: if_splits)
  then show ?thesis using cnt_gt [OF assms(2), of h N] by simp
qed

subsection \<open>The writer\<close>

lemma lock_inv_start:
  assumes inv: "lock_inv sz False N ls" and sz: "0 < sz" "length ls = sz" and N: "N < 2 ^ 62"
  shows "lock_inv sz True (Suc N) (ls[N mod sz := ls ! (N mod sz) + 1])"
proof -
  let ?i = "N mod sz"
  have i: "?i < sz" using sz by simp
  have c: "cnt sz N ?i = N div sz"
  proof -
    have "cnt sz N ?i \<le> N div sz" using cnt_gt [OF sz(1), of N N] by simp
    moreover have "N div sz \<le> cnt sz N ?i"
    proof (cases "N < sz")
      case False
      then have "(N - sz) div sz + 1 = N div sz" "(N - sz) mod sz = ?i" "N - sz < N"
        using sz(1) by (simp_all add: le_div_geq le_mod_geq not_less)
      then show ?thesis using cnt_gt [OF sz(1), of "N - sz" N] by simp
    qed simp
    ultimately show ?thesis by simp
  qed
  have l: "unat (ls ! ?i) = 2 * cnt sz N ?i" using inv i by (simp add: lock_inv_def)
  have "N div sz < 2 ^ 62" using N by (rule le_less_trans [OF div_le_dividend])
  then have "unat (ls ! ?i) + 1 < 2 ^ 64" unfolding l c by simp
  then have "unat (ls ! ?i + 1) = 2 * cnt sz N ?i + 1" using l by (simp add: unat_inc64)
  then show ?thesis using inv sz i by (auto simp: lock_inv_def cnt_Suc nth_list_update)
qed

lemma lock_inv_end:
  assumes inv: "lock_inv sz True N ls" and sz: "0 < sz" "length ls = sz" and N: "0 < N" "N \<le> 2 ^ 62"
  shows "lock_inv sz False N (ls[(N - 1) mod sz := ls ! ((N - 1) mod sz) + 1])"
proof -
  let ?i = "(N - 1) mod sz"
  have i: "?i < sz" using sz by simp
  have "(N - 1) div sz < cnt sz N ?i" using cnt_gt [OF sz(1), of "N - 1" N] N by simp
  then have l: "unat (ls ! ?i) + 1 = 2 * cnt sz N ?i" using inv i by (simp add: lock_inv_def)
  have m: "(N * sz + ?i) div sz = N" "(N * sz + ?i) mod sz = ?i" using i sz(1) by simp_all
  have "N \<le> N * sz + ?i" using sz(1) by (simp add: trans_le_add1)
  then have "cnt sz N ?i \<le> N" using cnt_gt [OF sz(1), of "N * sz + ?i" N] unfolding m by (simp add: not_less)
  then have "unat (ls ! ?i) + 1 < 2 ^ 64" unfolding l using N by simp
  then have "unat (ls ! ?i + 1) = 2 * cnt sz N ?i" using l by (simp add: unat_inc64)
  then show ?thesis using inv sz i by (auto simp: lock_inv_def nth_list_update)
qed

text \<open>A lock only grows, and while the reader's value is there the element at its position is too.\<close>

lemma reader_keep:
  assumes r: "reader_ok sz wd xs m r" and g: "wgeo ob sz wd m"
    and inv: "lock_inv sz wr (length xs) (wm_locks m)"
    and m': "wm_head m' = wm_head m" "unat (wm_tail m) \<le> unat (wm_tail m')"
    and l: "\<And>i. i < sz \<Longrightarrow> unat (wm_locks m ! i) \<le> unat (wm_locks m' ! i)" and xs: "xs' = xs @ ys" "unat (wm_tail m) \<le> length xs"
  shows "reader_ok sz wd xs' m' r"
proof (cases r)
  case (RCopy t st j acc)
  let ?h = "unat (wm_head m)" let ?i = "?h mod sz"
  have i: "?i < sz" using wgeo_words(1) [OF g] by simp
  have R: "unat st = 2 * (?h div sz + 1)" "unat st \<le> unat (wm_locks m ! ?i)" "j \<le> wd" "wm_locks m ! ?i = st \<longrightarrow> acc = take j (xs ! ?h)"
    using r RCopy by simp_all
  have "acc = take j (xs' ! ?h)" if "wm_locks m' ! ?i = st"
  proof -
    have eq: "wm_locks m ! ?i = st" using l [OF i] R(2) that by (simp add: word_unat_eq_iff)
    then have "?h < length xs" using lock_exact(1) [OF inv wgeo_words(1) [OF g], of ?h] R(1) by simp
    then show ?thesis using R(4) eq by (simp add: xs nth_append)
  qed
  then show ?thesis using RCopy R l [OF i] m' by auto
next
  case (RNext t acc)
  then show ?thesis using r m' xs by (auto simp: nth_append)
qed (use r m' in auto)

lemma taken_keep: "taken_ok sz xs H T tk \<Longrightarrow> T \<le> T' \<Longrightarrow> T \<le> length xs \<Longrightarrow> taken_ok sz (xs @ ys) H T' tk"
  unfolding taken_ok_def by (auto simp: nth_append)

lemma write_ok:
  assumes inv: "wwf_inv ob sz wd w"
  shows "wwf_inv ob sz wd (write_access ob w)"
proof -
  define m xs where "m = ww_mem w" and "xs = ww_written w"
  define H T where "H = unat (wm_head m)" and "T = unat (wm_tail m)"
  have g: "wgeo ob sz wd m" and N: "length xs \<le> 2 ^ 62" "\<forall>x \<in> set xs. length x = wd"
    and l: "lock_inv sz (slot_open (ww_w w)) (length xs) (wm_locks m)" and b: "buf_inv sz (slot_open (ww_w w)) xs (wm_bufs m)"
    and wo: "writer_ok sz wd xs m (ww_w w)" and ro: "reader_ok sz wd xs m (ww_r w)" and HT: "H \<le> T" and tk: "taken_ok sz xs H T (ww_taken w)"
    using inv by (simp_all add: wwf_inv_def m_def xs_def H_def T_def)
  note G = wgeo_words [OF g]
  have Tx: "T \<le> length xs" using wo by (cases "ww_w w") (auto simp: T_def)
  have keep: "reader_ok sz wd (xs @ ys) m' (ww_r w) \<and> taken_ok sz (xs @ ys) H (unat (wm_tail m')) (ww_taken w)"
    if "wm_head m' = wm_head m" "T \<le> unat (wm_tail m')" "\<And>i. i < sz \<Longrightarrow> unat (wm_locks m ! i) \<le> unat (wm_locks m' ! i)" for m' ys
    using reader_keep [OF ro g l that(1) _ that(3) refl, of ys] taken_keep [OF tk that(2) Tx] that(2) Tx by (simp add: T_def)
  show ?thesis
  proof (cases "ww_w w")
    case WIdle
    then have "write_access ob w = w" by (simp add: write_access_def)
    then show ?thesis using inv by simp
  next
    case (WLock x)
    have x: "length x = wd" "length xs < 2 ^ 62" "T = length xs" using wo WLock by (simp_all add: T_def)
    let ?i = "T mod sz"
    define m' where "m' = m\<lparr>wm_locks := (wm_locks m)[?i := wm_locks m ! ?i + 1]\<rparr>"
    have sel: "wm_head m' = wm_head m" "wm_tail m' = wm_tail m" "wm_bufs m' = wm_bufs m" "wm_locks m' = (wm_locks m)[?i := wm_locks m ! ?i + 1]"
      by (simp_all add: m'_def)
    have i: "?i < sz" using G(1) by simp
    have l': "lock_inv sz True (Suc (length xs)) (wm_locks m')"
      using lock_inv_start [OF _ G(1,7) x(2)] l WLock by (simp add: sel x(3))
    have up: "unat (wm_locks m ! j) \<le> unat (wm_locks m' ! j)" if "j < sz" for j
      using l l' WLock that cnt_Suc [OF that, of "length xs"] by (auto simp: lock_inv_def)
    have b': "buf_inv sz True (xs @ [x]) (wm_bufs m')"
      using b WLock by (auto simp: buf_inv_def sel nth_append)
    have "wgeo ob sz wd m'" using g by (simp add: wgeo_def m'_def)
    moreover have "write_access ob w = w\<lparr>ww_mem := m', ww_w := WCopy x ?i 0, ww_written := xs @ [x]\<rparr>"
      using WLock by (simp add: write_access_def Let_def G(3) m'_def T_def m_def [symmetric] xs_def [symmetric])
    ultimately show ?thesis using keep [OF sel(1) _ up, of "[x]"] l' b' x N HT
      by (simp add: wwf_inv_def sel H_def T_def nth_append)
  next
    case (WCopy x i j)
    have c: "length xs = Suc T" "i = T mod sz" "x = xs ! T" "length x = wd" "j \<le> wd" "take j (wm_bufs m ! i) = take j x"
      using wo unfolding WCopy writer_ok.simps T_def by blast+
    have i: "i < sz" using c(2) G(1) by simp
    show ?thesis
    proof (cases "j < wd")
      case True
      define m' where "m' = m\<lparr>wm_bufs := (wm_bufs m)[i := (wm_bufs m ! i)[j := x ! j]]\<rparr>"
      have sel: "wm_head m' = wm_head m" "wm_tail m' = wm_tail m" "wm_locks m' = wm_locks m" "wm_bufs m' = (wm_bufs m)[i := (wm_bufs m ! i)[j := x ! j]]"
        by (simp_all add: m'_def)
      have lb: "length (wm_bufs m ! i) = wd" by (rule G(9) [OF i])
      have "take (Suc j) ((wm_bufs m ! i)[j := x ! j]) = take (Suc j) x"
        using c(4,6) True lb by (simp add: take_Suc_conv_app_nth)
      then have w': "writer_ok sz wd xs m' (WCopy x i (Suc j))" using c True i G(8) by (simp add: sel T_def)
      have b': "buf_inv sz True xs (wm_bufs m')"
        unfolding buf_inv_def
      proof (intro allI impI)
        fix k assume k: "k < length xs" "length xs \<le> k + sz" "\<not> (True \<and> k = length xs - 1)"
        then have "k mod sz \<noteq> i" using mod_neq_window [of k T sz] c(1,2) by auto
        then show "wm_bufs m' ! (k mod sz) = xs ! k" using b WCopy k by (simp add: buf_inv_def sel)
      qed
      have "wgeo ob sz wd m'" using g lb i by (auto simp: wgeo_def m'_def dest!: set_update_subset_insert [THEN subsetD])
      moreover have "write_access ob w = w\<lparr>ww_mem := m', ww_w := WCopy x i (Suc j), ww_written := xs\<rparr>"
        using WCopy True c(4) by (simp add: write_access_def m'_def m_def xs_def)
      ultimately show ?thesis using keep [of m' "[]"] l b' w' N HT WCopy by (simp add: wwf_inv_def sel H_def T_def del: writer_ok.simps)
    next
      case False
      then have j: "j = wd" using c(5) by simp
      define m' where "m' = m\<lparr>wm_tail := wm_tail m + 1\<rparr>"
      have T1: "unat (wm_tail m + 1) = T + 1" using N(1) c(1) unfolding T_def by (intro unat_inc64) simp
      have sel: "wm_head m' = wm_head m" "unat (wm_tail m') = T + 1" "wm_locks m' = wm_locks m" "wm_bufs m' = wm_bufs m"
        using T1 by (simp_all add: m'_def)
      have "wm_bufs m ! i = x" using c(4,6) j G(9) [OF i] by simp
      then have w': "writer_ok sz wd xs m' (WUnlock i)" using c by (auto simp: sel)
      have "wgeo ob sz wd m'" using g by (simp add: wgeo_def m'_def)
      moreover have "write_access ob w = w\<lparr>ww_mem := m', ww_w := WUnlock i, ww_written := xs\<rparr>"
        using WCopy False c(4) by (simp add: write_access_def m'_def m_def xs_def)
      ultimately show ?thesis using keep [of m' "[]"] l b w' N HT WCopy by (simp add: wwf_inv_def sel H_def del: writer_ok.simps)
    qed
  next
    case (WUnlock i)
    have c: "T = length xs" "xs \<noteq> []" "i = (length xs - 1) mod sz" "wm_bufs m ! i = xs ! (length xs - 1)"
      using wo unfolding WUnlock writer_ok.simps T_def by blast+
    define m' where "m' = m\<lparr>wm_locks := (wm_locks m)[i := wm_locks m ! i + 1]\<rparr>"
    have sel: "wm_head m' = wm_head m" "wm_tail m' = wm_tail m" "wm_bufs m' = wm_bufs m" "wm_locks m' = (wm_locks m)[i := wm_locks m ! i + 1]"
      by (simp_all add: m'_def)
    have l': "lock_inv sz False (length xs) (wm_locks m')"
      using lock_inv_end [OF _ G(1,7), of "length xs"] l WUnlock c N(1) by (simp add: sel)
    have up: "unat (wm_locks m ! k) \<le> unat (wm_locks m' ! k)" if "k < sz" for k
      using l l' WUnlock that by (auto simp: lock_inv_def)
    have b': "buf_inv sz False xs (wm_bufs m')"
      unfolding buf_inv_def sel
    proof (intro allI impI)
      fix k assume k: "k < length xs" "length xs \<le> k + sz"
      show "wm_bufs m ! (k mod sz) = xs ! k"
        using b WUnlock k c(3,4) by (cases "k = length xs - 1") (auto simp: buf_inv_def)
    qed
    have "wgeo ob sz wd m'" using g by (simp add: wgeo_def m'_def)
    moreover have "write_access ob w = w\<lparr>ww_mem := m', ww_w := WIdle, ww_written := xs\<rparr>"
      using WUnlock by (simp add: write_access_def m'_def m_def xs_def)
    ultimately show ?thesis using keep [OF sel(1) _ up, of "[]"] l' b' c N HT by (simp add: wwf_inv_def sel H_def T_def)
  qed
qed

subsection \<open>The reader\<close>

text \<open>What the access to the lock of the slot at \<^verbatim>\<open>head\<close> tells the reader.\<close>

lemma begin_cases:
  assumes inv: "wwf_inv ob sz wd w" and r: "ww_r w = RBegin t"
  defines "m \<equiv> ww_mem w" and "H \<equiv> unat (wm_head (ww_mem w))" and "xs \<equiv> ww_written w"
  defines "start \<equiv> wm_locks m ! (H mod sz)"
  shows "(\<exists>t'. read_step ob (RBegin t) m = (m, RBegin t', None)) \<or>
    sq_is_locked start \<and> t \<noteq> None \<and> read_step ob (RBegin t) m = (m, RIdle, Some (Inl kFailure)) \<or>
    unat start = 2 * (H div sz + 1) \<and> read_step ob (RBegin t) m = (m, RCopy t start 0 [], None) \<or>
    length xs \<le> H \<and> read_step ob (RBegin t) m = (m, RIdle, Some (Inl kFailure)) \<or>
    H + sz < length xs \<and> read_step ob (RBegin t) m = (m, RThrow t, None)"
proof -
  have g: "wgeo ob sz wd m" and l: "lock_inv sz (slot_open (ww_w w)) (length xs) (wm_locks m)" and N: "length xs \<le> 2 ^ 62" "H \<le> unat (wm_tail m)"
    "unat (wm_tail m) \<le> length xs"
    using inv by (cases "ww_w w"; auto simp: wwf_inv_def m_def xs_def H_def)+
  note G = wgeo_words [OF g]
  have s: "wm_locks m ! wwf_slot ob (wm_head m) = start" unfolding start_def G(3) H_def m_def ..
  have "H div sz \<le> 2 ^ 62" using N div_le_dividend [of H sz] by linarith
  then have "H div sz + 1 < 2 ^ 64" by simp
  then have loop: "unat (drop_bit (wo_size_bits ob) (wm_head m) + 1) = H div sz + 1"
    using unat_inc64 [of "drop_bit (wo_size_bits ob) (wm_head m)"] G(6) [of "wm_head m"] by (simp add: H_def m_def)
  show ?thesis
  proof (cases "sq_is_locked start")
    case True
    then show ?thesis by (cases t) (auto simp: s)
  next
    case False
    then have ev: "even (unat start)" by (simp add: sq_words)
    have st: "unat (wm_locks m ! (H mod sz)) = unat start" by (simp add: start_def)
    consider "H div sz + 1 = unat start div 2" | "unat start div 2 < H div sz + 1" | "H div sz + 1 < unat start div 2" by linarith
    then show ?thesis
    proof cases
      case 1
      then have "unat start = 2 * (H div sz + 1)" using ev by simp
      moreover have "drop_bit (wo_size_bits ob) (wm_head m) + 1 = sq_lock_hist_nr start" using 1 loop by (simp add: word_unat_eq_iff sq_words)
      ultimately show ?thesis using False by (simp add: s Let_def)
    next
      case 2
      then have "unat start < 2 * (H div sz + 1)" using ev by (auto elim!: evenE)
      then have "length xs \<le> H" using lock_under [OF l G(1), of H] ev st by simp
      moreover have "sq_lock_hist_nr start < drop_bit (wo_size_bits ob) (wm_head m) + 1" using 2 loop by (simp add: word_less_nat_alt sq_words)
      moreover from this have "drop_bit (wo_size_bits ob) (wm_head m) + 1 \<noteq> sq_lock_hist_nr start" by auto
      ultimately show ?thesis using False by (simp add: s Let_def)
    next
      case 3
      then have "2 * (H div sz + 1) < unat start" using ev by (auto elim!: evenE)
      then have "H + sz < length xs" using lock_over [OF l G(1), of H] st by simp
      moreover have "\<not> sq_lock_hist_nr start < drop_bit (wo_size_bits ob) (wm_head m) + 1" "drop_bit (wo_size_bits ob) (wm_head m) + 1 \<noteq> sq_lock_hist_nr start"
        using 3 loop by (simp_all add: word_less_nat_alt word_unat_eq_iff sq_words)
      ultimately show ?thesis using False by (simp add: s Let_def)
    qed
  qed
qed

text \<open>The jump goes forward, and not past the end.\<close>

lemma throw_head:
  assumes "wgeo ob sz wd m" "unat (wm_head m) + sz \<le> unat (wm_tail m)"
  shows "unat (wm_head (ThrowEntry ob m)) = unat (wm_tail m) - sz + sz div 4"
proof -
  note G = wgeo_words [OF assms(1)]
  have "unat (wm_tail m - wo_size ob) = unat (wm_tail m) - sz" using assms(2) G(4) by (simp add: unat_sub64)
  moreover have "unat (wm_tail m) - sz + sz div 4 < 2 ^ 64" using assms(2) unat_less64 [of "wm_tail m"] by linarith
  ultimately show ?thesis using G(5) by (simp add: ThrowEntry_def unat_add64)
qed

lemma taken_throw:
  assumes "taken_ok sz xs H T tk" "H + sz \<le> T"
  shows "taken_ok sz xs (T - sz + sz div 4) T tk"
proof -
  have "p + sz < T + sz div 4" if "p < T - sz + sz div 4" for p using that assms(2) by linarith
  moreover have "h < T - sz + sz div 4" if "h < H" for h using that assms(2) by linarith
  ultimately show ?thesis using assms(1) unfolding taken_ok_def by blast
qed

lemma taken_next:
  assumes "taken_ok sz xs H T tk" "H < T"
  shows "taken_ok sz xs (H + 1) T (tk @ [(H, xs ! H)])"
  using assms unfolding taken_ok_def by (auto simp: sorted_wrt_append less_Suc_eq)

lemma read_ok:
  assumes inv: "wwf_inv ob sz wd w"
  shows "wwf_inv ob sz wd (read_access ob w)"
proof -
  define m xs where "m = ww_mem w" and "xs = ww_written w"
  define H T where "H = unat (wm_head m)" and "T = unat (wm_tail m)"
  have g: "wgeo ob sz wd m" and N: "length xs \<le> 2 ^ 62" "\<forall>x \<in> set xs. length x = wd"
    and l: "lock_inv sz (slot_open (ww_w w)) (length xs) (wm_locks m)" and b: "buf_inv sz (slot_open (ww_w w)) xs (wm_bufs m)"
    and wo: "writer_ok sz wd xs m (ww_w w)" and ro: "reader_ok sz wd xs m (ww_r w)" and HT: "H \<le> T" and tk: "taken_ok sz xs H T (ww_taken w)"
    using inv by (simp_all add: wwf_inv_def m_def xs_def H_def T_def)
  note G = wgeo_words [OF g]
  have i: "H mod sz < sz" using G(1) by simp
  have slot: "wwf_slot ob (wm_head m) = H mod sz" unfolding H_def by (rule G(3))
  have Tx: "T \<le> length xs" "length xs \<le> T + 1" "\<not> slot_open (ww_w w) \<or> ww_w w = WUnlock ((length xs - 1) mod sz) \<or> length xs = T + 1"
    using wo by (cases "ww_w w"; auto simp: T_def)+
  have stay: "wwf_inv ob sz wd (w\<lparr>ww_mem := m, ww_r := r'\<rparr>)" if "reader_ok sz wd xs m r'" for r'
    using inv that by (simp add: wwf_inv_def m_def xs_def)
  show ?thesis
  proof (cases "ww_r w")
    case RIdle
    then show ?thesis using stay [of RIdle] by (simp add: read_access_def m_def [symmetric])
  next
    case (RBegin t)
    let ?start = "wm_locks m ! (H mod sz)"
    have ok: "reader_ok sz wd xs m (RBegin t')" "reader_ok sz wd xs m RIdle" for t' by simp_all
    have c: "reader_ok sz wd xs m (RCopy t ?start 0 [])" if "unat ?start = 2 * (H div sz + 1)" using that by (simp add: H_def)
    have th: "reader_ok sz wd xs m (RThrow t)" if "H + sz < length xs" using that Tx by (simp add: H_def T_def)
    from begin_cases [OF inv RBegin] show ?thesis
      unfolding m_def [symmetric] xs_def [symmetric] H_def [symmetric]
      using stay [OF ok(1)] stay [OF ok(2)] stay [OF c] stay [OF th] RBegin
      by (auto simp del: read_step.simps simp: read_access_def m_def [symmetric])
  next
    case (RCopy t st j acc)
    let ?lk = "wm_locks m ! (H mod sz)"
    have R: "unat st = 2 * (H div sz + 1)" "unat st \<le> unat ?lk" "j \<le> wd" "?lk = st \<longrightarrow> acc = take j (xs ! H)"
      using ro RCopy by (simp_all add: H_def)
    have here: "H < length xs" "wm_bufs m ! (H mod sz) = xs ! H" "H < T" if eq: "?lk = st"
    proof -
      note E = lock_exact [OF l G(1), of H]
      show lt: "H < length xs" using E(1) R(1) eq by simp
      show "wm_bufs m ! (H mod sz) = xs ! H" using b E(2,3) R(1) eq lt by (simp add: buf_inv_def)
      have "H \<noteq> length xs - 1 \<or> \<not> slot_open (ww_w w)" using E(3) R(1) eq by blast
      then show "H < T" using lt Tx wo by (cases "ww_w w") (auto simp: T_def)
    qed
    show ?thesis
    proof (cases "j < wd")
      case True
      have "acc @ [wm_bufs m ! (H mod sz) ! j] = take (Suc j) (xs ! H)" if "?lk = st"
        using R(4) here [OF that] that True N(2) by (simp add: take_Suc_conv_app_nth)
      then have "reader_ok sz wd xs m (RCopy t st (Suc j) (acc @ [wm_bufs m ! (H mod sz) ! j]))" using R True by (simp add: H_def)
      then show ?thesis using stay RCopy True G(9) [OF i] by (simp add: read_access_def m_def [symmetric] slot Let_def)
    next
      case False
      then have j: "j = wd" using R(3) by simp
      show ?thesis
      proof (cases "?lk = st")
        case eq: True
        then have "acc = xs ! H" using R(4) j here(1) N(2) by simp
        then have "reader_ok sz wd xs m (RNext t acc)" using here(3) [OF eq] by (simp add: H_def T_def)
        then show ?thesis using stay RCopy j eq G(9) [OF i] by (simp add: read_access_def m_def [symmetric] slot Let_def)
      next
        case neq: False
        then have "2 * (H div sz + 1) < unat ?lk" using R(1,2) by (metis le_neq_implies_less word_unat_eq_iff)
        then have "H + sz < length xs" by (rule lock_over [OF l G(1)])
        then have "reader_ok sz wd xs m (RThrow t)" using Tx by (simp add: H_def T_def)
        then show ?thesis using stay RCopy j neq G(9) [OF i] by (simp add: read_access_def m_def [symmetric] slot Let_def)
      qed
    qed
  next
    case (RNext t acc)
    have R: "H < T" "acc = xs ! H" using ro RNext by (simp_all add: H_def T_def)
    have H1: "unat (wm_head m + 1) = H + 1" unfolding H_def using R(1) unat_less64 [of "wm_tail m"] by (intro unat_inc64) (simp add: H_def T_def)
    have acc: "read_access ob w = w\<lparr>ww_mem := m\<lparr>wm_head := wm_head m + 1\<rparr>, ww_r := RIdle, ww_taken := ww_taken w @ [(H, xs ! H)]\<rparr>"
      using RNext R by (simp add: read_access_def m_def [symmetric] H_def)
    define m' where "m' = m\<lparr>wm_head := wm_head m + 1\<rparr>"
    have sel: "unat (wm_head m') = H + 1" "wm_tail m' = wm_tail m" "wm_locks m' = wm_locks m" "wm_bufs m' = wm_bufs m" using H1 by (simp_all add: m'_def)
    have "wgeo ob sz wd m'" using g by (simp add: wgeo_def sel)
    moreover have "writer_ok sz wd xs m' (ww_w w)" using wo by (cases "ww_w w") (auto simp: sel)
    moreover have "taken_ok sz xs (H + 1) T (ww_taken w @ [(H, xs ! H)])" by (rule taken_next [OF tk R(1)])
    ultimately show ?thesis unfolding acc m'_def [symmetric] using l b N R(1) by (simp add: wwf_inv_def sel xs_def T_def)
  next
    case (RThrow t)
    have R: "H + sz \<le> T" using ro RThrow by (simp add: H_def T_def)
    define m' where "m' = ThrowEntry ob m"
    have sel: "unat (wm_head m') = T - sz + sz div 4" "wm_tail m' = wm_tail m" "wm_locks m' = wm_locks m" "wm_bufs m' = wm_bufs m"
      using throw_head [OF g] R by (simp_all add: m'_def H_def T_def) (simp_all add: ThrowEntry_def)
    have acc: "read_access ob w = w\<lparr>ww_mem := m', ww_r := RBegin (map_option (\<lambda>_. 0) t)\<rparr>"
      using RThrow by (simp add: read_access_def m_def [symmetric] m'_def)
    have "wgeo ob sz wd m'" using g by (simp add: wgeo_def sel)
    moreover have "writer_ok sz wd xs m' (ww_w w)" using wo by (cases "ww_w w") (auto simp: sel)
    moreover have "taken_ok sz xs (T - sz + sz div 4) T (ww_taken w)" by (rule taken_throw [OF tk R])
    moreover have "T - sz + sz div 4 \<le> T" using R by linarith
    ultimately show ?thesis unfolding acc using l b N by (simp add: wwf_inv_def sel xs_def T_def)
  qed
qed

lemma wwf_step_inv: "wwf_step ob wd w w' \<Longrightarrow> wwf_inv ob sz wd w \<Longrightarrow> wwf_inv ob sz wd w'"
proof (induction rule: wwf_step.induct)
  case (write_call w x)
  then show ?case by (auto simp: wwf_inv_def)
next
  case (read_call w t)
  then show ?case by (simp add: wwf_inv_def)
qed (auto intro: write_ok read_ok)

lemma wwf_reach_inv: "wwf_reach ob wd w0 w \<Longrightarrow> wwf_inv ob sz wd w0 \<Longrightarrow> wwf_inv ob sz wd w"
  by (induction rule: wwf_reach.induct) (auto intro: wwf_step_inv)

subsection \<open>A new ring\<close>

lemma wwf_InitEntries_ok:
  "n = 0 \<or> (i + n - 1) * sz + 8 \<le> room \<Longrightarrow> wwf_InitEntries n i room sz = Ret (replicate n 0)"
proof (induction n arbitrary: i)
  case (Suc n)
  have "i * sz \<le> (i + Suc n - 1) * sz" by (intro mult_le_mono) simp_all
  then have "i * sz + 8 \<le> room" using Suc.prems by linarith
  moreover have "wwf_InitEntries n (Suc i) room sz = Ret (replicate n 0)" using Suc.prems by (intro Suc.IH) auto
  ultimately show ?case by simp
qed simp

text \<open>A ring whose byte count fits 32 bits.\<close>

definition wwf_fits :: "u32 \<Rightarrow> u32 \<Rightarrow> u32 \<Rightarrow> bool" where
  "wwf_fits header_size payload_size ring_buffer_size \<longleftrightarrow>
     0 < unat ring_buffer_size \<and> unat ring_buffer_size \<le> 2 ^ 31 \<and> unat payload_size + 8 \<le> 2 ^ 31 \<and>
     unat header_size + unat (RoundToPowerOf2 ring_buffer_size) * unat (wwf_CalcEntrySize payload_size) < 2 ^ 32"

lemma wwf_Create_ok:
  assumes f: "wwf_fits header_size payload_size ring_buffer_size" and mall: "\<And>b. malloc_ok b" and j: "\<And>i. length (junk i) = wd"
  obtains m ob where "wwf_Create header_size malloc_ok junk payload_size ring_buffer_size = Ret (Some (m, ob))"
    "wwf_inv ob (unat (RoundToPowerOf2 ring_buffer_size)) wd (wwf_start m)"
proof -
  let ?s = "RoundToPowerOf2 ring_buffer_size" let ?e = "wwf_CalcEntrySize payload_size"
  obtain k where k: "k \<le> 31" "?s = 2 ^ k" using RoundToPowerOf2_obtain [of ring_buffer_size] f by (auto simp: wwf_fits_def)
  have p8: "unat (payload_size + 8) = unat payload_size + 8" using f by (simp add: wwf_fits_def unat_word_ariths)
  then obtain k' where k': "k' \<le> 31" "?e = 2 ^ k'" "unat payload_size + 8 \<le> 2 ^ k'"
    using RoundToPowerOf2_obtain [of "payload_size + 8"] f by (auto simp: wwf_fits_def wwf_CalcEntrySize_def)
  have "unat (?s * ?e) = unat ?s * unat ?e" using f by (simp add: wwf_fits_def unat_word_ariths)
  then have tot: "unat (header_size + ?s * ?e) = unat header_size + unat ?s * unat ?e" using f by (simp add: wwf_fits_def unat_word_ariths)
  let ?t = "ucast (header_size + ?s * ?e) :: u64"
  have room: "unat ?t - unat header_size = unat ?s * unat ?e" using tot by simp
  have s: "unat ?s = 2 ^ k" "unat ?e = 2 ^ k'" using k k' by simp_all
  have "8 \<le> unat ?e" using k' s by simp
  moreover have "(unat ?s - 1) * unat ?e + unat ?e = unat ?s * unat ?e" using s by (simp add: algebra_simps)
  ultimately have "(0 + unat ?s - 1) * unat ?e + 8 \<le> unat ?s * unat ?e" by simp
  then have ini: "wwf_InitEntries (unat ?s) 0 (unat ?t - unat header_size) (unat ?e) = Ret (replicate (unat ?s) 0)"
    unfolding room by (intro wwf_InitEntries_ok) simp
  let ?m = "\<lparr>wm_entry_size = ?e, wm_mask = ?s - 1, wm_size = ?s, wm_offset = header_size, wm_notify = 0,
     wm_tail = 0, wm_head = 0, wm_locks = replicate (unat ?s) 0, wm_bufs = map junk [0..<unat ?s]\<rparr>"
  let ?o = "\<lparr>wo_mask = ucast (?s - 1), wo_size = ucast ?s, wo_entry_bits = k', wo_size_bits = k\<rparr>"
  have "wwf_Init ?m = Ret ?o" using k k' by (simp add: wwf_Init_def)
  then have cr: "wwf_Create header_size malloc_ok junk payload_size ring_buffer_size = Ret (Some (?m, ?o))"
    using ini mall by (simp add: wwf_Create_def Let_def)
  have "wo_mask ?o = 2 ^ k - 1" "wo_size ?o = 2 ^ k"
    unfolding wobj.select_convs k(2) using k(1) unat_pow2_minus_1 [of k, where 'w = 32] unat_pow2_minus_1 [of k, where 'w = 64] by (simp_all add: word_unat_eq_iff)
  then have "wgeo ?o (unat ?s) wd ?m" unfolding wgeo_def using k s j by (intro conjI exI [of _ k]) auto
  moreover have "cnt (unat ?s) 0 i = 0" if "i < unat ?s" for i using that by (simp add: cnt_def)
  ultimately have "wwf_inv ?o (unat ?s) wd (wwf_start ?m)"
    by (simp add: wwf_inv_def wwf_start_def lock_inv_def buf_inv_def taken_ok_def)
  then show thesis using cr that by blast
qed

section \<open>A read returns\<close>

lemma lock_quiet:
  assumes "lock_inv sz False N ls" "0 < sz" "h < N" "N \<le> h + sz"
  shows "unat (ls ! (h mod sz)) = 2 * (h div sz + 1)"
proof -
  have "h div sz < cnt sz N (h mod sz)" using cnt_gt [OF assms(2), of h N] assms(3) by simp
  moreover have "\<not> (h + sz) div sz < cnt sz N ((h + sz) mod sz)" using cnt_gt [OF assms(2), of "h + sz" N] assms(4) by simp
  ultimately have "cnt sz N (h mod sz) = h div sz + 1" using assms(2) div_add_self2 [of sz h] by simp
  then show ?thesis using assms(1,2) by (simp add: lock_inv_def)
qed

text \<open>With the writer at rest the reader copies the element at \<^verbatim>\<open>head\<close> if it is still there.\<close>

lemma copy_run:
  assumes "wgeo ob sz wd (ww_mem w)" "ww_r w = RCopy t st 0 []" "j \<le> wd"
  shows "(read_access ob ^^ j) w = w\<lparr>ww_r := RCopy t st j (take j (wm_bufs (ww_mem w) ! (unat (wm_head (ww_mem w)) mod sz)))\<rparr>"
  using assms(3)
proof (induction j)
  case 0
  then show ?case using assms(2) by simp
next
  case (Suc j)
  note G = wgeo_words [OF assms(1)]
  have "unat (wm_head (ww_mem w)) mod sz < sz" using G(1) by simp
  then have "length (wm_bufs (ww_mem w) ! (unat (wm_head (ww_mem w)) mod sz)) = wd" by (rule G(9))
  then show ?case using Suc G(3) by (simp add: read_access_def Let_def take_Suc_conv_app_nth)
qed

lemma window_read:
  assumes inv: "wwf_inv ob sz wd w" and r: "ww_r w = RBegin t" and q: "\<not> slot_open (ww_w w)"
    and h: "unat (wm_head (ww_mem w)) < length (ww_written w)" "length (ww_written w) \<le> unat (wm_head (ww_mem w)) + sz"
  shows "\<exists>j. ww_r ((read_access ob ^^ j) w) = RIdle \<and> (\<exists>h x. ww_taken ((read_access ob ^^ j) w) = ww_taken w @ [(h, x)])"
proof -
  let ?m = "ww_mem w" let ?h = "unat (wm_head ?m)" let ?f = "read_access ob"
  have g: "wgeo ob sz wd ?m" and l: "lock_inv sz False (length (ww_written w)) (wm_locks ?m)" using inv q by (simp_all add: wwf_inv_def)
  note G = wgeo_words [OF g]
  let ?st = "wm_locks ?m ! (?h mod sz)"
  have st: "unat ?st = 2 * (?h div sz + 1)" by (rule lock_quiet [OF l G(1) h])
  have "read_step ob (RBegin t) ?m = (?m, RCopy t ?st 0 [], None)"
  proof -
    have "?h < 2 ^ 62" using h inv by (simp add: wwf_inv_def)
    then have "?h div sz < 2 ^ 62" by (rule le_less_trans [OF div_le_dividend])
    then have "unat (drop_bit (wo_size_bits ob) (wm_head ?m)) + 1 < 2 ^ 64" unfolding G(6) by simp
    then have "unat (drop_bit (wo_size_bits ob) (wm_head ?m) + 1) = ?h div sz + 1" using unat_inc64 G(6) by simp
    then have "drop_bit (wo_size_bits ob) (wm_head ?m) + 1 = sq_lock_hist_nr ?st" using st by (simp add: word_unat_eq_iff sq_words)
    moreover have "\<not> sq_is_locked ?st" using st by (simp add: sq_words)
    ultimately show ?thesis by (simp add: G(3) Let_def)
  qed
  then have 1: "?f w = w\<lparr>ww_r := RCopy t ?st 0 []\<rparr>" using r by (simp add: read_access_def)
  define w1 where "w1 = w\<lparr>ww_r := RCopy t ?st 0 []\<rparr>"
  have w1: "wgeo ob sz wd (ww_mem w1)" "ww_r w1 = RCopy t ?st 0 []" "ww_taken w1 = ww_taken w" "ww_mem w1 = ?m" using g by (simp_all add: w1_def)
  obtain acc where 2: "(?f ^^ wd) w1 = w1\<lparr>ww_r := RCopy t ?st wd acc\<rparr>" using copy_run [OF w1(1,2), of wd] by auto
  have "length (wm_bufs ?m ! (?h mod sz)) = wd" using G(1,9) by simp
  then have 3: "?f (w1\<lparr>ww_r := RCopy t ?st wd acc\<rparr>) = w1\<lparr>ww_r := RNext t acc\<rparr>" using w1(4) G(3) by (simp add: read_access_def Let_def)
  have 4: "ww_r (?f (w1\<lparr>ww_r := RNext t acc\<rparr>)) = RIdle" "ww_taken (?f (w1\<lparr>ww_r := RNext t acc\<rparr>)) = ww_taken w @ [(?h, acc)]"
    using w1(3,4) by (simp_all add: read_access_def)
  have "(?f ^^ Suc (Suc (wd + 1))) w = ?f (?f ((?f ^^ wd) (?f w)))" by (simp add: funpow_swap1)
  then have "(?f ^^ Suc (Suc (wd + 1))) w = ?f (w1\<lparr>ww_r := RNext t acc\<rparr>)" unfolding 1 w1_def [symmetric] 2 3 .
  then show ?thesis using 4 by metis
qed

lemma read_returns:
  assumes inv: "wwf_inv ob sz wd w" and r: "ww_r w = RBegin t" and q: "\<not> slot_open (ww_w w)" and h: "unat (wm_head (ww_mem w)) < length (ww_written w)"
  shows "\<exists>j. ww_r ((read_access ob ^^ j) w) = RIdle \<and> (\<exists>h x. ww_taken ((read_access ob ^^ j) w) = ww_taken w @ [(h, x)])"
proof (cases "length (ww_written w) \<le> unat (wm_head (ww_mem w)) + sz")
  case True
  then show ?thesis by (rule window_read [OF inv r q h])
next
  case False
  let ?m = "ww_mem w" let ?h = "unat (wm_head ?m)" let ?f = "read_access ob" let ?N = "length (ww_written w)"
  have g: "wgeo ob sz wd ?m" and l: "lock_inv sz False ?N (wm_locks ?m)" and T: "unat (wm_tail ?m) = ?N"
    using inv q by (cases "ww_w w"; auto simp: wwf_inv_def)+
  note G = wgeo_words [OF g]
  have v: "unat (wm_locks ?m ! (?h mod sz)) = 2 * cnt sz ?N (?h mod sz)" using l G(1) by (simp add: lock_inv_def)
  have "(?h + sz) div sz < cnt sz ?N ((?h + sz) mod sz)" using cnt_gt [OF G(1), of "?h + sz" ?N] False by simp
  then have "2 * (?h div sz + 1) < unat (wm_locks ?m ! (?h mod sz))" using v G(1) div_add_self2 [of sz ?h] by simp
  moreover have "\<not> sq_is_locked (wm_locks ?m ! (?h mod sz))" using v by (simp add: sq_words)
  ultimately have "read_step ob (RBegin t) ?m = (?m, RThrow t, None)"
    using begin_cases [OF inv r] False by (auto simp: G(3) Let_def split: option.splits if_splits)
  then have 1: "?f w = w\<lparr>ww_r := RThrow t\<rparr>" using r by (simp add: read_access_def)
  define w2 where "w2 = ?f (?f w)"
  have w2: "w2 = w\<lparr>ww_mem := ThrowEntry ob ?m, ww_r := RBegin (map_option (\<lambda>_. 0) t)\<rparr>" unfolding w2_def 1 by (simp add: read_access_def)
  have inv2: "wwf_inv ob sz wd w2" unfolding w2_def by (intro read_ok inv)
  have "?h + sz \<le> unat (wm_tail ?m)" using False T by simp
  then have hd2: "unat (wm_head (ww_mem w2)) = ?N - sz + sz div 4" using throw_head [OF g] T by (simp add: w2)
  have "sz div 4 < sz" using G(1) by simp
  then have "?N - sz + sz div 4 < ?N" "?N \<le> ?N - sz + sz div 4 + sz" using False by linarith+
  then obtain j where "ww_r ((?f ^^ j) w2) = RIdle" "\<exists>h x. ww_taken ((?f ^^ j) w2) = ww_taken w2 @ [(h, x)]"
    using window_read [OF inv2, of "map_option (\<lambda>_. 0) t"] q hd2 by (auto simp: w2)
  moreover have "(?f ^^ (j + 2)) w = (?f ^^ j) w2" by (simp add: w2_def funpow_add numeral_2_eq_2 funpow_swap1)
  moreover have "ww_taken w2 = ww_taken w" by (simp add: w2)
  ultimately show ?thesis by metis
qed

lemma read_empty:
  assumes inv: "wwf_inv ob sz wd w" and r: "ww_r w = RBegin t" and q: "\<not> slot_open (ww_w w)" and h: "length (ww_written w) \<le> unat (wm_head (ww_mem w))"
  shows "read_access ob w = w\<lparr>ww_r := RIdle\<rparr>"
proof -
  let ?m = "ww_mem w" let ?h = "unat (wm_head ?m)" let ?N = "length (ww_written w)"
  have g: "wgeo ob sz wd ?m" and l: "lock_inv sz False ?N (wm_locks ?m)" using inv q by (simp_all add: wwf_inv_def)
  note G = wgeo_words [OF g]
  have v: "unat (wm_locks ?m ! (?h mod sz)) = 2 * cnt sz ?N (?h mod sz)" using l G(1) by (simp add: lock_inv_def)
  have "unat (wm_locks ?m ! (?h mod sz)) \<noteq> 2 * (?h div sz + 1)" using lock_exact(1) [OF l G(1), of ?h] h by auto
  moreover have "\<not> sq_is_locked (wm_locks ?m ! (?h mod sz))" using v by (simp add: sq_words)
  ultimately have "read_step ob (RBegin t) ?m = (?m, RIdle, Some (Inl kFailure))"
    using begin_cases [OF inv r] h by (auto simp: G(3) Let_def split: option.splits if_splits)
  then show ?thesis using r by (simp add: read_access_def)
qed

section \<open>A small ring\<close>

definition demo_mem :: "nat wmem" where
  "demo_mem = \<lparr>wm_entry_size = 16, wm_mask = 1, wm_size = 2, wm_offset = 4096, wm_notify = 0, wm_tail = 0, wm_head = 0,
     wm_locks = [0, 0], wm_bufs = [[0, 0], [0, 0]]\<rparr>"

definition demo_obj :: wobj where
  "demo_obj = \<lparr>wo_mask = 1, wo_size = 2, wo_entry_bits = 4, wo_size_bits = 1\<rparr>"

lemma demo_round: "RoundToPowerOf2 2 = 2" "RoundToPowerOf2 16 = 16"
proof -
  have "RoundToPowerOf2 2 = 2 ^ 1" by (rule RoundToPowerOf2_eq) simp_all
  moreover have "RoundToPowerOf2 16 = 2 ^ 4" by (rule RoundToPowerOf2_eq) simp_all
  ultimately show "RoundToPowerOf2 2 = 2" "RoundToPowerOf2 16 = 16" by simp_all
qed

lemma demo_create: "wwf_Create 4096 (\<lambda>_. True) (\<lambda>_. [0, 0]) 8 2 = Ret (Some (demo_mem, demo_obj))"
proof -
  have ini: "wwf_InitEntries 2 0 32 16 = Ret [0, 0]" by (simp add: numeral_2_eq_2)
  have b: "GetBits 2 = Ret 1" "GetBits 16 = Ret 4" using GetBits_pow2 [of 1] GetBits_pow2 [of 4] by simp_all
  have m: "map (\<lambda>_. [0, 0]) [0..<2] = [[0, 0], [0 :: nat, 0]]" by (simp add: upt_rec)
  show ?thesis by (simp add: wwf_Create_def wwf_CalcEntrySize_def demo_round Let_def ini wwf_Init_def b m demo_mem_def demo_obj_def)
qed

lemma demo_fits: "wwf_fits 4096 8 2"
  by (simp add: wwf_fits_def demo_round wwf_CalcEntrySize_def)

text \<open>A write that stops after \<open>j\<close> accesses, and a crash of the writer with the recovery of \<^verbatim>\<open>ShareWWFRingBuffer::Create\<close>.\<close>

definition run_write :: "nat \<Rightarrow> nat list \<Rightarrow> nat wworld \<Rightarrow> nat wworld" where
  "run_write j x w = (write_access demo_obj ^^ j) (w\<lparr>ww_w := WLock x\<rparr>)"

definition recover :: "nat wworld \<Rightarrow> nat wworld" where
  "recover w = w\<lparr>ww_mem := wwf_RollBack demo_obj (ww_mem w), ww_w := WIdle\<rparr>"

definition read_after :: "nat \<Rightarrow> nat wworld \<Rightarrow> nat wworld" where
  "read_after j w = (read_access demo_obj ^^ j) (w\<lparr>ww_r := RBegin None\<rparr>)"

definition torn_world :: "nat wworld" where
  "torn_world = recover (run_write 2 [3, 3] (run_write 5 [2, 2] (run_write 5 [1, 1] (wwf_start demo_mem))))"

definition stuck_world :: "nat wworld" where
  "stuck_world = recover (run_write 4 [1, 1] (wwf_start demo_mem))"

section \<open>The properties\<close>

text \<open>
  C12: a reader of a new ring never sees a torn or repeated element, however fast the writer overwrites: in every
  reachable state the positions of the elements that \<^verbatim>\<open>Read\<close> or \<^verbatim>\<open>TryRead\<close> returned increase, each element is, cell by cell,
  the one written at its position, and a position that was passed over lay behind the last three quarters of the ring.
\<close>

theorem wwf_reads_exact:
  assumes "wwf_fits header_size payload_size ring_buffer_size" and "\<And>b. malloc_ok b" and "\<And>i. length (junk i) = wd"
  shows "\<exists>m ob. wwf_Create header_size malloc_ok junk payload_size ring_buffer_size = Ret (Some (m, ob)) \<and>
    (\<forall>w. wwf_reach ob wd (wwf_start m) w \<longrightarrow>
      sorted_wrt (<) (map fst (ww_taken w)) \<and>
      (\<forall>(h, x) \<in> set (ww_taken w). h < length (ww_written w) \<and> x = ww_written w ! h) \<and>
      (\<forall>p < unat (wm_head (ww_mem w)). p \<notin> fst ` set (ww_taken w) \<longrightarrow>
         p + unat (wo_size ob) < unat (wm_tail (ww_mem w)) + unat (wo_size ob) div 4))"
proof -
  obtain m ob where c: "wwf_Create header_size malloc_ok junk payload_size ring_buffer_size = Ret (Some (m, ob))"
    and i0: "wwf_inv ob (unat (RoundToPowerOf2 ring_buffer_size)) wd (wwf_start m)" using wwf_Create_ok [where malloc_ok = malloc_ok, OF assms] .
  let ?sz = "unat (RoundToPowerOf2 ring_buffer_size)"
  have "sorted_wrt (<) (map fst (ww_taken w)) \<and>
      (\<forall>(h, x) \<in> set (ww_taken w). h < length (ww_written w) \<and> x = ww_written w ! h) \<and>
      (\<forall>p < unat (wm_head (ww_mem w)). p \<notin> fst ` set (ww_taken w) \<longrightarrow>
         p + unat (wo_size ob) < unat (wm_tail (ww_mem w)) + unat (wo_size ob) div 4)"
    if r: "wwf_reach ob wd (wwf_start m) w" for w
  proof -
    have inv: "wwf_inv ob ?sz wd w" by (rule wwf_reach_inv [OF r i0])
    have T: "unat (wm_tail (ww_mem w)) \<le> length (ww_written w)" using inv by (cases "ww_w w") (auto simp: wwf_inv_def)
    have sz: "unat (wo_size ob) = ?sz" using inv wgeo_words(4) unfolding wwf_inv_def by blast
    have tk: "taken_ok ?sz (ww_written w) (unat (wm_head (ww_mem w))) (unat (wm_tail (ww_mem w))) (ww_taken w)"
      using inv by (simp add: wwf_inv_def)
    then have "\<forall>(h, x) \<in> set (ww_taken w). h < length (ww_written w) \<and> x = ww_written w ! h"
      using T unfolding taken_ok_def by fastforce
    then show ?thesis using tk unfolding taken_ok_def sz by blast
  qed
  then show ?thesis using c by blast
qed

theorem wwf_reads_exact_witness:
  "\<exists>m ob. wwf_Create 4096 (\<lambda>_. True) (\<lambda>_. [0 :: nat, 0]) 8 2 = Ret (Some (m, ob)) \<and>
    sorted_wrt (<) (map fst (ww_taken ((read_access ob ^^ 5) ((write_access ob ^^ 5) (wwf_start m\<lparr>ww_w := WLock [1, 2], ww_r := RBegin None\<rparr>)))))"
proof -
  obtain m ob where c: "wwf_Create 4096 (\<lambda>_. True) (\<lambda>_. [0 :: nat, 0]) 8 2 = Ret (Some (m, ob))"
    and s: "\<And>w. wwf_reach ob 2 (wwf_start m) w \<Longrightarrow> sorted_wrt (<) (map fst (ww_taken w))"
    using wwf_reads_exact [OF demo_fits, of "\<lambda>_. True" "\<lambda>_. [0, 0]" 2] by auto
  have many: "wwf_reach ob 2 (wwf_start m) ((read_access ob ^^ j) w)" "wwf_reach ob 2 (wwf_start m) ((write_access ob ^^ j) w)"
    if "wwf_reach ob 2 (wwf_start m) w" for j and w :: "nat wworld"
    using that by (induction j) (auto intro: wwf_go write_go read_go)
  have "wwf_reach ob 2 (wwf_start m) (wwf_start m\<lparr>ww_w := WLock [1, 2]\<rparr>)"
    by (rule wwf_go [OF wwf_begin write_call]) (simp_all add: wwf_start_def)
  then have "wwf_reach ob 2 (wwf_start m) (wwf_start m\<lparr>ww_w := WLock [1, 2], ww_r := RBegin None\<rparr>)"
    by (rule wwf_go [OF _ read_call]) (simp_all add: wwf_start_def)
  then show ?thesis using c s many by blast
qed

text \<open>
  C13: with the writer at rest a read returns: with an element when one was written at or after the position of the reader,
  also when the writer has gone round the ring in between, and without one otherwise.
\<close>

theorem wwf_read_returns:
  assumes "wwf_fits header_size payload_size ring_buffer_size" and "\<And>b. malloc_ok b" and "\<And>i. length (junk i) = wd"
  shows "\<exists>m ob. wwf_Create header_size malloc_ok junk payload_size ring_buffer_size = Ret (Some (m, ob)) \<and>
    (\<forall>w. wwf_reach ob wd (wwf_start m) w \<and> ww_w w = WIdle \<and> ww_r w = RIdle \<longrightarrow>
      (\<exists>j w'. (read_access ob ^^ j) (w\<lparr>ww_r := RBegin None\<rparr>) = w' \<and> ww_r w' = RIdle \<and>
        (if wm_head (ww_mem w) < wm_tail (ww_mem w) then \<exists>h x. ww_taken w' = ww_taken w @ [(h, x)] else ww_taken w' = ww_taken w)))"
proof -
  obtain m ob where c: "wwf_Create header_size malloc_ok junk payload_size ring_buffer_size = Ret (Some (m, ob))"
    and i0: "wwf_inv ob (unat (RoundToPowerOf2 ring_buffer_size)) wd (wwf_start m)" using wwf_Create_ok [where malloc_ok = malloc_ok, OF assms] .
  let ?sz = "unat (RoundToPowerOf2 ring_buffer_size)"
  have "\<exists>j w'. (read_access ob ^^ j) (w\<lparr>ww_r := RBegin None\<rparr>) = w' \<and> ww_r w' = RIdle \<and>
      (if wm_head (ww_mem w) < wm_tail (ww_mem w) then \<exists>h x. ww_taken w' = ww_taken w @ [(h, x)] else ww_taken w' = ww_taken w)"
    if r: "wwf_reach ob wd (wwf_start m) w" and q: "ww_w w = WIdle" "ww_r w = RIdle" for w
  proof -
    let ?w = "w\<lparr>ww_r := RBegin None\<rparr>"
    have "wwf_inv ob ?sz wd w" by (rule wwf_reach_inv [OF r i0])
    then have inv: "wwf_inv ob ?sz wd ?w" and T: "unat (wm_tail (ww_mem w)) = length (ww_written w)" using q by (auto simp: wwf_inv_def)
    show ?thesis
    proof (cases "wm_head (ww_mem w) < wm_tail (ww_mem w)")
      case True
      then have "unat (wm_head (ww_mem ?w)) < length (ww_written ?w)" using T by (simp add: word_less_nat_alt)
      then show ?thesis using read_returns [OF inv, of None] q True by simp
    next
      case False
      then have "length (ww_written ?w) \<le> unat (wm_head (ww_mem ?w))" using T by (simp add: word_less_nat_alt)
      then have "read_access ob ?w = ?w\<lparr>ww_r := RIdle\<rparr>" using q by (intro read_empty [OF inv]) simp_all
      then show ?thesis using False by (intro exI [of _ 1]) simp
    qed
  qed
  then show ?thesis using c by blast
qed

theorem wwf_read_returns_witness:
  "\<exists>m ob j. wwf_Create 4096 (\<lambda>_. True) (\<lambda>_. [0 :: nat, 0]) 8 2 = Ret (Some (m, ob)) \<and>
    ww_r ((read_access ob ^^ j) (wwf_start m\<lparr>ww_r := RBegin None\<rparr>)) = RIdle"
proof -
  obtain m ob where c: "wwf_Create 4096 (\<lambda>_. True) (\<lambda>_. [0 :: nat, 0]) 8 2 = Ret (Some (m, ob))"
    and s: "\<And>w. wwf_reach ob 2 (wwf_start m) w \<and> ww_w w = WIdle \<and> ww_r w = RIdle \<Longrightarrow>
      \<exists>j w'. (read_access ob ^^ j) (w\<lparr>ww_r := RBegin None\<rparr>) = w' \<and> ww_r w' = RIdle"
    using wwf_read_returns [OF demo_fits, of "\<lambda>_. True" "\<lambda>_. [0, 0]" 2] by (auto simp del: split_paired_Ex) blast
  then show ?thesis using s [of "wwf_start m"] wwf_begin [of ob 2 "wwf_start m"] by (auto simp: wwf_start_def)
qed

text \<open>
  C14: the recovery after a crash of the writer undoes the lock, not the write. A writer that stops in the middle of the
  third element, over the first, leaves a slot that \<^verbatim>\<open>RollBack\<close> declares to be the first element again: the reader gets a
  mixture of both as a success. A writer that stops between its last two accesses leaves a locked slot that \<^verbatim>\<open>RollBack\<close>
  does not look at: \<^verbatim>\<open>Read\<close> never returns.
\<close>

theorem wwf_rollback_wrong:
  "ww_written torn_world = [[1, 1], [2, 2], [3, 3]] \<and> ww_taken (read_after 5 torn_world) = [(0, [3, 1])] \<and>
   ww_written stuck_world = [[1, 1]] \<and> (\<forall>j. ww_r (read_after j stuck_world) = RBegin None)"
proof -
  have 1: "ww_written torn_world = [[1, 1], [2, 2], [3, 3]]" by code_simp
  have 2: "ww_taken (read_after 5 torn_world) = [(0, [3, 1])]" by code_simp
  have 3: "ww_written stuck_world = [[1, 1]]" by code_simp
  have "read_access demo_obj (stuck_world\<lparr>ww_r := RBegin None\<rparr>) = stuck_world\<lparr>ww_r := RBegin None\<rparr>" by code_simp
  then have "read_after j stuck_world = stuck_world\<lparr>ww_r := RBegin None\<rparr>" for j unfolding read_after_def by (induction j) simp_all
  then show ?thesis using 1 2 3 by simp
qed

end
