(* ===== verification/Unbounded_Queue.thy ===== *)
theory Unbounded_Queue
  imports Spsc_Queue "HOL-Library.Finite_Map"
begin

section \<open>The unbounded queue\<close>

text \<open>
  \<^verbatim>\<open>SPSCUnboundedQueue\<close> of \<^verbatim>\<open>include/adk/lock_free_unbounded_queue.h\<close>: a chain of nodes, each a
  block with room for \<^verbatim>\<open>node_size_\<close> elements. The producer fills the last node and links a new one
  when it is full, the consumer empties the first and gives it back; nodes given back are kept in a
  single-producer queue (\<^verbatim>\<open>cache_\<close>) while there is room and freed otherwise. The nodes live in an
  explicit heap, a finite map from addresses to nodes: a dereference of \<^verbatim>\<open>NULL\<close> or of a freed node, and
  an index outside a node's block, have an undefined outcome.
\<close>

type_synonym ptr = "nat option"

record 'a qnode =
  qn_next :: ptr
  qn_ring :: "'a list"

type_synonym 'a node_heap = "(nat, 'a qnode) fmap"

text \<open>
  What the queue takes from its surroundings: the allocator, what the constructors and \<^verbatim>\<open>memset\<close> leave
  in slot \<open>i\<close> of a new node, and \<^verbatim>\<open>sizeof(QElementType)\<close>.
\<close>

record 'a unb_env =
  ue_malloc :: "'a node_heap \<Rightarrow> u64 \<Rightarrow> ptr"
  ue_fresh :: "nat \<Rightarrow> 'a"
  ue_sizeof :: u64

record 'a unbounded =
  ub_heap :: "'a node_heap"
  ub_tail_ptr :: ptr
  ub_tail :: u64
  ub_producer_mask :: u64
  ub_head_threshold :: u64
  ub_head :: u64
  ub_head_ptr :: ptr
  ub_consumer_mask :: u64
  ub_consumer_bits :: nat
  ub_cache :: "ptr queue option"
  ub_node_size :: u32
  ub_element_size :: u32

definition unb_new :: "'a node_heap \<Rightarrow> 'a unbounded" where
  "unb_new h = \<lparr>ub_heap = h, ub_tail_ptr = None, ub_tail = 1, ub_producer_mask = 0, ub_head_threshold = 0,
     ub_head = 1, ub_head_ptr = None, ub_consumer_mask = 0, ub_consumer_bits = 0, ub_cache = None,
     ub_node_size = 0, ub_element_size = 0\<rparr>"

definition node_at :: "'a node_heap \<Rightarrow> ptr \<Rightarrow> (nat \<times> 'a qnode) run" where
  "node_at h p = (case p of None \<Rightarrow> Undef
     | Some a \<Rightarrow> (case fmlookup h a of None \<Rightarrow> Undef | Some nd \<Rightarrow> Ret (a, nd)))"

subsection \<open>Nodes\<close>

text \<open>
  The construction loop of \<^verbatim>\<open>AllocateNewNode\<close> writes one element at every multiple of
  \<^verbatim>\<open>element_size_\<close> (a 32-bit product); all of them have to lie in the block.
\<close>

definition constructs_in :: "u64 \<Rightarrow> u32 \<Rightarrow> u32 \<Rightarrow> nat \<Rightarrow> bool" where
  "constructs_in sz esz nsz bytes = list_all (\<lambda>i. unat (of_nat i * esz) + unat sz \<le> bytes) [0..<unat nsz]"

definition unb_AllocateNewNode :: "'a unb_env \<Rightarrow> 'a unbounded \<Rightarrow> ('a unbounded \<times> ptr) run" where
  "unb_AllocateNewNode env s =
     (let bytes = ub_node_size s * ub_element_size s
      in case ue_malloc env (ub_heap s) (16 + ucast bytes) of
           None \<Rightarrow> Undef
         | Some a \<Rightarrow>
             if constructs_in (ue_sizeof env) (ub_element_size s) (ub_node_size s) (unat bytes)
             then Ret (s\<lparr>ub_heap := fmupd a \<lparr>qn_next = None,
                      qn_ring = map (ue_fresh env) [0..<unat bytes div unat (ue_sizeof env)]\<rparr> (ub_heap s)\<rparr>, Some a)
             else Undef)"

definition unb_NewNode :: "'a unb_env \<Rightarrow> 'a unbounded \<Rightarrow> ('a unbounded \<times> ptr) run" where
  "unb_NewNode env s =
     (case ub_cache s of None \<Rightarrow> Undef
      | Some c \<Rightarrow> rbind (spsc_Pop 8 c) (\<lambda>(c', r).
          let s1 = s\<lparr>ub_cache := Some c'\<rparr>
          in case r of
               Inl _ \<Rightarrow> unb_AllocateNewNode env s1
             | Inr p \<Rightarrow> rbind (node_at (ub_heap s1) p) (\<lambda>(a, nd).
                 Ret (s1\<lparr>ub_heap := fmupd a (nd\<lparr>qn_next := None\<rparr>) (ub_heap s1)\<rparr>, p))))"

definition unb_DeleteNode :: "ptr \<Rightarrow> 'a unbounded \<Rightarrow> 'a unbounded run" where
  "unb_DeleteNode p s =
     (case ub_cache s of None \<Rightarrow> Undef
      | Some c \<Rightarrow> rbind (spsc_Push 8 c p) (\<lambda>(c', ec).
          let s1 = s\<lparr>ub_cache := Some c'\<rparr>
          in if ec = kSuccess then Ret s1
             else rbind (node_at (ub_heap s1) p) (\<lambda>(a, nd). Ret (s1\<lparr>ub_heap := fmdrop a (ub_heap s1)\<rparr>))))"

subsection \<open>Construction\<close>

text \<open>The loop of \<^verbatim>\<open>Init\<close> that fills the cache with \<open>n\<close> more nodes.\<close>

primrec unb_fill :: "'a unb_env \<Rightarrow> nat \<Rightarrow> 'a unbounded \<Rightarrow> 'a unbounded run" where
  "unb_fill env 0 s = Ret s"
| "unb_fill env (Suc n) s =
     rbind (unb_AllocateNewNode env s) (\<lambda>(s1, p).
     case ub_cache s1 of None \<Rightarrow> Undef
     | Some c \<Rightarrow> rbind (spsc_Push 8 c p) (\<lambda>(c', ec).
         rassert (ec = kSuccess) (unb_fill env n (s1\<lparr>ub_cache := Some c'\<rparr>))))"

definition unb_Init ::
  "'a unb_env \<Rightarrow> platform \<Rightarrow> (u64 \<Rightarrow> bool) \<Rightarrow> (nat \<Rightarrow> ptr) \<Rightarrow> string \<Rightarrow> u32 \<Rightarrow> u32 \<Rightarrow> u32 \<Rightarrow>
   'a unbounded \<Rightarrow> ('a unbounded \<times> ErrorCode) run" where
  "unb_Init env plat memalign_ok junk name cache_size node_size reserve_size s =
     (let nsz = RoundToPowerOf2 node_size; msk = (ucast (nsz - 1) :: u64)
      in rbind (GetBits nsz) (\<lambda>bits.
         let s1 = s\<lparr>ub_node_size := nsz, ub_producer_mask := msk, ub_consumer_mask := msk,
                ub_consumer_bits := bits, ub_element_size := ucast (ue_sizeof env + ucast reserve_size)\<rparr>
         in rbind (mpsc_Create plat memalign_ok junk name 8 cache_size) (\<lambda>r.
            case r of None \<Rightarrow> Ret (s1\<lparr>ub_cache := None\<rparr>, kNoMemory)
            | Some c \<Rightarrow>
                rbind (unb_fill env (unat cache_size) (s1\<lparr>ub_cache := Some c\<rparr>)) (\<lambda>s2.
                rbind (unb_NewNode env s2) (\<lambda>(s3, p).
                Ret (s3\<lparr>ub_head_ptr := p, ub_tail_ptr := p\<rparr>, kSuccess))))))"

definition unb_Create ::
  "'a unb_env \<Rightarrow> platform \<Rightarrow> (u64 \<Rightarrow> bool) \<Rightarrow> (nat \<Rightarrow> ptr) \<Rightarrow> string \<Rightarrow> u32 \<Rightarrow> u32 \<Rightarrow> u32 \<Rightarrow>
   'a node_heap \<Rightarrow> 'a unbounded option run" where
  "unb_Create env plat memalign_ok junk name cache_size node_size reserve_size h =
     rbind (unb_Init env plat memalign_ok junk name cache_size node_size reserve_size (unb_new h)) (\<lambda>(s, ec).
     if ec \<noteq> kSuccess then Ret None else Ret (Some s))"

subsection \<open>The producer\<close>

text \<open>
  \<^verbatim>\<open>&tail_ptr_->ring[i]\<close> is the pair of a node and an index. \<open>unb_store\<close> and \<open>unb_load\<close> are the
  assignments through such a pointer, in \<^verbatim>\<open>Push\<close>, in \<^verbatim>\<open>Pop\<close> and by the callers of the entry calls.
\<close>

definition entry_at :: "'a unbounded \<Rightarrow> ptr \<Rightarrow> u64 \<Rightarrow> (nat \<times> nat) run" where
  "entry_at s p i = rbind (node_at (ub_heap s) p) (\<lambda>(a, nd). Ret (a, unat i))"

definition unb_load :: "nat \<times> nat \<Rightarrow> 'a unbounded \<Rightarrow> 'a run" where
  "unb_load e s = rbind (node_at (ub_heap s) (Some (fst e))) (\<lambda>(a, nd). aget (qn_ring nd) (snd e))"

definition unb_store :: "nat \<times> nat \<Rightarrow> 'a \<Rightarrow> 'a unbounded \<Rightarrow> 'a unbounded run" where
  "unb_store e x s = rbind (node_at (ub_heap s) (Some (fst e))) (\<lambda>(a, nd).
     rbind (aset (qn_ring nd) (snd e) x) (\<lambda>r. Ret (s\<lparr>ub_heap := fmupd a (nd\<lparr>qn_ring := r\<rparr>) (ub_heap s)\<rparr>)))"

definition unb_AllocEntry :: "'a unbounded \<Rightarrow> (nat \<times> nat) run" where
  "unb_AllocEntry s = entry_at s (ub_tail_ptr s) (ub_tail s AND ub_producer_mask s)"

definition unb_PostEntry :: "'a unb_env \<Rightarrow> 'a unbounded \<Rightarrow> ('a unbounded \<times> ErrorCode) run" where
  "unb_PostEntry env s =
     (if ub_tail s AND ub_producer_mask s = ub_producer_mask s
      then rbind (unb_NewNode env s) (\<lambda>(s1, p).
           rbind (node_at (ub_heap s1) (ub_tail_ptr s1)) (\<lambda>(a, nd).
           let s2 = s1\<lparr>ub_heap := fmupd a (nd\<lparr>qn_next := p\<rparr>) (ub_heap s1)\<rparr>
           in if p = None then Ret (s2, kNoMemory)
              else Ret (s2\<lparr>ub_tail_ptr := p, ub_tail := ub_tail s2 + 1\<rparr>, kSuccess)))
      else Ret (s\<lparr>ub_tail := ub_tail s + 1\<rparr>, kSuccess))"

definition unb_Push :: "'a unb_env \<Rightarrow> 'a unbounded \<Rightarrow> 'a \<Rightarrow> ('a unbounded \<times> ErrorCode) run" where
  "unb_Push env s push_element =
     (let ring_index = ub_tail s AND ub_producer_mask s
      in rbind (entry_at s (ub_tail_ptr s) ring_index) (\<lambda>e.
         rbind (unb_store e push_element s) (\<lambda>s0.
         if ring_index = ub_producer_mask s0
         then rbind (unb_NewNode env s0) (\<lambda>(s1, p).
              rbind (node_at (ub_heap s1) (ub_tail_ptr s1)) (\<lambda>(a, nd).
              let s2 = s1\<lparr>ub_heap := fmupd a (nd\<lparr>qn_next := p\<rparr>) (ub_heap s1)\<rparr>
              in if p = None then Ret (s2, kNoMemory)
                 else Ret (s2\<lparr>ub_tail_ptr := p, ub_tail := ub_tail s2 + 1\<rparr>, kSuccess)))
         else Ret (s0\<lparr>ub_tail := ub_tail s0 + 1\<rparr>, kSuccess))))"

subsection \<open>The consumer\<close>

definition unb_HaveData :: "'a unbounded \<Rightarrow> 'a unbounded \<times> bool" where
  "unb_HaveData s =
     (if ub_head_threshold s \<le> ub_head s
      then (let s1 = s\<lparr>ub_head_threshold := ub_tail s\<rparr> in (s1, \<not> ub_head_threshold s1 \<le> ub_head s1))
      else (s, True))"

definition unb_FreeEntry :: "'a unbounded \<Rightarrow> 'a unbounded run" where
  "unb_FreeEntry s =
     (let ring_index = ub_head s AND ub_consumer_mask s; s1 = s\<lparr>ub_head := ub_head s + 1\<rparr>
      in if ring_index = ub_consumer_mask s1
         then rbind (node_at (ub_heap s1) (ub_head_ptr s1)) (\<lambda>(a, nd).
              rassert (qn_next nd \<noteq> None) (unb_DeleteNode (ub_head_ptr s1) (s1\<lparr>ub_head_ptr := qn_next nd\<rparr>)))
         else Ret s1)"

definition unb_Pop :: "'a unbounded \<Rightarrow> ('a unbounded \<times> (ErrorCode + 'a)) run" where
  "unb_Pop s =
     (case unb_HaveData s of
        (s1, False) \<Rightarrow> Ret (s1, Inl kQueueEmpty)
      | (s1, True) \<Rightarrow>
          rbind (entry_at s1 (ub_head_ptr s1) (ub_head s1 AND ub_consumer_mask s1)) (\<lambda>e.
          rbind (unb_load e s1) (\<lambda>x.
          rbind (unb_FreeEntry s1) (\<lambda>s2. Ret (s2, Inr x)))))"

definition unb_WaitEntry :: "'a unbounded \<Rightarrow> ('a unbounded \<times> (nat \<times> nat) option) run" where
  "unb_WaitEntry s =
     (case unb_HaveData s of
        (s1, False) \<Rightarrow> Ret (s1, None)
      | (s1, True) \<Rightarrow>
          rbind (entry_at s1 (ub_head_ptr s1) (ub_head s1 AND ub_consumer_mask s1)) (\<lambda>e. Ret (s1, Some e)))"

definition unb_Head :: "'a unbounded \<Rightarrow> ('a unbounded \<times> (nat \<times> nat) option) run" where
  "unb_Head s =
     (let (s1, some) = unb_HaveData s
      in if \<not> some then Ret (s1, None)
         else rbind (entry_at s1 (ub_head_ptr s1) (ub_head s1 AND ub_consumer_mask s1)) (\<lambda>e. Ret (s1, Some e)))"

definition unb_PopHead :: "'a unbounded \<Rightarrow> ('a unbounded \<times> ErrorCode) run" where
  "unb_PopHead s = rbind (unb_FreeEntry s) (\<lambda>s1. Ret (s1, kSuccess))"

subsection \<open>Access by position\<close>

text \<open>
  The loop of \<^verbatim>\<open>ElementAt\<close> that walks \<open>nr\<close> nodes ahead. Its counter has 32 bits and \<open>nr\<close> has 64, so
  it need not end: \<open>None\<close> is a walk that never returns.
\<close>

partial_function (option) unb_seek :: "'a node_heap \<Rightarrow> u32 \<Rightarrow> u64 \<Rightarrow> ptr \<Rightarrow> ptr run option" where
  "unb_seek h i nr_nodes p =
     (if ucast i < nr_nodes
      then (case node_at h p of Ret nd \<Rightarrow> unb_seek h (i + 1) nr_nodes (qn_next (snd nd)) | _ \<Rightarrow> Some Undef)
      else Some (Ret p))"

definition unb_ElementAt :: "u64 \<Rightarrow> 'a unbounded \<Rightarrow> ('a unbounded \<times> (nat \<times> nat) option) run" where
  "unb_ElementAt index s =
     (if index < ub_head s then Ret (s, None)
      else let s1 = (if ub_head_threshold s \<le> index then s\<lparr>ub_head_threshold := ub_tail s\<rparr> else s)
           in if ub_head_threshold s1 \<le> index then Ret (s1, None)
              else let msk = ub_consumer_mask s1; bits = ub_consumer_bits s1;
                       head_nodes = drop_bit bits (ub_head s1 AND NOT msk);
                       nr_nodes = drop_bit bits (index AND NOT msk) - head_nodes
                   in case unb_seek (ub_heap s1) 0 nr_nodes (ub_head_ptr s1) of
                        None \<Rightarrow> Hang
                      | Some r \<Rightarrow> rbind r (\<lambda>p. rbind (entry_at s1 p (index AND msk)) (\<lambda>e. Ret (s1, Some e))))"

lemma unb_store_keeps:
  assumes "unb_store e x s = Ret s'"
  shows "s' = s\<lparr>ub_heap := ub_heap s'\<rparr>"
  using assms by (auto simp: unb_store_def rbind_Ret_iff)

text \<open>
  \<^verbatim>\<open>ForeachElement\<close>: the callback has a state of its own, may write the element and says whether to
  go on. The jump back into the loop after the second read of \<^verbatim>\<open>tail_\<close> is the recursive call of the
  last line.
\<close>

function unb_traverse ::
  "('c \<Rightarrow> 'a \<Rightarrow> 'c \<times> 'a \<times> bool) \<Rightarrow> u64 \<Rightarrow> ptr \<Rightarrow> 'c \<Rightarrow> 'a unbounded \<Rightarrow> ('a unbounded \<times> 'c) run" where
  "unb_traverse callback index p c s =
     (if index < ub_head_threshold s
      then if p = None then AssertFail
           else let ring_index = index AND ub_consumer_mask s
                in rbind (entry_at s p ring_index) (\<lambda>e.
                   rbind (unb_load e s) (\<lambda>x.
                   rbind (unb_store e (fst (snd (callback c x))) s) (\<lambda>s1.
                   if \<not> snd (snd (callback c x)) then Ret (s1, fst (callback c x))
                   else rbind (if ub_consumer_mask s1 = ring_index
                               then rbind (node_at (ub_heap s1) p) (\<lambda>nd. Ret (qn_next (snd nd))) else Ret p) (\<lambda>p'.
                        unb_traverse callback (index + 1) p' (fst (callback c x)) s1))))
      else let s1 = s\<lparr>ub_head_threshold := ub_tail s\<rparr>
           in if index < ub_head_threshold s1 then unb_traverse callback index p c s1 else Ret (s1, c))"
  by pat_completeness auto
termination
proof (relation "(\<lambda>(_, i, _, _, s). max (unat (ub_tail s)) (unat (ub_head_threshold s)) - unat i)
    <*mlex*> measure (\<lambda>(_, i, _, _, s). if i < ub_head_threshold s then 0 else 1)", goal_cases)
  case 1
  then show ?case by (intro wf_mlex) simp
next
  case (2 callback index p c s ring_index e x s1 p')
  have "unat (index + 1) = unat index + 1"
    using 2(1) unat_less64 [of "ub_head_threshold s"] by (intro unat_inc64) (simp add: word_less_nat_alt)
  moreover have "ub_tail s1 = ub_tail s" "ub_head_threshold s1 = ub_head_threshold s"
    using unb_store_keeps [OF 2(6)] by (metis unbounded.select_convs unbounded.surjective unbounded.update_convs)+
  ultimately show ?case using 2(1) by (intro mlex_less) (auto simp: word_less_nat_alt)
next
  case (3 callback index p c s s1)
  then show ?case by (intro mlex_leq) (auto simp: word_less_nat_alt not_less)
qed

declare unb_traverse.simps [simp del]

definition unb_ForeachElement ::
  "('c \<Rightarrow> 'a \<Rightarrow> 'c \<times> 'a \<times> bool) \<Rightarrow> 'c \<Rightarrow> 'a unbounded \<Rightarrow> ('a unbounded \<times> 'c) run" where
  "unb_ForeachElement callback c s =
     unb_traverse callback (ub_head s) (ub_head_ptr s) c (s\<lparr>ub_head_threshold := ub_tail s\<rparr>)"

section \<open>The chain of nodes\<close>

text \<open>
  \<open>node_ok\<close>: a live node with room for \<open>N\<close> elements. \<open>pool\<close>: the nodes \<open>ns\<close> of the chain and the
  cached nodes \<open>cs\<close> are live and pairwise different, and the geometry serves the allocator.
\<close>

definition node_ok :: "nat \<Rightarrow> 'a node_heap \<Rightarrow> nat \<Rightarrow> bool" where
  "node_ok N h a \<longleftrightarrow> (\<exists>nd. fmlookup h a = Some nd \<and> N \<le> length (qn_ring nd))"

definition malloc_ok :: "'a unb_env \<Rightarrow> bool" where
  "malloc_ok env \<longleftrightarrow> (\<forall>h b. \<exists>a. ue_malloc env h b = Some a \<and> fmlookup h a = None)"

definition unb_geo :: "'a unb_env \<Rightarrow> nat \<Rightarrow> 'a unbounded \<Rightarrow> bool" where
  "unb_geo env k s \<longleftrightarrow> malloc_ok env \<and> k \<le> 31 \<and> ub_node_size s = 2 ^ k \<and> ub_producer_mask s = 2 ^ k - 1 \<and>
     ub_consumer_mask s = 2 ^ k - 1 \<and> ub_consumer_bits s = k \<and> 0 < unat (ue_sizeof env) \<and>
     unat (ue_sizeof env) \<le> unat (ub_element_size s) \<and> 2 ^ k * unat (ub_element_size s) < 2 ^ 32"

definition unb_pool :: "'a unb_env \<Rightarrow> nat \<Rightarrow> nat \<Rightarrow> 'a unbounded \<Rightarrow> nat list \<Rightarrow> nat list \<Rightarrow> bool" where
  "unb_pool env k cb s ns cs \<longleftrightarrow> unb_geo env k s \<and>
     (\<exists>c. ub_cache s = Some c \<and> mpsc_exact 8 c \<and> mpsc_elems c = map Some cs \<and> cb \<le> mpsc_budget c) \<and>
     distinct (ns @ cs) \<and> (\<forall>a\<in>set (ns @ cs). node_ok (2 ^ k) (ub_heap s) a)"

text \<open>The parts of the state that the node calls leave alone, and the nodes they do not touch.\<close>

definition unb_frame :: "nat list \<Rightarrow> 'a unbounded \<Rightarrow> 'a unbounded \<Rightarrow> bool" where
  "unb_frame ns s s' \<longleftrightarrow> s' = s\<lparr>ub_heap := ub_heap s', ub_cache := ub_cache s'\<rparr> \<and>
     (\<forall>a\<in>set ns. fmlookup (ub_heap s') a = fmlookup (ub_heap s) a)"

lemma unb_frameD:
  assumes "unb_frame ns s s'"
  shows "ub_tail_ptr s' = ub_tail_ptr s" "ub_tail s' = ub_tail s" "ub_producer_mask s' = ub_producer_mask s"
    "ub_head_threshold s' = ub_head_threshold s" "ub_head s' = ub_head s" "ub_head_ptr s' = ub_head_ptr s"
    "ub_consumer_mask s' = ub_consumer_mask s" "ub_consumer_bits s' = ub_consumer_bits s"
    "ub_node_size s' = ub_node_size s" "ub_element_size s' = ub_element_size s"
    "a \<in> set ns \<Longrightarrow> fmlookup (ub_heap s') a = fmlookup (ub_heap s) a"
proof -
  have e: "s' = s\<lparr>ub_heap := ub_heap s', ub_cache := ub_cache s'\<rparr>" using assms by (simp add: unb_frame_def)
  show "ub_tail_ptr s' = ub_tail_ptr s" "ub_tail s' = ub_tail s" "ub_producer_mask s' = ub_producer_mask s"
    "ub_head_threshold s' = ub_head_threshold s" "ub_head s' = ub_head s" "ub_head_ptr s' = ub_head_ptr s"
    "ub_consumer_mask s' = ub_consumer_mask s" "ub_consumer_bits s' = ub_consumer_bits s"
    "ub_node_size s' = ub_node_size s" "ub_element_size s' = ub_element_size s"
    by (subst e, simp)+
  show "a \<in> set ns \<Longrightarrow> fmlookup (ub_heap s') a = fmlookup (ub_heap s) a"
    using assms by (simp add: unb_frame_def)
qed

lemma unb_frame_trans:
  assumes f: "unb_frame ns s s1" "unb_frame ns s1 s2"
  shows "unb_frame ns s s2"
proof -
  have "s2 = s\<lparr>ub_heap := ub_heap s2, ub_cache := ub_cache s2\<rparr>"
    by (rule unbounded.equality) (simp_all add: unb_frameD(1-10) [OF f(1)] unb_frameD(1-10) [OF f(2)])
  moreover have "\<forall>a\<in>set ns. fmlookup (ub_heap s2) a = fmlookup (ub_heap s) a"
    using unb_frameD(11) [OF f(1)] unb_frameD(11) [OF f(2)] by simp
  ultimately show ?thesis unfolding unb_frame_def by blast
qed

lemma unb_frame_mono: "unb_frame ns s s' \<Longrightarrow> set ns' \<subseteq> set ns \<Longrightarrow> unb_frame ns' s s'"
  unfolding unb_frame_def by blast

lemma node_ok_cong: "fmlookup h' a = fmlookup h a \<Longrightarrow> node_ok N h' a = node_ok N h a"
  by (simp add: node_ok_def)

lemma node_ok_upd:
  "N \<le> length (qn_ring nd) \<Longrightarrow> node_ok N h b \<or> b = a \<Longrightarrow> node_ok N (fmupd a nd h) b"
  by (auto simp: node_ok_def)

lemma node_at_Some [simp]: "fmlookup h a = Some nd \<Longrightarrow> node_at h (Some a) = Ret (a, nd)"
  by (simp add: node_at_def)

lemma unb_poolD:
  assumes "unb_pool env k cb s ns cs"
  shows "unb_geo env k s" "distinct ns" "distinct cs" "set ns \<inter> set cs = {}"
    "a \<in> set ns \<union> set cs \<Longrightarrow> node_ok (2 ^ k) (ub_heap s) a"
  using assms by (auto simp: unb_pool_def)

lemma constructs_in_ok:
  assumes "2 ^ k * unat esz < 2 ^ 32" "k \<le> 31" "unat sz \<le> unat esz"
  shows "constructs_in sz esz (2 ^ k) (2 ^ k * unat esz)"
proof -
  have "unat (of_nat i * esz) + unat sz \<le> 2 ^ k * unat esz" if "i < 2 ^ k" for i
  proof -
    have i: "Suc i * unat esz \<le> 2 ^ k * unat esz" using that by (intro mult_le_mono1) simp
    have "(2::nat) ^ k < 2 ^ 32" using assms(2) by (intro power_strict_increasing) auto
    then have u: "unat (of_nat i :: u32) = i" using that by (intro unat_of_nat32) simp
    then have "unat (of_nat i * esz) = i * unat esz"
      using i assms(1) by (simp add: unat_word_ariths)
    then show ?thesis using i assms(3) by simp
  qed
  then show ?thesis using assms(2) by (simp add: constructs_in_def list_all_iff)
qed

lemma unb_AllocateNewNode_ok:
  assumes p: "unb_pool env k cb s ns cs"
  shows "\<exists>s' a. unb_AllocateNewNode env s = Ret (s', Some a) \<and> a \<notin> set (ns @ cs) \<and> unb_frame (ns @ cs) s s' \<and>
    ub_cache s' = ub_cache s \<and> node_ok (2 ^ k) (ub_heap s') a"
proof -
  from unb_poolD(1) [OF p] have g: "malloc_ok env" "k \<le> 31" "ub_node_size s = 2 ^ k" "0 < unat (ue_sizeof env)"
    "unat (ue_sizeof env) \<le> unat (ub_element_size s)" "2 ^ k * unat (ub_element_size s) < 2 ^ 32"
    by (auto simp: unb_geo_def)
  from g(1) obtain a where a: "ue_malloc env (ub_heap s) (16 + ucast (ub_node_size s * ub_element_size s)) = Some a"
    "fmlookup (ub_heap s) a = None" by (auto simp: malloc_ok_def)
  have b: "unat (ub_node_size s * ub_element_size s) = 2 ^ k * unat (ub_element_size s)"
    using g by (simp add: unat_word_ariths)
  have "2 ^ k * unat (ue_sizeof env) \<le> 2 ^ k * unat (ub_element_size s)" using g(5) by simp
  then have r: "2 ^ k \<le> 2 ^ k * unat (ub_element_size s) div unat (ue_sizeof env)"
    using g(4) by (simp add: less_eq_div_iff_mult_less_eq)
  have n: "a \<notin> set (ns @ cs)" using a(2) unb_poolD(5) [OF p, of a] by (auto simp: node_ok_def)
  define nd where "nd = \<lparr>qn_next = None, qn_ring = map (ue_fresh env)
    [0..<2 ^ k * unat (ub_element_size s) div unat (ue_sizeof env)]\<rparr>"
  have "unb_AllocateNewNode env s = Ret (s\<lparr>ub_heap := fmupd a nd (ub_heap s)\<rparr>, Some a)"
    using a(1) constructs_in_ok [OF g(6,2,5)] unfolding unb_AllocateNewNode_def Let_def b
    by (simp add: g(3) nd_def)
  moreover have "node_ok (2 ^ k) (fmupd a nd (ub_heap s)) a" using r by (intro node_ok_upd) (auto simp: nd_def)
  moreover have "unb_frame (ns @ cs) s (s\<lparr>ub_heap := fmupd a nd (ub_heap s)\<rparr>)" using n by (auto simp: unb_frame_def)
  ultimately show ?thesis using n by fastforce
qed

lemma unb_geo_frame: "unb_frame ns s s' \<Longrightarrow> unb_geo env k s' = unb_geo env k s"
  using unb_frameD [of ns s s'] by (simp add: unb_geo_def)

lemma unb_poolI:
  assumes "unb_geo env k s" "ub_cache s = Some c" "mpsc_exact 8 c" "mpsc_elems c = map Some cs" "cb \<le> mpsc_budget c"
    and "distinct (ns @ cs)" "\<And>a. a \<in> set (ns @ cs) \<Longrightarrow> node_ok (2 ^ k) (ub_heap s) a"
  shows "unb_pool env k cb s ns cs"
  unfolding unb_pool_def using assms by blast

lemma unb_pool_cache:
  assumes "unb_pool env k cb s ns cs"
  obtains c where "ub_cache s = Some c" "mpsc_exact 8 c" "mpsc_elems c = map Some cs" "cb \<le> mpsc_budget c"
  using assms unfolding unb_pool_def by blast

lemma unb_pool_alloc:
  assumes p: "unb_pool env k cb s ns cs"
  obtains s' a where "unb_AllocateNewNode env s = Ret (s', Some a)" "unb_pool env k cb s' (ns @ [a]) cs"
    "unb_frame (ns @ cs) s s'" "ub_cache s' = ub_cache s"
proof -
  obtain s' a where a: "unb_AllocateNewNode env s = Ret (s', Some a)" "a \<notin> set (ns @ cs)" "unb_frame (ns @ cs) s s'"
    "ub_cache s' = ub_cache s" "node_ok (2 ^ k) (ub_heap s') a"
    using unb_AllocateNewNode_ok [OF p] by blast
  obtain c where c: "ub_cache s = Some c" "mpsc_exact 8 c" "mpsc_elems c = map Some cs" "cb \<le> mpsc_budget c"
    using unb_pool_cache [OF p] .
  have "node_ok (2 ^ k) (ub_heap s') b" if "b \<in> set (ns @ cs)" for b
    using unb_poolD(5) [OF p] that node_ok_cong [OF unb_frameD(11) [OF a(3) that]] by auto
  then have "unb_pool env k cb s' (ns @ [a]) cs"
    using c a unb_poolD(1-4) [OF p] unb_geo_frame [OF a(3)] by (intro unb_poolI [where c = c]) auto
  with a that show thesis by blast
qed

lemma unb_NewNode_ok:
  assumes p: "unb_pool env k cb s ns cs"
  obtains s' a cs' where "unb_NewNode env s = Ret (s', Some a)" "unb_pool env k cb s' (ns @ [a]) cs'" "unb_frame ns s s'"
proof -
  obtain c where c: "ub_cache s = Some c" "mpsc_exact 8 c" "mpsc_elems c = map Some cs" "cb \<le> mpsc_budget c"
    using unb_pool_cache [OF p] .
  show thesis
  proof (cases cs)
    case Nil
    obtain c' where c': "spsc_Pop 8 c = Ret (c', Inl kQueueEmpty)" "mpsc_exact 8 c'" "mpsc_elems c' = []"
      "mpsc_budget c' = mpsc_budget c"
      using spsc.pop_none [OF c(2)] c(3) Nil by auto
    define s1 where "s1 = s\<lparr>ub_cache := Some c'\<rparr>"
    have f1: "unb_frame ns s s1" by (simp add: unb_frame_def s1_def)
    have "unb_pool env k cb s1 ns []"
      using c' c(4) unb_poolD [OF p] unb_geo_frame [OF f1] by (intro unb_poolI [where c = c']) (auto simp: s1_def)
    then obtain s' a where a: "unb_AllocateNewNode env s1 = Ret (s', Some a)" "unb_pool env k cb s' (ns @ [a]) []"
      "unb_frame (ns @ []) s1 s'" by (rule unb_pool_alloc)
    have "unb_NewNode env s = Ret (s', Some a)"
      using c(1) c'(1) a(1) by (simp add: unb_NewNode_def s1_def)
    moreover have "unb_frame ns s s'" using unb_frame_trans [OF f1] a(3) by simp
    ultimately show thesis using a(2) that by blast
  next
    case (Cons y ys)
    obtain c' where c': "spsc_Pop 8 c = Ret (c', Inr (Some y))" "mpsc_exact 8 c'" "mpsc_elems c' = map Some ys"
      "mpsc_budget c' = mpsc_budget c"
      using spsc.pop_some [OF c(2)] c(3) Cons by auto
    obtain nd where nd: "fmlookup (ub_heap s) y = Some nd" "2 ^ k \<le> length (qn_ring nd)"
      using unb_poolD(5) [OF p, of y] Cons by (auto simp: node_ok_def)
    define s1 where "s1 = s\<lparr>ub_heap := fmupd y (nd\<lparr>qn_next := None\<rparr>) (ub_heap s), ub_cache := Some c'\<rparr>"
    have f1: "unb_frame ns s s1" using unb_poolD(4) [OF p] Cons by (auto simp: unb_frame_def s1_def)
    have "node_ok (2 ^ k) (ub_heap s1) b" if "b \<in> set ((ns @ [y]) @ ys)" for b
      using unb_poolD(5) [OF p, of b] that nd(2) Cons by (auto simp: s1_def intro!: node_ok_upd)
    then have "unb_pool env k cb s1 (ns @ [y]) ys"
      using c' c(4) unb_poolD [OF p] unb_geo_frame [OF f1] Cons by (intro unb_poolI [where c = c']) (auto simp: s1_def)
    moreover have "unb_NewNode env s = Ret (s1, Some y)"
      using c(1) c'(1) nd(1) by (simp add: unb_NewNode_def s1_def)
    ultimately show thesis using f1 that by blast
  qed
qed

lemma unb_DeleteNode_ok:
  assumes p: "unb_pool env k (Suc cb) s (a # ns) cs"
  obtains s' cs' where "unb_DeleteNode (Some a) s = Ret s'" "unb_pool env k cb s' ns cs'" "unb_frame ns s s'"
proof -
  obtain c where c: "ub_cache s = Some c" "mpsc_exact 8 c" "mpsc_elems c = map Some cs" "Suc cb \<le> mpsc_budget c"
    using unb_pool_cache [OF p] .
  show thesis
  proof (cases "length (mpsc_elems c) < mpsc_cap c")
    case True
    have "0 < mpsc_budget c" using c(4) by simp
    from spsc.push_room [OF c(2) this True] obtain c' where
      c': "spsc_Push 8 c (Some a) = Ret (c', kSuccess)" "mpsc_exact 8 c'" "mpsc_elems c' = mpsc_elems c @ [Some a]"
      "Suc (mpsc_budget c') = mpsc_budget c" by blast
    define s1 where "s1 = s\<lparr>ub_cache := Some c'\<rparr>"
    have f1: "unb_frame ns s s1" by (simp add: unb_frame_def s1_def)
    have "unb_pool env k cb s1 ns (cs @ [a])"
      using c' c(3,4) unb_poolD [OF p] unb_geo_frame [OF f1] by (intro unb_poolI [where c = c']) (auto simp: s1_def)
    moreover have "unb_DeleteNode (Some a) s = Ret s1"
      using c(1) c'(1) by (simp add: unb_DeleteNode_def s1_def)
    ultimately show thesis using f1 that by blast
  next
    case False
    then have "length (mpsc_elems c) = mpsc_cap c" using spsc.length_le_cap [OF c(2)] by simp
    from spsc.push_full [OF c(2) this] obtain c' where
      c': "spsc_Push 8 c (Some a) = Ret (c', kQueueFull)" "mpsc_exact 8 c'" "mpsc_elems c' = mpsc_elems c"
      "mpsc_budget c' = mpsc_budget c" by blast
    obtain nd where nd: "fmlookup (ub_heap s) a = Some nd"
      using unb_poolD(5) [OF p, of a] by (auto simp: node_ok_def)
    define s1 where "s1 = s\<lparr>ub_heap := fmdrop a (ub_heap s), ub_cache := Some c'\<rparr>"
    have f1: "unb_frame ns s s1" using unb_poolD(2) [OF p] by (auto simp: unb_frame_def s1_def)
    have "node_ok (2 ^ k) (ub_heap s1) b" if "b \<in> set (ns @ cs)" for b
      using unb_poolD(2,4,5) [OF p] that by (auto simp: s1_def node_ok_def)
    then have "unb_pool env k cb s1 ns cs"
      using c' c(3,4) unb_poolD(1-4) [OF p] unb_geo_frame [OF f1] by (intro unb_poolI [where c = c']) (auto simp: s1_def)
    moreover have "unb_DeleteNode (Some a) s = Ret s1"
      using c(1) c'(1) nd by (simp add: unb_DeleteNode_def s1_def)
    ultimately show thesis using f1 that by blast
  qed
qed

lemma unb_fill_ok:
  assumes "unb_pool env k (n + cb) s [] cs" and "\<And>c. ub_cache s = Some c \<Longrightarrow> length cs + n \<le> mpsc_cap c"
  shows "\<exists>s' cs'. unb_fill env n s = Ret s' \<and> unb_pool env k cb s' [] cs' \<and> unb_frame [] s s'"
  using assms
proof (induction n arbitrary: s cs)
  case 0
  then show ?case by (auto simp: unb_frame_def)
next
  case (Suc n)
  obtain s1 a where a: "unb_AllocateNewNode env s = Ret (s1, Some a)" "unb_pool env k (Suc n + cb) s1 ([] @ [a]) cs"
    "unb_frame ([] @ cs) s s1" "ub_cache s1 = ub_cache s" using unb_pool_alloc [OF Suc.prems(1)] .
  obtain c where c: "ub_cache s1 = Some c" "mpsc_exact 8 c" "mpsc_elems c = map Some cs" "Suc n + cb \<le> mpsc_budget c"
    using unb_pool_cache [OF a(2)] .
  have room: "length (mpsc_elems c) < mpsc_cap c" and "0 < mpsc_budget c" using c a(4) Suc.prems(2) [of c] by auto
  from spsc.push_room [OF c(2) this(2,1)] obtain c' where
    c': "spsc_Push 8 c (Some a) = Ret (c', kSuccess)" "mpsc_exact 8 c'" "mpsc_elems c' = mpsc_elems c @ [Some a]"
    "mpsc_cap c' = mpsc_cap c" "Suc (mpsc_budget c') = mpsc_budget c" by blast
  define s2 where "s2 = s1\<lparr>ub_cache := Some c'\<rparr>"
  have f: "unb_frame [] s1 s2" by (simp add: unb_frame_def s2_def)
  have "unb_pool env k (n + cb) s2 [] (cs @ [a])"
    using c' c(3,4) unb_poolD [OF a(2)] unb_geo_frame [OF f] by (intro unb_poolI [where c = c']) (auto simp: s2_def)
  from Suc.IH [OF this] obtain s' cs' where r: "unb_fill env n s2 = Ret s'" "unb_pool env k cb s' [] cs'" "unb_frame [] s2 s'"
    using Suc.prems(2) [of c] c(1) a(4) c'(4) by (auto simp: s2_def)
  have "unb_frame [] s s'" using unb_frame_trans [OF unb_frame_trans [OF _ f] r(3)] unb_frame_mono [OF a(3)] by simp
  with r a(1) c(1) c'(1) show ?case by (auto simp: s2_def)
qed

section \<open>What the queue holds\<close>

text \<open>
  Position \<open>p\<close> of the chain is slot \<open>p mod N\<close> of its node number \<open>p div N\<close>. The elements start at the
  head's slot of the first node, and the last node is the one of the next element to come.
\<close>

definition slot_at :: "'a node_heap \<Rightarrow> nat \<Rightarrow> nat list \<Rightarrow> nat \<Rightarrow> 'a" where
  "slot_at h N ns p = qn_ring (the (fmlookup h (ns ! (p div N)))) ! (p mod N)"

definition linked :: "'a node_heap \<Rightarrow> nat list \<Rightarrow> bool" where
  "linked h ns \<longleftrightarrow> (\<forall>i. Suc i < length ns \<longrightarrow> (\<exists>nd. fmlookup h (ns ! i) = Some nd \<and> qn_next nd = Some (ns ! Suc i)))"

definition unb_chain :: "'a unb_env \<Rightarrow> nat \<Rightarrow> nat \<Rightarrow> 'a unbounded \<Rightarrow> nat list \<Rightarrow> nat list \<Rightarrow> 'a list \<Rightarrow> nat \<Rightarrow> bool" where
  "unb_chain env k cb s ns cs xs b \<longleftrightarrow> unb_pool env k cb s ns cs \<and> linked (ub_heap s) ns \<and>
     ub_head_ptr s = Some (ns ! 0) \<and> ub_tail_ptr s = Some (ns ! (length ns - 1)) \<and>
     length ns = Suc ((unat (ub_head s) mod 2 ^ k + length xs) div 2 ^ k) \<and>
     (\<forall>j < length xs. slot_at (ub_heap s) (2 ^ k) ns (unat (ub_head s) mod 2 ^ k + j) = xs ! j) \<and>
     unat (ub_tail s) = unat (ub_head s) + length xs \<and> unat (ub_head_threshold s) \<le> unat (ub_tail s) \<and>
     unat (ub_tail s) + b \<le> 2 ^ 63 \<and> 2 ^ 63 \<le> cb + unat (ub_head s) div 2 ^ k"

definition unb_rel :: "'a unb_env \<Rightarrow> nat \<Rightarrow> 'a unbounded \<Rightarrow> 'a list \<Rightarrow> nat \<Rightarrow> bool" where
  "unb_rel env k s xs b \<longleftrightarrow> (\<exists>ns cs cb. unb_chain env k cb s ns cs xs b)"

lemma unb_chainD:
  assumes "unb_chain env k cb s ns cs xs b"
  shows "unb_pool env k cb s ns cs" "linked (ub_heap s) ns"
    "ub_head_ptr s = Some (ns ! 0)" "ub_tail_ptr s = Some (ns ! (length ns - 1))"
    "length ns = Suc ((unat (ub_head s) mod 2 ^ k + length xs) div 2 ^ k)"
    "\<And>j. j < length xs \<Longrightarrow> slot_at (ub_heap s) (2 ^ k) ns (unat (ub_head s) mod 2 ^ k + j) = xs ! j"
    "unat (ub_tail s) = unat (ub_head s) + length xs" "unat (ub_head_threshold s) \<le> unat (ub_tail s)"
    "unat (ub_tail s) + b \<le> 2 ^ 63" "2 ^ 63 \<le> cb + unat (ub_head s) div 2 ^ k"
  using assms unfolding unb_chain_def by blast+

lemma unb_chainI:
  assumes "unb_pool env k cb s ns cs" "linked (ub_heap s) ns"
    "ub_head_ptr s = Some (ns ! 0)" "ub_tail_ptr s = Some (ns ! (length ns - 1))"
    "length ns = Suc ((unat (ub_head s) mod 2 ^ k + length xs) div 2 ^ k)"
    "\<And>j. j < length xs \<Longrightarrow> slot_at (ub_heap s) (2 ^ k) ns (unat (ub_head s) mod 2 ^ k + j) = xs ! j"
    "unat (ub_tail s) = unat (ub_head s) + length xs" "unat (ub_head_threshold s) \<le> unat (ub_tail s)"
    "unat (ub_tail s) + b \<le> 2 ^ 63" "2 ^ 63 \<le> cb + unat (ub_head s) div 2 ^ k"
  shows "unb_chain env k cb s ns cs xs b"
  unfolding unb_chain_def using assms by blast

lemma slot_at_cong:
  "fmlookup h' (ns' ! (p div N)) = fmlookup h (ns ! (p div N)) \<Longrightarrow> slot_at h' N ns' p = slot_at h N ns p"
  by (simp add: slot_at_def)

lemma linked_cong:
  "linked h ns \<Longrightarrow> (\<And>a. a \<in> set ns \<Longrightarrow> fmlookup h' a = fmlookup h a) \<Longrightarrow> linked h' ns"
  unfolding linked_def by (metis Suc_lessD nth_mem)

lemma linked_Cons: "linked h (a # ns) \<Longrightarrow> linked h ns"
  unfolding linked_def by (metis Suc_mono length_Cons nth_Cons_Suc)

lemma unb_store_ok:
  assumes p: "unb_pool env k cb s ns cs" and l: "linked (ub_heap s) ns" and i: "i < length ns" and r: "r < 2 ^ k"
  obtains s' where "unb_store (ns ! i, r) x s = Ret s'" "unb_pool env k cb s' ns cs" "linked (ub_heap s') ns"
    "s' = s\<lparr>ub_heap := ub_heap s'\<rparr>"
    "\<And>q. q div 2 ^ k < length ns \<Longrightarrow>
      slot_at (ub_heap s') (2 ^ k) ns q = (if q = i * 2 ^ k + r then x else slot_at (ub_heap s) (2 ^ k) ns q)"
proof -
  obtain nd where nd: "fmlookup (ub_heap s) (ns ! i) = Some nd" "2 ^ k \<le> length (qn_ring nd)"
    using unb_poolD(5) [OF p, of "ns ! i"] i by (auto simp: node_ok_def)
  define nd' where "nd' = nd\<lparr>qn_ring := (qn_ring nd)[r := x]\<rparr>"
  define s' where "s' = s\<lparr>ub_heap := fmupd (ns ! i) nd' (ub_heap s)\<rparr>"
  have d: "ns ! j = ns ! i \<longleftrightarrow> j = i" if "j < length ns" for j
    using unb_poolD(2) [OF p] i that by (simp add: nth_eq_iff_index_eq)
  have "unb_store (ns ! i, r) x s = Ret s'"
    using nd r by (simp add: unb_store_def s'_def nd'_def)
  moreover have "node_ok (2 ^ k) (ub_heap s') b" if "b \<in> set (ns @ cs)" for b
    using unb_poolD(5) [OF p, of b] that nd(2) by (auto simp: s'_def nd'_def intro!: node_ok_upd)
  then have "unb_pool env k cb s' ns cs"
    using p unfolding unb_pool_def by (simp add: s'_def unb_geo_def)
  moreover have "linked (ub_heap s') ns"
  proof -
    have "\<exists>n1. fmlookup (ub_heap s') (ns ! j) = Some n1 \<and> qn_next n1 = Some (ns ! Suc j)" if "Suc j < length ns" for j
    proof -
      have "\<exists>n1. fmlookup (ub_heap s) (ns ! j) = Some n1 \<and> qn_next n1 = Some (ns ! Suc j)"
        using l that by (simp add: linked_def)
      then show ?thesis using d [of j] that nd(1) by (auto simp: s'_def nd'_def)
    qed
    then show ?thesis by (simp add: linked_def)
  qed
  moreover have "slot_at (ub_heap s') (2 ^ k) ns q = (if q = i * 2 ^ k + r then x else slot_at (ub_heap s) (2 ^ k) ns q)"
    if q: "q div 2 ^ k < length ns" for q
  proof (cases "q div 2 ^ k = i")
    case True
    have "q = i * 2 ^ k + q mod 2 ^ k" using True div_mult_mod_eq [of q "2 ^ k"] by simp
    then have "q = i * 2 ^ k + r \<longleftrightarrow> q mod 2 ^ k = r" by (metis add_left_cancel)
    then show ?thesis using True nd r by (auto simp: slot_at_def s'_def nd'_def)
  next
    case False
    then have "q \<noteq> i * 2 ^ k + r" using r by auto
    then show ?thesis using d [OF q] False by (simp add: slot_at_def s'_def)
  qed
  moreover have "s' = s\<lparr>ub_heap := ub_heap s'\<rparr>" by (simp add: s'_def)
  ultimately show thesis using that by blast
qed

lemma unb_entry_at:
  assumes "unb_pool env k cb s ns cs" "i < length ns"
  shows "entry_at s (Some (ns ! i)) r = Ret (ns ! i, unat r)"
  using unb_poolD(5) [OF assms(1), of "ns ! i"] assms(2) by (auto simp: entry_at_def node_ok_def)

lemma unb_load_ok:
  assumes "unb_pool env k cb s ns cs" "i < length ns" "r < 2 ^ k"
  shows "unb_load (ns ! i, r) s = Ret (slot_at (ub_heap s) (2 ^ k) ns (i * 2 ^ k + r))"
  using unb_poolD(5) [OF assms(1), of "ns ! i"] assms(2,3) by (auto simp: unb_load_def node_ok_def slot_at_def)

lemma unb_link_ok:
  assumes p: "unb_pool env k cb s (ns @ [a]) cs" and l: "linked (ub_heap s) ns" and n: "ns \<noteq> []"
  obtains nd s' where "fmlookup (ub_heap s) (ns ! (length ns - 1)) = Some nd"
    "s' = s\<lparr>ub_heap := fmupd (ns ! (length ns - 1)) (nd\<lparr>qn_next := Some a\<rparr>) (ub_heap s)\<rparr>"
    "unb_pool env k cb s' (ns @ [a]) cs" "linked (ub_heap s') (ns @ [a])"
    "\<And>q. q div 2 ^ k < length ns \<Longrightarrow> slot_at (ub_heap s') (2 ^ k) (ns @ [a]) q = slot_at (ub_heap s) (2 ^ k) ns q"
proof -
  define z where "z = length ns - 1"
  have z: "z < length ns" using n by (simp add: z_def)
  obtain nd where nd: "fmlookup (ub_heap s) (ns ! z) = Some nd" "2 ^ k \<le> length (qn_ring nd)"
    using unb_poolD(5) [OF p, of "ns ! z"] z by (auto simp: node_ok_def)
  define s' where "s' = s\<lparr>ub_heap := fmupd (ns ! z) (nd\<lparr>qn_next := Some a\<rparr>) (ub_heap s)\<rparr>"
  have d: "ns ! j = ns ! z \<longleftrightarrow> j = z" if "j < length ns" for j
    using unb_poolD(2) [OF p] z that by (simp add: nth_eq_iff_index_eq)
  have "node_ok (2 ^ k) (ub_heap s') b" if "b \<in> set ((ns @ [a]) @ cs)" for b
    using unb_poolD(5) [OF p, of b] that nd(2) by (auto simp: s'_def intro!: node_ok_upd)
  then have "unb_pool env k cb s' (ns @ [a]) cs"
    using p unfolding unb_pool_def by (simp add: s'_def unb_geo_def)
  moreover have "\<exists>n1. fmlookup (ub_heap s') ((ns @ [a]) ! j) = Some n1 \<and> qn_next n1 = Some ((ns @ [a]) ! Suc j)"
    if j: "Suc j < length (ns @ [a])" for j
  proof (cases "j = z")
    case True
    then show ?thesis using z n by (simp add: s'_def nth_append z_def)
  next
    case False
    then have "Suc j < length ns" using j by (simp add: z_def)
    then show ?thesis using l d [of j] False by (simp add: linked_def nth_append s'_def)
  qed
  then have "linked (ub_heap s') (ns @ [a])" by (simp add: linked_def)
  moreover have "slot_at (ub_heap s') (2 ^ k) (ns @ [a]) q = slot_at (ub_heap s) (2 ^ k) ns q"
    if "q div 2 ^ k < length ns" for q
    using that d [OF that] nd(1) by (auto simp: slot_at_def nth_append s'_def)
  ultimately show thesis using that [of nd s'] nd(1) by (simp add: z_def s'_def)
qed

lemma ring_index_last:
  assumes "k \<le> 31"
  shows "unat ((x::u64) AND (2 ^ k - 1)) = unat x mod 2 ^ k"
    and "x AND (2 ^ k - 1) = (2 ^ k - 1 :: u64) \<longleftrightarrow> Suc (unat x mod 2 ^ k) = 2 ^ k"
proof -
  show u: "unat (x AND (2 ^ k - 1)) = unat x mod 2 ^ k" using assms by (intro unat_and_pow2_mask) simp
  have "unat (2 ^ k - 1 :: u64) = 2 ^ k - 1" using assms by (intro unat_pow2_minus_1) simp
  moreover have "0 < (2::nat) ^ k" by simp
  ultimately show "x AND (2 ^ k - 1) = (2 ^ k - 1 :: u64) \<longleftrightarrow> Suc (unat x mod 2 ^ k) = 2 ^ k"
    unfolding word_unat_eq_iff u by linarith
qed

lemma Suc_div_cases:
  "(Suc p) div N = (if Suc (p mod N) = N then Suc (p div N) else p div N)"
  for p N :: nat
  by (simp add: div_Suc mod_Suc)

lemma mod_offset: "(h mod N + j) mod N = (h + j) mod N" "(h mod N + j) div N = (h + j) div N - h div N"
  for h j N :: nat
proof -
  show "(h mod N + j) mod N = (h + j) mod N" by (rule mod_add_left_eq)
  show "(h mod N + j) div N = (h + j) div N - h div N"
  proof (cases "N = 0")
    case False
    have "h + j = (h mod N + j) + h div N * N" using mod_div_mult_eq [of h N] by simp
    then have "(h + j) div N = (h mod N + j) div N + h div N" using False by (metis div_mult_self3 add.commute)
    then show ?thesis by simp
  qed simp
qed

text \<open>The slot the next element goes to, and the state after it is written there.\<close>

lemma unb_tail_slot:
  assumes C: "unb_chain env k cb s ns cs xs b"
  shows "unat (ub_tail s) mod 2 ^ k = (unat (ub_head s) mod 2 ^ k + length xs) mod 2 ^ k"
    and "entry_at s (ub_tail_ptr s) (ub_tail s AND ub_producer_mask s) =
      Ret (ns ! (length ns - 1), unat (ub_tail s) mod 2 ^ k)"
    and "ub_tail s AND ub_producer_mask s = ub_producer_mask s \<longleftrightarrow> Suc (unat (ub_tail s) mod 2 ^ k) = 2 ^ k"
    and "length ns = Suc (length ns - 1)"
proof -
  note R = unb_chainD [OF C]
  have g: "k \<le> 31" "ub_producer_mask s = 2 ^ k - 1" using unb_poolD(1) [OF R(1)] by (auto simp: unb_geo_def)
  show "unat (ub_tail s) mod 2 ^ k = (unat (ub_head s) mod 2 ^ k + length xs) mod 2 ^ k" by (simp add: R(7) mod_offset)
  show "ub_tail s AND ub_producer_mask s = ub_producer_mask s \<longleftrightarrow> Suc (unat (ub_tail s) mod 2 ^ k) = 2 ^ k"
    using ring_index_last(2) [OF g(1)] g(2) by simp
  show l: "length ns = Suc (length ns - 1)" using R(5) by simp
  then have "length ns - 1 < length ns" by simp
  then show "entry_at s (ub_tail_ptr s) (ub_tail s AND ub_producer_mask s) =
      Ret (ns ! (length ns - 1), unat (ub_tail s) mod 2 ^ k)"
    using unb_entry_at [OF R(1)] ring_index_last(1) [OF g(1)] R(4) g(2) by simp
qed

lemma unb_tail_store:
  assumes C: "unb_chain env k cb s ns cs xs b"
  obtains s' where "unb_store (ns ! (length ns - 1), unat (ub_tail s) mod 2 ^ k) x s = Ret s'"
    "unb_pool env k cb s' ns cs" "linked (ub_heap s') ns" "s' = s\<lparr>ub_heap := ub_heap s'\<rparr>"
    "\<And>j. j < length (xs @ [x]) \<Longrightarrow>
      slot_at (ub_heap s') (2 ^ k) ns (unat (ub_head s) mod 2 ^ k + j) = (xs @ [x]) ! j"
proof -
  note R = unb_chainD [OF C] note t = unb_tail_slot [OF C]
  define q where "q = unat (ub_head s) mod 2 ^ k + length xs"
  have z: "length ns - 1 = q div 2 ^ k" "q div 2 ^ k < length ns" using R(5) by (simp_all add: q_def)
  have m: "q mod 2 ^ k < 2 ^ k" by simp
  show thesis
  proof (rule unb_store_ok [OF R(1,2) z(2) m, of x])
    fix s0
    assume s0: "unb_store (ns ! (q div 2 ^ k), q mod 2 ^ k) x s = Ret s0" "unb_pool env k cb s0 ns cs"
      "linked (ub_heap s0) ns" "s0 = s\<lparr>ub_heap := ub_heap s0\<rparr>"
      and sl: "\<And>p. p div 2 ^ k < length ns \<Longrightarrow> slot_at (ub_heap s0) (2 ^ k) ns p =
        (if p = q div 2 ^ k * 2 ^ k + q mod 2 ^ k then x else slot_at (ub_heap s) (2 ^ k) ns p)"
    have "slot_at (ub_heap s0) (2 ^ k) ns (unat (ub_head s) mod 2 ^ k + j) = (xs @ [x]) ! j" if "j < length (xs @ [x])" for j
    proof -
      have "(unat (ub_head s) mod 2 ^ k + j) div 2 ^ k \<le> q div 2 ^ k" using that by (intro div_le_mono) (simp add: q_def)
      then show ?thesis using sl z(2) R(6) [of j] that unfolding div_mult_mod_eq by (auto simp: q_def nth_append)
    qed
    then show thesis using that [of s0] s0 z(1) t(1) by (simp add: q_def)
  qed
qed

lemma unb_tail_inc:
  assumes C: "unb_chain env k cb s ns cs xs (Suc b)"
  shows "unat (ub_tail s + 1) = Suc (unat (ub_head s) + length xs)"
    and "Suc (unat (ub_head s) mod 2 ^ k + length xs) div 2 ^ k =
      (if Suc (unat (ub_tail s) mod 2 ^ k) = 2 ^ k then length ns else length ns - 1)"
proof -
  note R = unb_chainD [OF C]
  show "unat (ub_tail s + 1) = Suc (unat (ub_head s) + length xs)"
    using unat_inc64 [of "ub_tail s"] R(7,9) by simp
  show "Suc (unat (ub_head s) mod 2 ^ k + length xs) div 2 ^ k =
      (if Suc (unat (ub_tail s) mod 2 ^ k) = 2 ^ k then length ns else length ns - 1)"
    using Suc_div_cases [of "unat (ub_head s) mod 2 ^ k + length xs" "2 ^ k"] unb_tail_slot(1) [OF C] R(5) by simp
qed

text \<open>After the write: either the cursor moves on, or a new node is linked first.\<close>

lemma unb_chain_step:
  assumes C: "unb_chain env k cb s ns cs xs (Suc b)"
    and s0: "unb_pool env k cb s0 ns cs" "linked (ub_heap s0) ns" "s0 = s\<lparr>ub_heap := ub_heap s0\<rparr>"
      "\<And>j. j < length (xs @ [x]) \<Longrightarrow> slot_at (ub_heap s0) (2 ^ k) ns (unat (ub_head s) mod 2 ^ k + j) = (xs @ [x]) ! j"
    and l: "Suc (unat (ub_tail s) mod 2 ^ k) \<noteq> 2 ^ k"
  shows "unb_chain env k cb (s0\<lparr>ub_tail := ub_tail s0 + 1\<rparr>) ns cs (xs @ [x]) b"
proof -
  note R = unb_chainD [OF C] note t = unb_tail_inc [OF C]
  have sel: "ub_tail_ptr s0 = ub_tail_ptr s" "ub_tail s0 = ub_tail s"
    "ub_head_threshold s0 = ub_head_threshold s" "ub_head s0 = ub_head s" "ub_head_ptr s0 = ub_head_ptr s"
    by (subst s0(3), simp)+
  define s' where "s' = s0\<lparr>ub_tail := ub_tail s + 1\<rparr>"
  have "unb_chain env k cb s' ns cs (xs @ [x]) b"
  proof (rule unb_chainI)
    show "unb_pool env k cb s' ns cs" using s0(1) by (simp add: unb_pool_def unb_geo_def s'_def)
  qed (use s0(2,4) R(3-10) t l in \<open>simp_all add: s'_def sel\<close>)
  then show ?thesis by (simp add: s'_def sel)
qed

lemma unb_chain_grow:
  assumes C: "unb_chain env k cb s ns cs xs (Suc b)"
    and s0: "unb_pool env k cb s0 ns cs" "linked (ub_heap s0) ns" "s0 = s\<lparr>ub_heap := ub_heap s0\<rparr>"
      "\<And>j. j < length (xs @ [x]) \<Longrightarrow> slot_at (ub_heap s0) (2 ^ k) ns (unat (ub_head s) mod 2 ^ k + j) = (xs @ [x]) ! j"
    and l: "Suc (unat (ub_tail s) mod 2 ^ k) = 2 ^ k"
  obtains s1 a nd cs' where "unb_NewNode env s0 = Ret (s1, Some a)" "ub_tail_ptr s1 = Some (ns ! (length ns - 1))"
    "fmlookup (ub_heap s1) (ns ! (length ns - 1)) = Some nd"
    "unb_chain env k cb (s1\<lparr>ub_heap := fmupd (ns ! (length ns - 1)) (nd\<lparr>qn_next := Some a\<rparr>) (ub_heap s1),
       ub_tail_ptr := Some a, ub_tail := ub_tail s1 + 1\<rparr>) (ns @ [a]) cs' (xs @ [x]) b"
proof -
  note R = unb_chainD [OF C] note t = unb_tail_inc [OF C]
  have sel: "ub_tail_ptr s0 = ub_tail_ptr s" "ub_tail s0 = ub_tail s"
    "ub_head_threshold s0 = ub_head_threshold s" "ub_head s0 = ub_head s" "ub_head_ptr s0 = ub_head_ptr s"
    by (subst s0(3), simp)+
  obtain s1 a cs' where s1: "unb_NewNode env s0 = Ret (s1, Some a)" "unb_pool env k cb s1 (ns @ [a]) cs'" "unb_frame ns s0 s1"
    using unb_NewNode_ok [OF s0(1)] .
  note f = unb_frameD [OF s1(3)]
  have ne: "ns \<noteq> []" using R(5) by auto
  obtain nd s2 where s2: "fmlookup (ub_heap s1) (ns ! (length ns - 1)) = Some nd"
    "s2 = s1\<lparr>ub_heap := fmupd (ns ! (length ns - 1)) (nd\<lparr>qn_next := Some a\<rparr>) (ub_heap s1)\<rparr>"
    "unb_pool env k cb s2 (ns @ [a]) cs'" "linked (ub_heap s2) (ns @ [a])"
    and sl2: "\<And>q. q div 2 ^ k < length ns \<Longrightarrow> slot_at (ub_heap s2) (2 ^ k) (ns @ [a]) q = slot_at (ub_heap s1) (2 ^ k) ns q"
    using unb_link_ok [OF s1(2) linked_cong [OF s0(2) f(11)] ne] by blast
  have sel2: "ub_head_threshold s2 = ub_head_threshold s" "ub_head s2 = ub_head s" "ub_head_ptr s2 = ub_head_ptr s"
    using s2(2) f sel by simp_all
  define s' where "s' = s2\<lparr>ub_tail_ptr := Some a, ub_tail := ub_tail s + 1\<rparr>"
  have "unb_chain env k cb s' (ns @ [a]) cs' (xs @ [x]) b"
  proof (rule unb_chainI)
    show "unb_pool env k cb s' (ns @ [a]) cs'" using s2(3) by (simp add: unb_pool_def unb_geo_def s'_def)
    show "slot_at (ub_heap s') (2 ^ k) (ns @ [a]) (unat (ub_head s') mod 2 ^ k + j) = (xs @ [x]) ! j"
      if "j < length (xs @ [x])" for j
    proof -
      define p where "p = unat (ub_head s) mod 2 ^ k + j"
      have "p div 2 ^ k \<le> (unat (ub_head s) mod 2 ^ k + length xs) div 2 ^ k"
        using that by (intro div_le_mono) (simp add: p_def)
      then have p: "p div 2 ^ k < length ns" using R(5) by simp
      have "slot_at (ub_heap s1) (2 ^ k) ns p = slot_at (ub_heap s0) (2 ^ k) ns p"
        using f(11) [of "ns ! (p div 2 ^ k)"] p by (intro slot_at_cong) simp
      then show ?thesis using s0(4) [OF that] sl2 [of p] p by (simp add: s'_def sel2 p_def)
    qed
  qed (use s2(4) R(3-10) t l ne in \<open>simp_all add: s'_def sel2 nth_append\<close>)
  then show thesis using that [OF s1(1) _ s2(1)] f sel R(4) unfolding s'_def s2(2) by simp
qed

lemma unb_Push_rel:
  assumes "unb_rel env k s xs (Suc b)"
  shows "\<exists>s'. unb_Push env s x = Ret (s', kSuccess) \<and> unb_rel env k s' (xs @ [x]) b"
proof -
  obtain ns cs cb where C: "unb_chain env k cb s ns cs xs (Suc b)" using assms unfolding unb_rel_def by blast
  note t = unb_tail_slot [OF C]
  obtain s0 where s0: "unb_store (ns ! (length ns - 1), unat (ub_tail s) mod 2 ^ k) x s = Ret s0"
    "unb_pool env k cb s0 ns cs" "linked (ub_heap s0) ns" "s0 = s\<lparr>ub_heap := ub_heap s0\<rparr>"
    and sl: "\<And>j. j < length (xs @ [x]) \<Longrightarrow> slot_at (ub_heap s0) (2 ^ k) ns (unat (ub_head s) mod 2 ^ k + j) = (xs @ [x]) ! j"
    using unb_tail_store [OF C, of x] by blast
  have m: "ub_producer_mask s0 = ub_producer_mask s" by (subst s0(4), simp)
  show ?thesis
  proof (cases "Suc (unat (ub_tail s) mod 2 ^ k) = 2 ^ k")
    case False
    with unb_chain_step [OF C s0(2-4) sl False] show ?thesis
      using t(2,3) s0(1) m by (auto simp: unb_Push_def unb_rel_def)
  next
    case True
    obtain s1 a nd cs' where "unb_NewNode env s0 = Ret (s1, Some a)" "ub_tail_ptr s1 = Some (ns ! (length ns - 1))"
      "fmlookup (ub_heap s1) (ns ! (length ns - 1)) = Some nd"
      "unb_chain env k cb (s1\<lparr>ub_heap := fmupd (ns ! (length ns - 1)) (nd\<lparr>qn_next := Some a\<rparr>) (ub_heap s1),
         ub_tail_ptr := Some a, ub_tail := ub_tail s1 + 1\<rparr>) (ns @ [a]) cs' (xs @ [x]) b"
      using unb_chain_grow [OF C s0(2-4) sl True] .
    then show ?thesis using t(2,3) s0(1) True m by (auto simp: unb_Push_def unb_rel_def)
  qed
qed

lemma unb_chain_threshold:
  assumes C: "unb_chain env k cb s ns cs xs b" and t: "unat t \<le> unat (ub_tail s)"
  shows "unb_chain env k cb (s\<lparr>ub_head_threshold := t\<rparr>) ns cs xs b"
proof -
  note R = unb_chainD [OF C]
  show ?thesis
    by (rule unb_chainI) (use R t in \<open>simp_all add: unb_pool_def unb_geo_def\<close>)
qed

lemma unb_HaveData_chain:
  assumes C: "unb_chain env k cb s ns cs xs b"
  obtains s' where "unb_HaveData s = (s', xs \<noteq> [])" "unb_chain env k cb s' ns cs xs b" "ub_head s' = ub_head s"
    "s' = s\<lparr>ub_head_threshold := ub_head_threshold s'\<rparr>"
proof (cases "ub_head_threshold s \<le> ub_head s")
  case True
  have "ub_tail s \<le> ub_head s \<longleftrightarrow> xs = []" using unb_chainD(7) [OF C] by (simp add: word_le_nat_alt)
  then show thesis
    using that [of "s\<lparr>ub_head_threshold := ub_tail s\<rparr>"] True unb_chain_threshold [OF C, of "ub_tail s"]
    by (simp add: unb_HaveData_def)
next
  case False
  then have "xs \<noteq> []" using unb_chainD(7,8) [OF C] by (auto simp: word_le_nat_alt)
  then show thesis using that [of s] False C by (simp add: unb_HaveData_def)
qed

lemma unb_head_slot:
  assumes C: "unb_chain env k cb s ns cs xs b"
  shows "entry_at s (ub_head_ptr s) (ub_head s AND ub_consumer_mask s) = Ret (ns ! 0, unat (ub_head s) mod 2 ^ k)"
    and "xs \<noteq> [] \<Longrightarrow> unb_load (ns ! 0, unat (ub_head s) mod 2 ^ k) s = Ret (hd xs)"
    and "ub_head s AND ub_consumer_mask s = ub_consumer_mask s \<longleftrightarrow> Suc (unat (ub_head s) mod 2 ^ k) = 2 ^ k"
proof -
  note R = unb_chainD [OF C]
  have g: "k \<le> 31" "ub_consumer_mask s = 2 ^ k - 1" using unb_poolD(1) [OF R(1)] by (auto simp: unb_geo_def)
  have n: "0 < length ns" using R(5) by simp
  show "entry_at s (ub_head_ptr s) (ub_head s AND ub_consumer_mask s) = Ret (ns ! 0, unat (ub_head s) mod 2 ^ k)"
    using unb_entry_at [OF R(1) n] ring_index_last(1) [OF g(1)] R(3) g(2) by simp
  show "unb_load (ns ! 0, unat (ub_head s) mod 2 ^ k) s = Ret (hd xs)" if "xs \<noteq> []"
    using unb_load_ok [OF R(1) n, of "unat (ub_head s) mod 2 ^ k"] R(6) [of 0] that by (simp add: hd_conv_nth)
  show "ub_head s AND ub_consumer_mask s = ub_consumer_mask s \<longleftrightarrow> Suc (unat (ub_head s) mod 2 ^ k) = 2 ^ k"
    using ring_index_last(2) [OF g(1)] g(2) by simp
qed

lemma unb_head_inc:
  assumes C: "unb_chain env k cb s ns cs (x # xs) b"
  shows "unat (ub_head s + 1) = Suc (unat (ub_head s))" and "0 < cb"
proof -
  note R = unb_chainD [OF C]
  show "unat (ub_head s + 1) = Suc (unat (ub_head s))" using unat_inc64 [of "ub_head s"] R(7,9) by simp
  have "unat (ub_head s) div 2 ^ k < 2 ^ 63" using R(7,9) by (intro le_less_trans [OF div_le_dividend]) simp
  then show "0 < cb" using R(10) by simp
qed

lemma unb_chain_pop:
  assumes C: "unb_chain env k cb s ns cs (x # xs) b" and l: "Suc (unat (ub_head s) mod 2 ^ k) \<noteq> 2 ^ k"
  shows "unb_chain env k cb (s\<lparr>ub_head := ub_head s + 1\<rparr>) ns cs xs b"
proof -
  note R = unb_chainD [OF C] note h = unb_head_inc [OF C]
  have m: "Suc (unat (ub_head s)) mod 2 ^ k = Suc (unat (ub_head s) mod 2 ^ k)" using l by (simp add: mod_Suc)
  have d: "Suc (unat (ub_head s)) div 2 ^ k = unat (ub_head s) div 2 ^ k" using l by (simp add: Suc_div_cases)
  show ?thesis
  proof (rule unb_chainI)
    show "unb_pool env k cb (s\<lparr>ub_head := ub_head s + 1\<rparr>) ns cs" using R(1) by (simp add: unb_pool_def unb_geo_def)
    show "slot_at (ub_heap (s\<lparr>ub_head := ub_head s + 1\<rparr>)) (2 ^ k) ns (unat (ub_head (s\<lparr>ub_head := ub_head s + 1\<rparr>)) mod 2 ^ k + j)
      = xs ! j" if "j < length xs" for j
      using R(6) [of "Suc j"] that by (simp add: h m)
  qed (use R(2-5,7-10) in \<open>simp_all add: h m d\<close>)
qed

lemma unb_chain_shrink:
  assumes C: "unb_chain env k cb s ns cs (x # xs) b" and l: "Suc (unat (ub_head s) mod 2 ^ k) = 2 ^ k"
  obtains nd s' cs' where "fmlookup (ub_heap s) (ns ! 0) = Some nd" "qn_next nd = Some (ns ! 1)"
    "unb_DeleteNode (Some (ns ! 0)) (s\<lparr>ub_head := ub_head s + 1, ub_head_ptr := qn_next nd\<rparr>) = Ret s'"
    "unb_chain env k (cb - 1) s' (tl ns) cs' xs b"
proof -
  note R = unb_chainD [OF C] note h = unb_head_inc [OF C]
  have m: "Suc (unat (ub_head s)) mod 2 ^ k = 0" using l by (simp add: mod_Suc)
  have d: "Suc (unat (ub_head s)) div 2 ^ k = Suc (unat (ub_head s) div 2 ^ k)" using l by (simp add: Suc_div_cases)
  have o: "unat (ub_head s) mod 2 ^ k + Suc j = 2 ^ k + j" for j using l by simp
  have "unat (ub_head s) mod 2 ^ k + length (x # xs) = 2 ^ k + length xs" using o [of "length xs"] by simp
  then have len: "length ns = Suc (Suc (length xs div 2 ^ k))" using R(5) by (metis div_add_self1 numeral_2_eq_2 power_not_zero zero_neq_numeral plus_1_eq_Suc add.commute)
  then obtain a a1 ns' where ns: "ns = a # a1 # ns'" by (metis Suc_length_conv)
  obtain nd where nd: "fmlookup (ub_heap s) a = Some nd" "qn_next nd = Some a1"
    using R(2) ns unfolding linked_def by (metis One_nat_def length_Cons nth_Cons_0 nth_Cons_Suc Suc_less_eq zero_less_Suc)
  define s1 where "s1 = s\<lparr>ub_head := ub_head s + 1, ub_head_ptr := qn_next nd\<rparr>"
  have "unb_pool env k (Suc (cb - 1)) s1 (a # tl ns) cs" using R(1) h(2) ns by (simp add: unb_pool_def unb_geo_def s1_def)
  then obtain s' cs' where s': "unb_DeleteNode (Some a) s1 = Ret s'" "unb_pool env k (cb - 1) s' (tl ns) cs'"
    "unb_frame (tl ns) s1 s'" by (rule unb_DeleteNode_ok)
  note f = unb_frameD [OF s'(3)]
  have "unb_chain env k (cb - 1) s' (tl ns) cs' xs b"
  proof (rule unb_chainI)
    have "linked (ub_heap s1) (tl ns)" using linked_Cons [of _ a "tl ns"] R(2) ns by (simp add: s1_def)
    then show "linked (ub_heap s') (tl ns)" using f(11) by (rule linked_cong)
    show "slot_at (ub_heap s') (2 ^ k) (tl ns) (unat (ub_head s') mod 2 ^ k + j) = xs ! j" if "j < length xs" for j
    proof -
      have i: "j div 2 ^ k < length (tl ns)" using that len by (simp add: div_le_mono less_Suc_eq_le)
      then have "fmlookup (ub_heap s') (tl ns ! (j div 2 ^ k)) = fmlookup (ub_heap s) (ns ! ((2 ^ k + j) div 2 ^ k))"
        using f(11) [OF nth_mem [OF i]] ns by (simp add: s1_def)
      then have "slot_at (ub_heap s') (2 ^ k) (tl ns) j = slot_at (ub_heap s) (2 ^ k) ns (2 ^ k + j)" by (simp add: slot_at_def)
      then show ?thesis using R(6) [of "Suc j", unfolded o] that f(5) by (simp add: s1_def h m)
    qed
  qed (use s'(2) R(4,7-10) f nd(2) ns len in \<open>simp_all add: s1_def h m d\<close>)
  then show thesis using that nd s'(1) ns by (simp add: s1_def)
qed

lemma unb_FreeEntry_rel:
  assumes C: "unb_chain env k cb s ns cs (x # xs) b"
  shows "\<exists>s'. unb_FreeEntry s = Ret s' \<and> unb_rel env k s' xs b"
proof (cases "Suc (unat (ub_head s) mod 2 ^ k) = 2 ^ k")
  case True
  obtain nd s' cs' where "fmlookup (ub_heap s) (ns ! 0) = Some nd" "qn_next nd = Some (ns ! 1)"
    "unb_DeleteNode (Some (ns ! 0)) (s\<lparr>ub_head := ub_head s + 1, ub_head_ptr := qn_next nd\<rparr>) = Ret s'"
    "unb_chain env k (cb - 1) s' (tl ns) cs' xs b" using unb_chain_shrink [OF C True] .
  then show ?thesis using unb_head_slot(3) [OF C] True unb_chainD(3) [OF C] by (auto simp: unb_FreeEntry_def unb_rel_def)
next
  case False
  from unb_chain_pop [OF C this] unb_head_slot(3) [OF C] False show ?thesis
    by (auto simp: unb_FreeEntry_def unb_rel_def)
qed

lemma unb_Pop_rel:
  "unb_rel env k s (y # ys) b \<Longrightarrow> \<exists>s'. unb_Pop s = Ret (s', Inr y) \<and> unb_rel env k s' ys b"
  "unb_rel env k s [] b \<Longrightarrow> \<exists>s'. unb_Pop s = Ret (s', Inl kQueueEmpty) \<and> unb_rel env k s' [] b"
proof -
  assume "unb_rel env k s (y # ys) b"
  then obtain ns cs cb where C: "unb_chain env k cb s ns cs (y # ys) b" unfolding unb_rel_def by blast
  obtain s1 where s1: "unb_HaveData s = (s1, True)" "unb_chain env k cb s1 ns cs (y # ys) b"
    using unb_HaveData_chain [OF C] by auto
  from unb_FreeEntry_rel [OF s1(2)] show "\<exists>s'. unb_Pop s = Ret (s', Inr y) \<and> unb_rel env k s' ys b"
    using s1(1) unb_head_slot(1,2) [OF s1(2)] by (auto simp: unb_Pop_def)
next
  assume "unb_rel env k s [] b"
  then obtain ns cs cb where C: "unb_chain env k cb s ns cs [] b" unfolding unb_rel_def by blast
  obtain s1 where "unb_HaveData s = (s1, False)" "unb_chain env k cb s1 ns cs [] b"
    using unb_HaveData_chain [OF C] by auto
  then show "\<exists>s'. unb_Pop s = Ret (s', Inl kQueueEmpty) \<and> unb_rel env k s' [] b"
    by (auto simp: unb_Pop_def unb_rel_def)
qed

text \<open>The contract of a queue that is never full: capacity \<open>2 ^ 64\<close> is out of reach of the cursors.\<close>

interpretation unb: blocking_fifo "unb_Push env" unb_Pop "unb_rel env k" "2 ^ 64"
  for env k
proof (unfold_locales, goal_cases)
  case (1 q xs b x) then show ?case by (intro unb_Push_rel)
next
  case (2 q y ys b) then show ?case by (rule unb_Pop_rel(1))
next
  case (3 q b) then show ?case by (rule unb_Pop_rel(2))
qed

section \<open>Access by position and traversal\<close>

lemma unb_seek_ok:
  assumes "linked h ns" "unat nr < length ns" "unat nr < 2 ^ 32" "unat i \<le> unat nr"
  shows "unb_seek h i nr (Some (ns ! unat i)) = Some (Ret (Some (ns ! unat nr)))"
  using assms(4)
proof (induction "unat nr - unat i" arbitrary: i)
  case 0
  then have "unat i = unat nr" by simp
  then show ?case by (simp add: unb_seek.simps word_less_nat_alt)
next
  case (Suc d)
  then have i: "unat i < unat nr" by simp
  have u: "unat (i + 1) = unat i + 1" using i assms(3) by (intro unat_Suc32) simp
  have "Suc (unat i) < length ns" using i assms(2) by simp
  then obtain nd where nd: "fmlookup h (ns ! unat i) = Some nd" "qn_next nd = Some (ns ! Suc (unat i))"
    using assms(1) unfolding linked_def by blast
  have "unb_seek h (i + 1) nr (Some (ns ! unat (i + 1))) = Some (Ret (Some (ns ! unat nr)))"
    using Suc.hyps(2) i u by (intro Suc.hyps(1)) auto
  then show ?case using i nd u by (simp add: unb_seek.simps [of h i] word_less_nat_alt)
qed

lemma offset_div_le:
  fixes d j N :: nat
  assumes "d < N"
  shows "(d + j) div N \<le> j"
proof -
  have "j * 1 \<le> j * N" using assms by (intro mult_le_mono2) simp
  with assms have "d + j < N + j * N" by linarith
  then have "d + j < Suc j * N" by simp
  then have "(d + j) div N < Suc j" by (rule less_mult_imp_div_less)
  then show ?thesis by simp
qed

lemma unat_node_number:
  fixes x :: u64
  assumes "k \<le> 31"
  shows "unat (drop_bit k (x AND NOT (2 ^ k - 1))) = unat x div 2 ^ k"
proof -
  have "drop_bit k (x AND NOT (2 ^ k - 1)) = drop_bit k x"
    by (rule bit_word_eqI) (use assms in \<open>auto simp: bit_simps mask_eq_exp_minus_1 [symmetric] dest: bit_imp_le_length\<close>)
  moreover have "unat (drop_bit k x) = drop_bit k (unat x)" by (rule unat_drop_bit_eq)
  ultimately show ?thesis by (metis drop_bit_eq_div)
qed

lemma unb_ElementAt_chain:
  assumes C: "unb_chain env k cb s ns cs xs b" and small: "length xs < 2 ^ 32"
  shows "\<exists>s'. unb_ElementAt index s = Ret (s', if ub_head s \<le> index \<and> index < ub_tail s
      then Some (ns ! ((unat (ub_head s) mod 2 ^ k + (unat index - unat (ub_head s))) div 2 ^ k), unat index mod 2 ^ k) else None)
    \<and> unb_chain env k cb s' ns cs xs b \<and> ub_head s' = ub_head s \<and> ub_heap s' = ub_heap s"
proof -
  note R = unb_chainD [OF C]
  define s1 where "s1 = (if ub_head_threshold s \<le> index then s\<lparr>ub_head_threshold := ub_tail s\<rparr> else s)"
  have C1: "unb_chain env k cb s1 ns cs xs b" using C unb_chain_threshold [OF C, of "ub_tail s"] by (simp add: s1_def)
  have sel: "ub_head s1 = ub_head s" "ub_heap s1 = ub_heap s" "ub_head_ptr s1 = ub_head_ptr s"
    "ub_consumer_mask s1 = ub_consumer_mask s" "ub_consumer_bits s1 = ub_consumer_bits s" by (simp_all add: s1_def)
  have thr: "ub_head_threshold s1 \<le> index \<longleftrightarrow> ub_tail s \<le> index"
    using R(8) by (auto simp: s1_def word_le_nat_alt)
  show ?thesis
  proof (cases "ub_head s \<le> index \<and> index < ub_tail s")
    case False
    then have "unb_ElementAt index s = Ret (s, None) \<or> unb_ElementAt index s = Ret (s1, None)"
      using thr unfolding unb_ElementAt_def Let_def s1_def [symmetric] by (auto simp: not_less not_le)
    then show ?thesis using C C1 sel False by auto
  next
    case True
    define j where "j = unat index - unat (ub_head s)"
    have j: "unat index = unat (ub_head s) + j" "j < length xs" using True R(7) by (auto simp: j_def word_le_nat_alt word_less_nat_alt)
    have g: "k \<le> 31" "ub_consumer_mask s = 2 ^ k - 1" "ub_consumer_bits s = k"
      using unb_poolD(1) [OF R(1)] by (auto simp: unb_geo_def)
    define nr where "nr = drop_bit k (index AND NOT (2 ^ k - 1)) - drop_bit k (ub_head s AND NOT (2 ^ k - 1))"
    have nr: "unat nr = (unat (ub_head s) mod 2 ^ k + j) div 2 ^ k"
      unfolding nr_def mod_offset(2) using j(1) unat_sub64 [of "drop_bit k (ub_head s AND NOT (2 ^ k - 1))"
        "drop_bit k (index AND NOT (2 ^ k - 1))"] unfolding unat_node_number [OF g(1)] by (simp add: div_le_mono)
    have len: "unat nr < length ns" using R(5) j(2) unfolding nr by (simp add: div_le_mono less_Suc_eq_le)
    have "unat nr \<le> j" unfolding nr by (intro offset_div_le) simp
    then have "unb_seek (ub_heap s) 0 nr (Some (ns ! 0)) = Some (Ret (Some (ns ! unat nr)))"
      using unb_seek_ok [OF R(2) len, of 0] j(2) small by simp
    then have "unb_ElementAt index s = Ret (s1, Some (ns ! unat nr, unat index mod 2 ^ k))"
      using True thr unb_entry_at [OF unb_chainD(1) [OF C1] len, of "index AND ub_consumer_mask s"]
      unfolding unb_ElementAt_def Let_def s1_def [symmetric] sel g R(3) nr_def [symmetric]
      by (simp add: not_less not_le g ring_index_last [OF g(1)])
    then show ?thesis using C1 sel True nr j(1) by auto
  qed
qed

text \<open>What a traversal means for the elements: the callback runs on one after the other until it declines.\<close>

fun visit :: "('c \<Rightarrow> 'a \<Rightarrow> 'c \<times> 'a \<times> bool) \<Rightarrow> 'c \<Rightarrow> 'a list \<Rightarrow> 'c \<times> 'a list" where
  "visit callback c [] = (c, [])"
| "visit callback c (x # xs) =
     (case callback c x of (c', y, go) \<Rightarrow>
        if go then (case visit callback c' xs of (c'', ys) \<Rightarrow> (c'', y # ys)) else (c', y # xs))"

lemma length_visit: "length (snd (visit callback c xs)) = length xs"
  by (induction xs arbitrary: c) (auto split: prod.splits, metis snd_conv)

lemma unb_chain_store:
  assumes C: "unb_chain env k cb s ns cs xs b" and j: "j < length xs"
  defines "q \<equiv> unat (ub_head s) mod 2 ^ k + j"
  obtains s' where "unb_store (ns ! (q div 2 ^ k), q mod 2 ^ k) x s = Ret s'"
    "unb_chain env k cb s' ns cs (xs[j := x]) b" "s' = s\<lparr>ub_heap := ub_heap s'\<rparr>"
proof -
  note R = unb_chainD [OF C]
  have i: "q div 2 ^ k < length ns" using R(5) j by (simp add: q_def div_le_mono less_Suc_eq_le)
  have m: "q mod 2 ^ k < 2 ^ k" by simp
  show thesis
  proof (rule unb_store_ok [OF R(1,2) i m, of x])
    fix s'
    assume s': "unb_store (ns ! (q div 2 ^ k), q mod 2 ^ k) x s = Ret s'" "unb_pool env k cb s' ns cs"
      "linked (ub_heap s') ns" "s' = s\<lparr>ub_heap := ub_heap s'\<rparr>"
      and sl: "\<And>p. p div 2 ^ k < length ns \<Longrightarrow> slot_at (ub_heap s') (2 ^ k) ns p =
        (if p = q div 2 ^ k * 2 ^ k + q mod 2 ^ k then x else slot_at (ub_heap s) (2 ^ k) ns p)"
    have sel: "ub_tail_ptr s' = ub_tail_ptr s" "ub_tail s' = ub_tail s"
      "ub_head_threshold s' = ub_head_threshold s" "ub_head s' = ub_head s" "ub_head_ptr s' = ub_head_ptr s"
      by (subst s'(4), simp)+
    have "unb_chain env k cb s' ns cs (xs[j := x]) b"
    proof (rule unb_chainI)
      show "slot_at (ub_heap s') (2 ^ k) ns (unat (ub_head s') mod 2 ^ k + l) = xs[j := x] ! l" if "l < length (xs[j := x])" for l
      proof -
        have "(unat (ub_head s) mod 2 ^ k + l) div 2 ^ k < length ns"
          using R(5) that by (simp add: div_le_mono less_Suc_eq_le)
        from sl [OF this] show ?thesis
          using R(6) [of l] that unfolding sel div_mult_mod_eq by (auto simp: q_def)
      qed
    qed (use s'(2,3) R(3-5,7-10) in \<open>simp_all add: sel\<close>)
    then show thesis using that s'(1,4) by blast
  qed
qed

text \<open>One turn of the loop: the entry, its value, and the node of the entry after it.\<close>

lemma unb_traverse_at:
  assumes C: "unb_chain env k cb s ns cs xs b" and j: "j < length xs" and i: "unat index = unat (ub_head s) + j"
  defines "q \<equiv> unat (ub_head s) mod 2 ^ k + j"
  shows "entry_at s (Some (ns ! (q div 2 ^ k))) (index AND ub_consumer_mask s) = Ret (ns ! (q div 2 ^ k), q mod 2 ^ k)"
    and "unb_load (ns ! (q div 2 ^ k), q mod 2 ^ k) s = Ret (xs ! j)"
    and "(if ub_consumer_mask s = index AND ub_consumer_mask s
          then rbind (node_at (ub_heap s) (Some (ns ! (q div 2 ^ k)))) (\<lambda>nd. Ret (qn_next (snd nd)))
          else Ret (Some (ns ! (q div 2 ^ k)))) = Ret (Some (ns ! (Suc q div 2 ^ k)))"
proof -
  note R = unb_chainD [OF C]
  have g: "k \<le> 31" "ub_consumer_mask s = 2 ^ k - 1" using unb_poolD(1) [OF R(1)] by (auto simp: unb_geo_def)
  have le: "Suc q \<le> unat (ub_head s) mod 2 ^ k + length xs" using j by (simp add: q_def)
  then have n: "Suc q div 2 ^ k < length ns" using R(5) div_le_mono [OF le] by (simp add: less_Suc_eq_le)
  have l: "q div 2 ^ k < length ns" by (rule le_less_trans [OF div_le_mono n]) simp
  have m: "unat index mod 2 ^ k = q mod 2 ^ k" by (simp add: i q_def mod_offset)
  show "entry_at s (Some (ns ! (q div 2 ^ k))) (index AND ub_consumer_mask s) = Ret (ns ! (q div 2 ^ k), q mod 2 ^ k)"
    using unb_entry_at [OF R(1) l] ring_index_last(1) [OF g(1)] g(2) m by simp
  show "unb_load (ns ! (q div 2 ^ k), q mod 2 ^ k) s = Ret (xs ! j)"
    using unb_load_ok [OF R(1) l, of "q mod 2 ^ k", unfolded div_mult_mod_eq] R(6) [OF j] by (simp add: q_def)
  have e: "ub_consumer_mask s = index AND ub_consumer_mask s \<longleftrightarrow> Suc (q mod 2 ^ k) = 2 ^ k"
    using ring_index_last(2) [OF g(1), of index] g(2) m by auto
  show "(if ub_consumer_mask s = index AND ub_consumer_mask s
          then rbind (node_at (ub_heap s) (Some (ns ! (q div 2 ^ k)))) (\<lambda>nd. Ret (qn_next (snd nd)))
          else Ret (Some (ns ! (q div 2 ^ k)))) = Ret (Some (ns ! (Suc q div 2 ^ k)))"
  proof (cases "Suc (q mod 2 ^ k) = 2 ^ k")
    case True
    then have d: "Suc q div 2 ^ k = Suc (q div 2 ^ k)" by (simp add: Suc_div_cases)
    obtain nd where "fmlookup (ub_heap s) (ns ! (q div 2 ^ k)) = Some nd" "qn_next nd = Some (ns ! Suc (q div 2 ^ k))"
      using R(2) n unfolding linked_def d by blast
    then show ?thesis unfolding e using True d by simp
  next
    case False
    then show ?thesis unfolding e by (simp add: Suc_div_cases)
  qed
qed

lemma unb_element_load:
  fixes index :: u64
  assumes C: "unb_chain env k cb s ns cs xs b" and j: "unat index = unat (ub_head s) + j" "j < length xs"
  shows "unb_load (ns ! ((unat (ub_head s) mod 2 ^ k + j) div 2 ^ k), unat index mod 2 ^ k) s = Ret (xs ! j)"
proof -
  have "unat index mod 2 ^ k = (unat (ub_head s) mod 2 ^ k + j) mod 2 ^ k" by (simp add: j(1) mod_offset)
  then show ?thesis using unb_traverse_at(2) [OF C j(2) j(1)] by simp
qed

lemma unb_traverse_chain:
  assumes "unb_chain env k cb s ns cs xs b" and "ub_head_threshold s = ub_tail s"
    and "j \<le> length xs" and "unat index = unat (ub_head s) + j"
    and "j < length xs \<Longrightarrow> p = Some (ns ! ((unat (ub_head s) mod 2 ^ k + j) div 2 ^ k))"
  shows "\<exists>s'. unb_traverse callback index p c s = Ret (s', fst (visit callback c (drop j xs))) \<and>
    unb_chain env k cb s' ns cs (take j xs @ snd (visit callback c (drop j xs))) b"
  using assms
proof (induction "length xs - j" arbitrary: j xs index p c s)
  case 0
  then have j: "j = length xs" by simp
  then have "\<not> index < ub_head_threshold s"
    using unb_chainD(7) [OF 0(2)] 0(3,5) by (simp add: word_less_nat_alt)
  then show ?case
    using unb_chain_threshold [OF 0(2) order_refl] 0(3) j by (simp add: unb_traverse.simps [of callback index])
next
  case (Suc d)
  then have j: "j < length xs" by simp
  obtain c' y go where cb: "callback c (xs ! j) = (c', y, go)" by (metis prod_cases3)
  define q where "q = unat (ub_head s) mod 2 ^ k + j"
  note at = unb_traverse_at [OF Suc(3) j Suc(6), folded q_def]
  have p: "p = Some (ns ! (q div 2 ^ k))" using Suc(7) [OF j] by (simp add: q_def)
  obtain s1 where s1: "unb_store (ns ! (q div 2 ^ k), q mod 2 ^ k) y s = Ret s1"
    "unb_chain env k cb s1 ns cs (xs[j := y]) b" "s1 = s\<lparr>ub_heap := ub_heap s1\<rparr>"
    using unb_chain_store [OF Suc(3) j, of y, folded q_def] .
  have sel: "ub_tail s1 = ub_tail s" "ub_head_threshold s1 = ub_head_threshold s" "ub_head s1 = ub_head s"
    "ub_consumer_mask s1 = ub_consumer_mask s" by (subst s1(3), simp)+
  have lt: "index < ub_head_threshold s" and inc: "unat (index + 1) = unat (ub_head s) + Suc j"
    using unb_chainD(7,9) [OF Suc(3)] Suc(4,6) j unat_inc64 [of index] by (simp_all add: word_less_nat_alt)
  have d: "drop j xs = xs ! j # drop (Suc j) xs" using j by (rule Cons_nth_drop_Suc [symmetric])
  have nx: "(if ub_consumer_mask s = index AND ub_consumer_mask s
      then rbind (node_at (ub_heap s1) (Some (ns ! (q div 2 ^ k)))) (\<lambda>nd. Ret (qn_next (snd nd)))
      else Ret (Some (ns ! (q div 2 ^ k)))) = Ret (Some (ns ! (Suc q div 2 ^ k)))"
    using unb_traverse_at(3) [OF s1(2), of j index] j Suc(6) unfolding sel q_def by simp
  have st: "unb_traverse callback index p c s =
    (if go then unb_traverse callback (index + 1) (Some (ns ! (Suc q div 2 ^ k))) c' s1 else Ret (s1, c'))"
    unfolding p using at(1,2) s1(1) cb lt nx
    by (subst unb_traverse.simps, cases go) (simp_all add: sel Let_def split del: if_split)
  show ?case
  proof (cases go)
    case False
    then show ?thesis using st s1(2) cb d j by (simp add: upd_conv_take_nth_drop)
  next
    case True
    have "\<exists>s'. unb_traverse callback (index + 1) (Some (ns ! (Suc q div 2 ^ k))) c' s1 =
        Ret (s', fst (visit callback c' (drop (Suc j) (xs[j := y])))) \<and>
      unb_chain env k cb s' ns cs (take (Suc j) (xs[j := y]) @ snd (visit callback c' (drop (Suc j) (xs[j := y])))) b"
      using Suc(2) j s1(2) Suc(4) inc by (intro Suc(1)) (simp_all add: sel q_def)
    moreover have "take (Suc j) (xs[j := y]) = take j xs @ [y]" using j by (simp add: take_Suc_conv_app_nth)
    ultimately show ?thesis using st True cb d by (simp add: case_prod_unfold)
  qed
qed

lemma unb_ForeachElement_rel:
  assumes "unb_rel env k s xs b"
  shows "\<exists>s'. unb_ForeachElement callback c s = Ret (s', fst (visit callback c xs)) \<and>
    unb_rel env k s' (snd (visit callback c xs)) b"
proof -
  obtain ns cs cb where C: "unb_chain env k cb s ns cs xs b" using assms unfolding unb_rel_def by blast
  note R = unb_chainD [OF C]
  have "unb_chain env k cb (s\<lparr>ub_head_threshold := ub_tail s\<rparr>) ns cs xs b" by (rule unb_chain_threshold [OF C order_refl])
  from unb_traverse_chain [OF this, of 0 "ub_head s" "ub_head_ptr s" callback c] R(3) show ?thesis
    by (auto simp: unb_ForeachElement_def unb_rel_def)
qed

section \<open>A created queue\<close>

text \<open>The sizes a creator can serve: the bytes of a node's block do not overflow the 32 bits they are computed in.\<close>

definition unb_pre :: "'a unb_env \<Rightarrow> u32 \<Rightarrow> u32 \<Rightarrow> bool" where
  "unb_pre env node_size reserve_size \<longleftrightarrow> 0 < unat node_size \<and> unat node_size \<le> 2 ^ 31 \<and> 0 < unat (ue_sizeof env) \<and>
     unat (RoundToPowerOf2 node_size) * (unat (ue_sizeof env) + unat reserve_size) < 2 ^ 32"

lemma unat_element_size:
  assumes "unat (sz :: u64) + unat (r :: u32) < 2 ^ 32"
  shows "unat (ucast (sz + ucast r) :: u32) = unat sz + unat r"
proof -
  have "unat (sz + ucast r :: u64) = unat sz + unat r" using assms by (subst unat_add64) auto
  then show ?thesis using assms by (simp add: unsigned_ucast_eq take_bit_nat_eq_self)
qed

lemma unb_geo_created:
  assumes pre: "unb_pre env node_size reserve_size" and m: "malloc_ok env"
    and s: "s = (unb_new h)\<lparr>ub_node_size := RoundToPowerOf2 node_size, ub_producer_mask := ucast (RoundToPowerOf2 node_size - 1),
      ub_consumer_mask := ucast (RoundToPowerOf2 node_size - 1), ub_consumer_bits := k,
      ub_element_size := ucast (ue_sizeof env + ucast reserve_size), ub_cache := c\<rparr>"
    and k: "GetBits (RoundToPowerOf2 node_size) = Ret k"
  shows "unb_geo env k s"
proof -
  obtain j where j: "j \<le> 31" "RoundToPowerOf2 node_size = 2 ^ j"
    using pre RoundToPowerOf2_obtain [of node_size] by (auto simp: unb_pre_def)
  then have kj: "k = j" using k by simp
  have b: "2 ^ j * (unat (ue_sizeof env) + unat reserve_size) < 2 ^ 32" using pre j by (simp add: unb_pre_def)
  then have "1 * (unat (ue_sizeof env) + unat reserve_size) < 2 ^ 32"
    by (rule le_less_trans [rotated]) (intro mult_le_mono1, simp)
  then have e: "unat (ucast (ue_sizeof env + ucast reserve_size) :: u32) = unat (ue_sizeof env) + unat reserve_size"
    by (intro unat_element_size) simp
  have "(ucast (2 ^ j - 1 :: u32) :: u64) = 2 ^ j - 1"
    unfolding word_unat_eq_iff using j(1) by (simp add: unat_pow2_minus_1)
  then show ?thesis using pre m j e b by (simp add: unb_geo_def s unb_pre_def kj)
qed

lemma unb_Create_rel:
  assumes pre: "create_pre plat 8 cache_size" "unb_pre env node_size reserve_size"
    and mem: "\<And>b. memalign_ok b" "malloc_ok env"
  shows "\<exists>s k. unb_Create env plat memalign_ok junk name cache_size node_size reserve_size h = Ret (Some s) \<and>
    unb_rel env k s [] (2 ^ 63 - 1)"
proof -
  obtain k where k: "k \<le> 31" "RoundToPowerOf2 node_size = 2 ^ k"
    using pre(2) RoundToPowerOf2_obtain [of node_size] by (auto simp: unb_pre_def)
  then have bits: "GetBits (RoundToPowerOf2 node_size) = Ret k" by simp
  obtain j where j: "j \<le> 31" "RoundToPowerOf2 cache_size = 2 ^ j" "unat cache_size \<le> 2 ^ j"
    using pre(1) RoundToPowerOf2_obtain [of cache_size] by (auto simp: create_pre_def)
  have r: "unat (RoundToPowerOf2 cache_size) = 2 ^ j" and "unat (8::u64) \<le> unat (8::u32)" using j by simp_all
  from mpsc_Create_exact [OF pre(1) mem(1) this(2), where junk = junk and name = name]
  obtain m q where c: "mpsc_Create plat memalign_ok junk name 8 cache_size = Ret (Some (m, q))"
    "mpsc_exact 8 (m, q)" "contents m = []" "ring_size m = 2 ^ j" "cursor_budget m = 2 ^ 64 - 2 - 2 ^ j"
    unfolding r .
  define s1 where "s1 = (unb_new h)\<lparr>ub_node_size := RoundToPowerOf2 node_size, ub_producer_mask := ucast (RoundToPowerOf2 node_size - 1),
      ub_consumer_mask := ucast (RoundToPowerOf2 node_size - 1), ub_consumer_bits := k,
      ub_element_size := ucast (ue_sizeof env + ucast reserve_size), ub_cache := Some (m, q)\<rparr>"
  have "(2::nat) ^ j \<le> 2 ^ 31" using j(1) by (intro power_increasing) auto
  then have "unat cache_size + 2 ^ 63 \<le> cursor_budget m" using c(5) j(3) by simp
  then have "unb_pool env k (unat cache_size + 2 ^ 63) s1 [] []"
    using c(2,3) unb_geo_created [OF pre(2) mem(2) s1_def bits] by (intro unb_poolI [where c = "(m, q)"]) (auto simp: s1_def)
  from unb_fill_ok [OF this] obtain s2 cs where s2: "unb_fill env (unat cache_size) s1 = Ret s2"
    "unb_pool env k (2 ^ 63) s2 [] cs" "unb_frame [] s1 s2" using c(4) j(3) by (auto simp: s1_def)
  obtain s3 a cs' where s3: "unb_NewNode env s2 = Ret (s3, Some a)" "unb_pool env k (2 ^ 63) s3 ([] @ [a]) cs'"
    "unb_frame [] s2 s3" using unb_NewNode_ok [OF s2(2)] .
  define s where "s = s3\<lparr>ub_head_ptr := Some a, ub_tail_ptr := Some a\<rparr>"
  have sel: "ub_tail s3 = 1" "ub_head s3 = 1" "ub_head_threshold s3 = 0"
    using unb_frameD [OF unb_frame_trans [OF s2(3) s3(3)]] by (simp_all add: s1_def unb_new_def)
  have "unb_Create env plat memalign_ok junk name cache_size node_size reserve_size h = Ret (Some s)"
    using c(1) s2(1) s3(1) bits by (simp add: unb_Create_def unb_Init_def Let_def s1_def s_def)
  moreover have "unb_chain env k (2 ^ 63) s [a] cs' [] (2 ^ 63 - 1)"
  proof (rule unb_chainI)
    show "unb_pool env k (2 ^ 63) s [a] cs'" using s3(2) by (simp add: unb_pool_def unb_geo_def s_def)
    show "length [a] = Suc ((unat (ub_head s) mod 2 ^ k + length ([] :: 'a list)) div 2 ^ k)"
      using mod_less_divisor [of "2 ^ k" "unat (ub_head s)"] by (simp del: mod_less_divisor)
  qed (simp_all add: s_def sel linked_def)
  ultimately show ?thesis unfolding unb_rel_def by blast
qed

lemma spec_run_never_full:
  "length xs + pushes ops \<le> c \<Longrightarrow> OutPush kQueueFull \<notin> set (snd (spec_run c xs ops))"
proof (induction ops arbitrary: xs)
  case (Cons op ops)
  show ?case
  proof (cases "(c, xs, op)" rule: spec_step.cases)
    case (1 c' xs' x)
    then show ?thesis using Cons.IH [of "xs @ [x]"] Cons.prems by (simp add: Let_def case_prod_unfold)
  next
    case (2 c')
    then show ?thesis using Cons.IH [of "[]"] Cons.prems by (simp add: Let_def case_prod_unfold)
  next
    case (3 c' x xs')
    then show ?thesis using Cons.IH [of xs'] Cons.prems by (simp add: Let_def case_prod_unfold)
  qed
qed simp

text \<open>A created queue after any sequence of calls, with budget left for more.\<close>

lemma unb_rel_le: "unb_rel env k s xs b \<Longrightarrow> b' \<le> b \<Longrightarrow> unb_rel env k s xs b'"
  unfolding unb_rel_def unb_chain_def by fastforce

lemma unb_run_rel:
  assumes "create_pre plat 8 cache_size" "unb_pre env node_size reserve_size"
    and "\<And>b. memalign_ok b" "malloc_ok env" and "pushes ops + r < 2 ^ 63"
  shows "\<exists>s s' k. unb_Create env plat memalign_ok junk name cache_size node_size reserve_size h = Ret (Some s) \<and>
    impl_run (unb_Push env) unb_Pop s ops = Ret (s', snd (spec_run (2 ^ 64) [] ops)) \<and>
    unb_rel env k s' (fst (spec_run (2 ^ 64) [] ops)) r"
proof -
  obtain s k where s: "unb_Create env plat memalign_ok junk name cache_size node_size reserve_size h = Ret (Some s)"
    "unb_rel env k s [] (2 ^ 63 - 1)"
    using unb_Create_rel [OF assms(1,2) _ assms(4), of memalign_ok junk name h] assms(3) by blast
  have "unb_rel env k s [] (pushes ops + r)" using unb_rel_le [OF s(2)] assms(5) by simp
  moreover have "OutPush kQueueFull \<notin> set (snd (spec_run (2 ^ 64) [] ops))"
    using assms(5) by (intro spec_run_never_full) simp
  ultimately show ?thesis using unb.blocking_run_budget [of env k s "[]" ops r] s(1) by blast
qed

lemma spec_run_length: "length (fst (spec_run c xs ops)) \<le> length xs + pushes ops"
proof (induction ops arbitrary: xs)
  case (Cons op ops)
  have "length (fst (spec_step c xs op)) + pushes ops \<le> length xs + pushes (op # ops)"
    by (cases "(c, xs, op)" rule: spec_step.cases) auto
  with Cons.IH [of "fst (spec_step c xs op)"] show ?case by (simp add: Let_def case_prod_unfold)
qed simp

text \<open>\<^verbatim>\<open>NewNode\<close> never hands out \<^verbatim>\<open>NULL\<close>: it has written to the node before.\<close>

lemma node_at_Ret: "node_at h p = Ret nd \<Longrightarrow> p \<noteq> None"
  by (cases p) (simp_all add: node_at_def)

lemma unb_AllocateNewNode_not_null: "unb_AllocateNewNode env s = Ret (s', p) \<Longrightarrow> p \<noteq> None"
  by (auto simp: unb_AllocateNewNode_def Let_def split: option.splits if_splits dest: sym)

lemma unb_NewNode_not_null:
  assumes "unb_NewNode env s = Ret (s', p)"
  shows "p \<noteq> None"
proof -
  from assms obtain c c' r where "ub_cache s = Some c" "spsc_Pop 8 c = Ret (c', r)"
    by (cases "ub_cache s"; cases "spsc_Pop 8 (the (ub_cache s))") (auto simp: unb_NewNode_def)
  with assms unb_AllocateNewNode_not_null show ?thesis
    by (cases r) (fastforce simp: unb_NewNode_def Let_def rbind_Ret_iff dest: node_at_Ret)+
qed

text \<open>The entry calls are \<^verbatim>\<open>Push\<close> and \<^verbatim>\<open>Pop\<close> cut in two.\<close>

lemma unb_entry_push:
  "rbind (unb_AllocEntry s) (\<lambda>e. rbind (unb_store e x s) (unb_PostEntry env)) = unb_Push env s x"
  unfolding unb_AllocEntry_def unb_Push_def Let_def
proof (intro rbind_cong refl)
  fix e s0
  assume "unb_store e x s = Ret s0"
  from unb_store_keeps [OF this] have "ub_tail s0 = ub_tail s" "ub_producer_mask s0 = ub_producer_mask s"
    by (metis unbounded.select_convs unbounded.surjective unbounded.update_convs)+
  then show "unb_PostEntry env s0 = (if ub_tail s AND ub_producer_mask s = ub_producer_mask s0
      then rbind (unb_NewNode env s0) (\<lambda>(s1, p).
           rbind (node_at (ub_heap s1) (ub_tail_ptr s1)) (\<lambda>(a, nd).
           if p = None then Ret (s1\<lparr>ub_heap := fmupd a (nd\<lparr>qn_next := p\<rparr>) (ub_heap s1)\<rparr>, kNoMemory)
           else Ret (s1\<lparr>ub_heap := fmupd a (nd\<lparr>qn_next := p\<rparr>) (ub_heap s1),
                       ub_tail_ptr := p, ub_tail := ub_tail (s1\<lparr>ub_heap := fmupd a (nd\<lparr>qn_next := p\<rparr>) (ub_heap s1)\<rparr>) + 1\<rparr>, kSuccess)))
      else Ret (s0\<lparr>ub_tail := ub_tail s0 + 1\<rparr>, kSuccess))"
    by (simp add: unb_PostEntry_def Let_def)
qed

lemma unb_Head_WaitEntry: "unb_Head s = unb_WaitEntry s"
  by (simp add: unb_Head_def unb_WaitEntry_def Let_def case_prod_unfold split: bool.split)

lemma unb_entry_pop:
  "rbind (unb_WaitEntry s) (\<lambda>(s1, r). case r of None \<Rightarrow> Ret (s1, Inl kQueueEmpty)
     | Some e \<Rightarrow> rbind (unb_load e s1) (\<lambda>x. rbind (unb_FreeEntry s1) (\<lambda>s2. Ret (s2, Inr x)))) = unb_Pop s"
proof (cases "unb_HaveData s")
  case (Pair s1 some)
  then show ?thesis
    by (cases some; cases "entry_at s1 (ub_head_ptr s1) (ub_head s1 AND ub_consumer_mask s1)")
      (simp_all add: unb_WaitEntry_def unb_Pop_def)
qed

section \<open>Properties\<close>

text \<open>
  C15: a created \<^verbatim>\<open>SPSCUnboundedQueue\<close> is a first-in first-out buffer without a bound: over any sequence
  of fewer than \<open>2 ^ 63\<close> pushes and any pops, however its nodes are linked, cached, reused and freed, no freed node
  is touched, no assertion fails, every \<^verbatim>\<open>Push\<close> succeeds and every \<^verbatim>\<open>Pop\<close> returns what the abstract queue returns
  (which is never full, its capacity \<open>2 ^ 64\<close> being larger than the number of pushes). The allocator is
  assumed to return a block that is not in use.
\<close>

theorem unbounded_fifo:
  assumes "create_pre plat 8 cache_size" and "unb_pre env node_size reserve_size"
    and "\<And>b. memalign_ok b" and "malloc_ok env" and "pushes ops < 2 ^ 63"
  shows "\<exists>s s'. unb_Create env plat memalign_ok junk name cache_size node_size reserve_size h = Ret (Some s) \<and>
    impl_run (unb_Push env) unb_Pop s ops = Ret (s', snd (spec_run (2 ^ 64) [] ops)) \<and>
    OutPush kQueueFull \<notin> set (snd (spec_run (2 ^ 64) [] ops))"
proof -
  have "OutPush kQueueFull \<notin> set (snd (spec_run (2 ^ 64) [] ops))"
    using assms(5) by (intro spec_run_never_full) simp
  with unb_run_rel [OF assms(1,2) _ assms(4), of memalign_ok ops 0 junk name h] assms(3,5) show ?thesis by auto
qed

definition demo_unb :: "nat unb_env" where
  "demo_unb = \<lparr>ue_malloc = (\<lambda>h b. Some (Suc (fMax (finsert 0 (fmdom h))))), ue_fresh = (\<lambda>_. 0), ue_sizeof = 8\<rparr>"

lemma demo_unb_ok: "malloc_ok demo_unb" "unb_pre demo_unb 3 0"
proof -
  have "fmlookup h (Suc (fMax (finsert 0 (fmdom h)))) = None" for h :: "nat node_heap"
  proof (rule fmdom_notD, rule notI)
    assume "Suc (fMax (finsert 0 (fmdom h))) |\<in>| fmdom h"
    then have "Suc (fMax (finsert 0 (fmdom h))) \<le> fMax (finsert 0 (fmdom h))" by (intro fMax_ge finsertI2)
    then show False by simp
  qed
  then show "malloc_ok demo_unb" by (simp add: malloc_ok_def demo_unb_def)
  show "unb_pre demo_unb 3 0" using demo_pre(2) by (simp add: unb_pre_def demo_unb_def)
qed

theorem unbounded_fifo_witness:
  "\<exists>s s'. unb_Create demo_unb demo_platform (\<lambda>_. True) (\<lambda>_. None) ''q'' 3 3 0 fmempty = Ret (Some s) \<and>
     impl_run (unb_Push demo_unb) unb_Pop s [OpPush 5, OpPush 6, OpPop, OpPop, OpPop] =
       Ret (s', [OutPush kSuccess, OutPush kSuccess, OutPop (Inr 5), OutPop (Inr 6), OutPop (Inl kQueueEmpty)])"
  using unbounded_fifo [OF demo_pre(1) demo_unb_ok(2) _ demo_unb_ok(1), of "\<lambda>_. True"
      "[OpPush 5, OpPush 6, OpPop, OpPop, OpPop]" "\<lambda>_. None" "''q''" fmempty]
  by (simp del: impl_run.simps)

text \<open>
  C17: \<^verbatim>\<open>ElementAt\<close> on a created queue after any sequence of fewer than \<open>2 ^ 32\<close> pushes and any pops: for
  an index between the cursors it points at the element with that number, whichever node of the chain
  holds it, and for every other index it returns \<^verbatim>\<open>NULL\<close>; the queue still holds the same elements.
\<close>

theorem unbounded_element_at:
  assumes "create_pre plat 8 cache_size" and "unb_pre env node_size reserve_size"
    and "\<And>b. memalign_ok b" and "malloc_ok env" and "pushes ops < 2 ^ 32"
  shows "\<exists>s s'. unb_Create env plat memalign_ok junk name cache_size node_size reserve_size h = Ret (Some s) \<and>
    impl_run (unb_Push env) unb_Pop s ops = Ret (s', snd (spec_run (2 ^ 64) [] ops)) \<and>
    rbind (unb_ElementAt index s') (\<lambda>(s1, r). case r of None \<Rightarrow> Ret None
      | Some e \<Rightarrow> rbind (unb_load e s1) (\<lambda>x. Ret (Some x))) =
    Ret (if ub_head s' \<le> index \<and> index < ub_tail s'
      then Some (fst (spec_run (2 ^ 64) [] ops) ! (unat index - unat (ub_head s'))) else None)"
proof -
  define xs where "xs = fst (spec_run (2 ^ 64) [] ops)"
  obtain s s' k where s: "unb_Create env plat memalign_ok junk name cache_size node_size reserve_size h = Ret (Some s)"
    "impl_run (unb_Push env) unb_Pop s ops = Ret (s', snd (spec_run (2 ^ 64) [] ops))" "unb_rel env k s' xs 0"
    using unb_run_rel [OF assms(1,2) _ assms(4), of memalign_ok ops 0 junk name h] assms(3,5) unfolding xs_def by auto
  from s(3) obtain ns cs cb where C: "unb_chain env k cb s' ns cs xs 0" unfolding unb_rel_def by blast
  have "length xs < 2 ^ 32" using spec_run_length [of "2 ^ 64" "[]" ops] assms(5) by (simp add: xs_def)
  from unb_ElementAt_chain [OF C this, of index] obtain s1 where
    s1: "unb_ElementAt index s' = Ret (s1, if ub_head s' \<le> index \<and> index < ub_tail s'
      then Some (ns ! ((unat (ub_head s') mod 2 ^ k + (unat index - unat (ub_head s'))) div 2 ^ k), unat index mod 2 ^ k) else None)"
    "unb_chain env k cb s1 ns cs xs 0" "ub_head s1 = ub_head s'" by blast
  have "rbind (unb_ElementAt index s') (\<lambda>(s1, r). case r of None \<Rightarrow> Ret None
      | Some e \<Rightarrow> rbind (unb_load e s1) (\<lambda>x. Ret (Some x))) =
    Ret (if ub_head s' \<le> index \<and> index < ub_tail s' then Some (xs ! (unat index - unat (ub_head s'))) else None)"
    using unb_element_load [OF s1(2), of index "unat index - unat (ub_head s')"] unb_chainD(7) [OF C] s1(1,3)
    by (auto simp: word_le_nat_alt word_less_nat_alt)
  with s(1,2) show ?thesis unfolding xs_def by blast
qed

theorem unbounded_element_at_witness:
  "\<exists>s s'. unb_Create demo_unb demo_platform (\<lambda>_. True) (\<lambda>_. None) ''q'' 3 3 0 fmempty = Ret (Some s) \<and>
     impl_run (unb_Push demo_unb) unb_Pop s [OpPush 5, OpPush 6] = Ret (s', [OutPush kSuccess, OutPush kSuccess]) \<and>
     rbind (unb_ElementAt 2 s') (\<lambda>(s1, r). case r of None \<Rightarrow> Ret None
      | Some e \<Rightarrow> rbind (unb_load e s1) (\<lambda>x. Ret (Some x))) =
    Ret (if ub_head s' \<le> 2 \<and> 2 < ub_tail s' then Some ([5, 6] ! (unat (2::u64) - unat (ub_head s'))) else None)"
proof -
  have "spec_run (2 ^ 64) [] [OpPush 5, OpPush 6] = ([5, 6::nat], [OutPush kSuccess, OutPush kSuccess])" by simp
  from unbounded_element_at [OF demo_pre(1) demo_unb_ok(2) _ demo_unb_ok(1), of "\<lambda>_. True"
      "[OpPush 5, OpPush 6]" "\<lambda>_. None" "''q''" fmempty 2, unfolded this fst_conv snd_conv]
  show ?thesis by simp
qed

text \<open>
  C16: \<^verbatim>\<open>ForeachElement\<close> on a created queue after any calls runs the callback on the queue's elements, oldest first,
  until the callback declines, across the nodes of the chain and never on a slot that holds no element; what
  the callback writes is what later calls of \<^verbatim>\<open>Pop\<close> return.
\<close>

theorem unbounded_foreach:
  assumes "create_pre plat 8 cache_size" and "unb_pre env node_size reserve_size"
    and "\<And>b. memalign_ok b" and "malloc_ok env" and "pushes ops + pushes ops2 < 2 ^ 63"
  shows "\<exists>s s' s2 s3. unb_Create env plat memalign_ok junk name cache_size node_size reserve_size h = Ret (Some s) \<and>
    impl_run (unb_Push env) unb_Pop s ops = Ret (s', snd (spec_run (2 ^ 64) [] ops)) \<and>
    unb_ForeachElement callback c s' = Ret (s2, fst (visit callback c (fst (spec_run (2 ^ 64) [] ops)))) \<and>
    impl_run (unb_Push env) unb_Pop s2 ops2 =
      Ret (s3, snd (spec_run (2 ^ 64) (snd (visit callback c (fst (spec_run (2 ^ 64) [] ops)))) ops2))"
proof -
  define xs where "xs = fst (spec_run (2 ^ 64) [] ops)"
  obtain s s' k where s: "unb_Create env plat memalign_ok junk name cache_size node_size reserve_size h = Ret (Some s)"
    "impl_run (unb_Push env) unb_Pop s ops = Ret (s', snd (spec_run (2 ^ 64) [] ops))" "unb_rel env k s' xs (pushes ops2)"
    using unb_run_rel [OF assms(1,2) _ assms(4), of memalign_ok ops "pushes ops2" junk name h] assms(3,5)
    unfolding xs_def by auto
  obtain s2 where s2: "unb_ForeachElement callback c s' = Ret (s2, fst (visit callback c xs))"
    "unb_rel env k s2 (snd (visit callback c xs)) (pushes ops2)"
    using unb_ForeachElement_rel [OF s(3), of callback c] by blast
  have "length (snd (visit callback c xs)) = length xs" by (rule length_visit)
  then have "OutPush kQueueFull \<notin> set (snd (spec_run (2 ^ 64) (snd (visit callback c xs)) ops2))"
    using spec_run_length [of "2 ^ 64" "[]" ops, folded xs_def] assms(5) by (intro spec_run_never_full) simp
  then obtain s3 where "impl_run (unb_Push env) unb_Pop s2 ops2 =
      Ret (s3, snd (spec_run (2 ^ 64) (snd (visit callback c xs)) ops2))"
    using unb.blocking_run_refines [OF s2(2)] by blast
  with s(1,2) s2(1) show ?thesis unfolding xs_def by meson
qed

theorem unbounded_foreach_witness:
  "\<exists>s s' s2 s3. unb_Create demo_unb demo_platform (\<lambda>_. True) (\<lambda>_. None) ''q'' 3 3 0 fmempty = Ret (Some s) \<and>
     impl_run (unb_Push demo_unb) unb_Pop s [OpPush 5, OpPush 6, OpPush 7, OpPush 8, OpPop] =
       Ret (s', [OutPush kSuccess, OutPush kSuccess, OutPush kSuccess, OutPush kSuccess, OutPop (Inr 5)]) \<and>
     unb_ForeachElement (\<lambda>(acc :: nat) x. (acc + x, x + 10, x < 7)) 0 s' = Ret (s2, 13) \<and>
     impl_run (unb_Push demo_unb) unb_Pop s2 [OpPop, OpPop, OpPop] =
       Ret (s3, [OutPop (Inr 16), OutPop (Inr 17), OutPop (Inr 8)])"
  using unbounded_foreach [OF demo_pre(1) demo_unb_ok(2) _ demo_unb_ok(1), of "\<lambda>_. True"
      "[OpPush 5, OpPush 6, OpPush 7, OpPush 8, OpPop]" "[OpPop, OpPop, OpPop]" "\<lambda>_. None" "''q''" fmempty
      "\<lambda>(acc :: nat) x. (acc + x, x + 10, x < 7)" 0]
  by (simp del: impl_run.simps)

text \<open>
  The check of \<^verbatim>\<open>Push\<close> and \<^verbatim>\<open>PostEntry\<close> for a node that could not be allocated is dead code: neither ever
  returns \<^verbatim>\<open>kNoMemory\<close>. When the allocator fails, \<^verbatim>\<open>AllocateNewNode\<close> writes through the null pointer it was given.
\<close>

lemma unbounded_no_memory:
  "unb_Push env s x \<noteq> Ret (s', kNoMemory) \<and> unb_PostEntry env s \<noteq> Ret (s', kNoMemory) \<and>
   unb_AllocateNewNode (env\<lparr>ue_malloc := \<lambda>h b. None\<rparr>) s = Undef"
proof -
  have "unb_PostEntry env s \<noteq> Ret (s', kNoMemory)" for s
    using unb_NewNode_not_null [of env s]
    by (auto simp: unb_PostEntry_def rbind_Ret_iff Let_def split: if_splits)
  moreover from this have "unb_Push env s x \<noteq> Ret (s', kNoMemory)"
    unfolding unb_entry_push [symmetric] by (auto simp: rbind_Ret_iff)
  ultimately show ?thesis by (simp add: unb_AllocateNewNode_def Let_def)
qed

end
