(* ===== verification/Stream_Buffer.thy ===== *)
theory Stream_Buffer
  imports Bytes
begin

section \<open>The stream buffer\<close>

text \<open>
  \<^verbatim>\<open>StreamBuffer\<close> of \<^verbatim>\<open>include/adk/lock_free_stream_buffer.h\<close> and \<^verbatim>\<open>src/lock_free_stream_buffer.cpp\<close>: a ring of bytes between
  one producer and one consumer. The consumer is handed a contiguous window of the pending bytes. A
  message that runs over the end of the ring is made contiguous on the second request, by copying its
  first part in front of the ring, where \<^verbatim>\<open>prefix_size_\<close> bytes are kept free for that. The memory is one block:
  the prefix and, behind it, the ring.
\<close>

record stream_buffer =
  sb_memory :: "byte list"
  sb_buffer_size :: u32
  sb_prefix_size :: u32
  sb_buffer_mask :: u32
  sb_head :: u64
  sb_waiting_more :: bool
  sb_tail :: u64
  sb_tail_threshold :: u64

text \<open>\<^verbatim>\<open>ADK_ROUND_UP(x, ADK_CACHE_LINE_SIZE)\<close> at 32 bits, with the cache line of 64 bytes.\<close>

definition round_cache_line :: "u32 \<Rightarrow> u32" where
  "round_cache_line x = ((x + 63) div 64) * 64"

definition sb_Reset :: "stream_buffer \<Rightarrow> stream_buffer" where
  "sb_Reset s = (let s1 = s\<lparr>sb_head := 0, sb_tail := 0\<rparr>
     in s1\<lparr>sb_tail_threshold := sb_head s1 + ucast (sb_buffer_size s1)\<rparr>)"

definition sb_Init :: "(nat \<Rightarrow> byte) \<Rightarrow> u32 \<Rightarrow> u32 \<Rightarrow> stream_buffer \<Rightarrow> stream_buffer" where
  "sb_Init junk buffer_size prefix_size s =
     (let bsz = RoundToPowerOf2 buffer_size; psz = round_cache_line prefix_size
      in sb_Reset (s\<lparr>sb_buffer_size := bsz, sb_prefix_size := psz,
           sb_memory := map junk [0..<unat (psz + bsz)], sb_buffer_mask := bsz - 1\<rparr>))"

text \<open>The object is value-initialised, which clears its members, before \<^verbatim>\<open>Init\<close> runs.\<close>

definition sb_Create :: "(nat \<Rightarrow> byte) \<Rightarrow> u32 \<Rightarrow> u32 \<Rightarrow> stream_buffer option" where
  "sb_Create junk buffer_size prefix_size =
     (if buffer_size < prefix_size then None
      else Some (sb_Init junk buffer_size prefix_size
        \<lparr>sb_memory = [], sb_buffer_size = 0, sb_prefix_size = 0, sb_buffer_mask = 0, sb_head = 0,
         sb_waiting_more = False, sb_tail = 0, sb_tail_threshold = 0\<rparr>))"

text \<open>
  \<^verbatim>\<open>buffer_\<close> is \<^verbatim>\<open>memory_ + prefix_size_\<close>; \<open>ring_pos\<close> is the position of \<^verbatim>\<open>buffer_ + offset\<close> in the block. The caller's
  data is a list with the \<open>data_len\<close> bytes it passes.
\<close>

definition ring_pos :: "stream_buffer \<Rightarrow> u32 \<Rightarrow> nat" where
  "ring_pos s offset = unat (sb_prefix_size s) + unat offset"

definition sb_copy_in :: "byte list \<Rightarrow> u32 \<Rightarrow> stream_buffer \<Rightarrow> stream_buffer run" where
  "sb_copy_in data data_len s =
     (let offset = (ucast (sb_tail s AND ucast (sb_buffer_mask s)) :: u32)
      in if offset + data_len \<le> sb_buffer_size s
         then rbind (peek 0 (unat data_len) data) (\<lambda>bs.
              rbind (poke (ring_pos s offset) bs (sb_memory s)) (\<lambda>mem. Ret (s\<lparr>sb_memory := mem\<rparr>)))
         else let copy_len1 = sb_buffer_size s - offset; copy_len2 = data_len - copy_len1
              in rbind (peek 0 (unat copy_len1) data) (\<lambda>bs1.
                 rbind (poke (ring_pos s offset) bs1 (sb_memory s)) (\<lambda>mem1.
                 rbind (peek (unat copy_len1) (unat copy_len2) data) (\<lambda>bs2.
                 rbind (poke (ring_pos s 0) bs2 mem1) (\<lambda>mem2. Ret (s\<lparr>sb_memory := mem2\<rparr>))))))"

definition sb_Push :: "byte list \<Rightarrow> u32 \<Rightarrow> stream_buffer \<Rightarrow> (stream_buffer \<times> ErrorCode) run" where
  "sb_Push data data_len s =
     (let s1 = (if sb_tail_threshold s < sb_tail s + ucast data_len
                then s\<lparr>sb_tail_threshold := sb_head s + ucast (sb_buffer_size s)\<rparr> else s)
      in if sb_tail_threshold s1 < sb_tail s1 + ucast data_len then Ret (s1, kFailure)
         else rbind (sb_copy_in data data_len s1) (\<lambda>s2.
              let s3 = s2\<lparr>sb_tail := sb_tail s2 + ucast data_len\<rparr>
              in rassert (sb_head s3 \<le> sb_tail s3) (Ret (s3, kSuccess))))"

text \<open>\<^verbatim>\<open>WaitBuffer\<close> returns the position of the window in the block and its length.\<close>

definition sb_WaitBuffer :: "stream_buffer \<Rightarrow> (stream_buffer \<times> nat \<times> u32) run" where
  "sb_WaitBuffer s =
     (let data_len = (ucast (sb_tail s - sb_head s) :: u32);
          offset = (ucast (sb_head s AND ucast (sb_buffer_mask s)) :: u32)
      in if offset + data_len \<le> sb_buffer_size s then Ret (s, ring_pos s offset, data_len)
         else let left_len = sb_buffer_size s - offset
              in if sb_waiting_more s \<and> left_len \<le> sb_prefix_size s
                 then rbind (peek (ring_pos s offset) (unat left_len) (sb_memory s)) (\<lambda>bs.
                      rbind (poke (ring_pos s 0 - unat left_len) bs (sb_memory s)) (\<lambda>mem.
                      Ret (s\<lparr>sb_memory := mem\<rparr>, ring_pos s 0 - unat left_len, data_len)))
                 else Ret (s\<lparr>sb_waiting_more := True\<rparr>, ring_pos s offset, left_len))"

definition sb_FreeBuffer :: "u32 \<Rightarrow> stream_buffer \<Rightarrow> stream_buffer run" where
  "sb_FreeBuffer len s =
     (let s1 = s\<lparr>sb_head := sb_head s + ucast len\<rparr>
      in rassert (sb_head s1 \<le> sb_tail s1) (Ret (s1\<lparr>sb_waiting_more := False\<rparr>)))"

section \<open>The contract of the stream\<close>

text \<open>
  A user's calls: push some bytes, look at the window, free some bytes. The abstract stream is the list of pending
  bytes; which part of it a window shows depends on where in the ring the first byte lies (\<open>h mod N\<close>) and
  on whether the user asked before without freeing.
\<close>

datatype stream_op = SPush "byte list" | SWait | SFree nat

datatype stream_out = SPushed ErrorCode | SWindow "byte list" | SFreed

record stream_state =
  st_pending :: "byte list"
  st_freed :: nat
  st_asked :: bool

fun stream_step :: "nat \<Rightarrow> nat \<Rightarrow> stream_state \<Rightarrow> stream_op \<Rightarrow> (stream_state \<times> stream_out) option" where
  "stream_step N P t (SPush d) =
     Some (if length (st_pending t) + length d \<le> N
           then (t\<lparr>st_pending := st_pending t @ d\<rparr>, SPushed kSuccess) else (t, SPushed kFailure))"
| "stream_step N P t SWait =
     Some (let left = N - st_freed t mod N
           in if length (st_pending t) \<le> left \<or> st_asked t \<and> left \<le> P then (t, SWindow (st_pending t))
              else (t\<lparr>st_asked := True\<rparr>, SWindow (take left (st_pending t))))"
| "stream_step N P t (SFree n) =
     (if n \<le> length (st_pending t)
      then Some (\<lparr>st_pending = drop n (st_pending t), st_freed = st_freed t + n, st_asked = False\<rparr>, SFreed) else None)"

fun sb_call :: "stream_buffer \<Rightarrow> stream_op \<Rightarrow> (stream_buffer \<times> stream_out) run" where
  "sb_call s (SPush d) = rbind (sb_Push d (of_nat (length d)) s) (\<lambda>(s', ec). Ret (s', SPushed ec))"
| "sb_call s SWait = rbind (sb_WaitBuffer s) (\<lambda>(s', i, n). rbind (peek i (unat n) (sb_memory s')) (\<lambda>bs. Ret (s', SWindow bs)))"
| "sb_call s (SFree n) = rbind (sb_FreeBuffer (of_nat n) s) (\<lambda>s'. Ret (s', SFreed))"

fun stream_run :: "nat \<Rightarrow> nat \<Rightarrow> stream_state \<Rightarrow> stream_op list \<Rightarrow> (stream_state \<times> stream_out list) option" where
  "stream_run N P t [] = Some (t, [])"
| "stream_run N P t (op # ops) =
     (case stream_step N P t op of None \<Rightarrow> None
      | Some (t', out) \<Rightarrow> (case stream_run N P t' ops of None \<Rightarrow> None | Some (t'', outs) \<Rightarrow> Some (t'', out # outs)))"

fun sb_run :: "stream_buffer \<Rightarrow> stream_op list \<Rightarrow> (stream_buffer \<times> stream_out list) run" where
  "sb_run s [] = Ret (s, [])"
| "sb_run s (op # ops) = rbind (sb_call s op) (\<lambda>(s', out). rbind (sb_run s' ops) (\<lambda>(s'', outs). Ret (s'', out # outs)))"

fun op_bytes :: "stream_op \<Rightarrow> nat" where
  "op_bytes (SPush d) = length d"
| "op_bytes _ = 0"

section \<open>The buffer implements the stream\<close>

lemma poke_Ret:
  assumes "i + length bs \<le> length mem"
  obtains mem' where "poke i bs mem = Ret mem'" "length mem' = length mem"
    "\<And>j. j < length mem \<Longrightarrow> mem' ! j = (if i \<le> j \<and> j < i + length bs then bs ! (j - i) else mem ! j)"
proof -
  define mem' where "mem' = take i mem @ bs @ drop (i + length bs) mem"
  have "poke i bs mem = Ret mem'" "length mem' = length mem" using assms by (simp_all add: poke_def mem'_def)
  moreover have "mem' ! j = (if i \<le> j \<and> j < i + length bs then bs ! (j - i) else mem ! j)" if "j < length mem" for j
    using assms that by (auto simp: mem'_def nth_append min_def)
  ultimately show thesis using that by blast
qed

lemma peek_Ret:
  assumes "i + n \<le> length mem" "length bs = n" "\<And>j. j < n \<Longrightarrow> mem ! (i + j) = bs ! j"
  shows "peek i n mem = Ret bs"
  using assms by (auto simp: peek_def intro!: nth_equalityI)

text \<open>
  The buffer \<open>s\<close> of \<open>N\<close> bytes with a prefix of \<open>P\<close> holds the stream \<open>t\<close>, and \<open>b\<close> more bytes may be pushed before
  the cursors leave 63 bits.
\<close>

definition sb_rel :: "nat \<Rightarrow> nat \<Rightarrow> stream_buffer \<Rightarrow> stream_state \<Rightarrow> nat \<Rightarrow> bool" where
  "sb_rel N P s t b \<longleftrightarrow>
     (\<exists>k \<le> 31. N = 2 ^ k \<and> sb_buffer_size s = 2 ^ k \<and> sb_buffer_mask s = 2 ^ k - 1) \<and> unat (sb_prefix_size s) = P \<and>
     length (sb_memory s) = P + N \<and> unat (sb_head s) = st_freed t \<and> unat (sb_tail s) = st_freed t + length (st_pending t) \<and>
     length (st_pending t) \<le> N \<and> unat (sb_tail_threshold s) \<le> st_freed t + N \<and>
     unat (sb_tail s) + b < 2 ^ 63 \<and> sb_waiting_more s = st_asked t \<and>
     (\<forall>j < length (st_pending t). sb_memory s ! (P + (st_freed t + j) mod N) = st_pending t ! j)"

lemma sb_relD:
  assumes "sb_rel N P s t b"
  shows "0 < N" "N \<le> 2 ^ 31" "unat (sb_buffer_size s) = N" "unat (sb_prefix_size s) = P" "length (sb_memory s) = P + N"
    "unat (sb_head s) = st_freed t" "unat (sb_tail s) = st_freed t + length (st_pending t)" "length (st_pending t) \<le> N"
    "unat (sb_tail_threshold s) \<le> st_freed t + N" "unat (sb_tail s) + b < 2 ^ 63" "sb_waiting_more s = st_asked t"
    "j < length (st_pending t) \<Longrightarrow> sb_memory s ! (P + (st_freed t + j) mod N) = st_pending t ! j"
    "unat (ucast (x AND ucast (sb_buffer_mask s)) :: u32) = unat (x::u64) mod N"
proof -
  obtain k where k: "k \<le> 31" "N = 2 ^ k" "sb_buffer_size s = 2 ^ k" "sb_buffer_mask s = 2 ^ k - 1"
    using assms unfolding sb_rel_def by blast
  show "0 < N" "unat (sb_buffer_size s) = N" using k by simp_all
  show N: "N \<le> 2 ^ 31" unfolding k(2) using k(1) by (intro power_increasing) auto
  have "(ucast (2 ^ k - 1 :: u32) :: u64) = 2 ^ k - 1"
    unfolding word_unat_eq_iff using k(1) by (simp add: unat_pow2_minus_1)
  moreover have "unat (x AND (2 ^ k - 1)) = unat x mod N" using k by (simp add: unat_and_pow2_mask)
  moreover have "unat x mod N < 2 ^ 32" using N k(2) by (intro less_le_trans [OF mod_less_divisor]) simp_all
  ultimately show "unat (ucast (x AND ucast (sb_buffer_mask s)) :: u32) = unat x mod N"
    using k(4) by (simp add: unsigned_ucast_eq take_bit_nat_eq_self)
qed (use assms in \<open>auto simp: sb_rel_def\<close>)

lemma ring_wrap:
  fixes c j N :: nat
  assumes "j \<le> N" "0 < N"
  shows "(c + j) mod N = (if c mod N + j < N then c mod N + j else c mod N + j - N)"
proof -
  have "(c + j) mod N = (c mod N + j) mod N" by (simp add: mod_add_left_eq)
  moreover have "(c mod N + j) mod N = c mod N + j - N" if "N \<le> c mod N + j"
  proof -
    have "c mod N < N" using assms(2) by simp
    then have "c mod N + j - N < N" using assms(1) by linarith
    then show ?thesis using le_mod_geq [OF that] by simp
  qed
  ultimately show ?thesis by (simp add: not_less)
qed

text \<open>The copy of \<^verbatim>\<open>Push\<close>, in one piece or two, writes the bytes at the ring positions that follow the tail.\<close>

lemma sb_copy_in_ok:
  assumes R: "sb_rel N P s t b" and room: "length (st_pending t) + length d \<le> N"
  obtains mem where "sb_copy_in d (of_nat (length d)) s = Ret (s\<lparr>sb_memory := mem\<rparr>)" "length mem = P + N"
    "\<And>j. j < length d \<Longrightarrow> mem ! (P + (unat (sb_tail s) + j) mod N) = d ! j"
    "\<And>j. length d \<le> j \<Longrightarrow> j < N \<Longrightarrow>
      mem ! (P + (unat (sb_tail s) + j) mod N) = sb_memory s ! (P + (unat (sb_tail s) + j) mod N)"
proof -
  note D = sb_relD [OF R]
  define n where "n = length d"
  define u where "u = unat (sb_tail s) mod N"
  have n: "n \<le> N" "unat (of_nat n :: u32) = n" using room D(2) by (simp_all add: n_def unat_of_nat32)
  have u: "u < N" using D(1) by (simp add: u_def)
  define off where "off = (ucast (sb_tail s AND ucast (sb_buffer_mask s)) :: u32)"
  have off: "unat off = u" using D(13) by (simp add: off_def u_def)
  have sum: "unat (off + of_nat n) = u + n" using n u D(2) off by (simp add: unat_word_ariths)
  note w = ring_wrap [of _ N "unat (sb_tail s)", folded u_def]
  show thesis
  proof (cases "u + n \<le> N")
    case True
    then have "P + u + length d \<le> length (sb_memory s)" using D(5) by (simp add: n_def)
    then obtain mem where m: "poke (P + u) d (sb_memory s) = Ret mem" "length mem = P + N"
      "\<And>j. j < P + N \<Longrightarrow> mem ! j = (if P + u \<le> j \<and> j < P + u + length d then d ! (j - (P + u)) else sb_memory s ! j)"
      using poke_Ret [of "P + u" d "sb_memory s"] D(5) by metis
    have "peek 0 n d = Ret d" by (rule peek_Ret) (simp_all add: n_def)
    then have "sb_copy_in d (of_nat n) s = Ret (s\<lparr>sb_memory := mem\<rparr>)"
      using True m(1) sum off n D(3,4) unfolding sb_copy_in_def off_def [symmetric] ring_pos_def Let_def
      by (simp add: word_le_nat_alt)
    moreover have "mem ! (P + (unat (sb_tail s) + j) mod N) = (if j < n then d ! j else sb_memory s ! (P + (unat (sb_tail s) + j) mod N))"
      if "j < N" for j
    proof -
      have lt: "(unat (sb_tail s) + j) mod N < N" using D(1) by simp
      have "(unat (sb_tail s) + j) mod N = (if u + j < N then u + j else u + j - N)" using w [of j] that by simp
      then show ?thesis using m(3) [of "P + (unat (sb_tail s) + j) mod N"] lt True that u by (auto simp: n_def)
    qed
    ultimately show thesis using that m(2) n(1) by (auto simp: n_def)
  next
    case False
    define c where "c = N - u"
    have c: "c < n" "u + c = N" "0 < c" using False u by (auto simp: c_def)
    have c1: "unat (sb_buffer_size s - off) = c" using off D(3) u by (simp add: c_def unat_sub word_le_nat_alt)
    have c2: "unat (of_nat n - (sb_buffer_size s - off)) = n - c" using c1 n c by (simp add: unat_sub word_le_nat_alt)
    have "P + u + length (take c d) \<le> length (sb_memory s)" using D(5) c by (simp add: n_def)
    then obtain m1 where m1: "poke (P + u) (take c d) (sb_memory s) = Ret m1" "length m1 = P + N"
      "\<And>j. j < P + N \<Longrightarrow> m1 ! j = (if P + u \<le> j \<and> j < P + u + length (take c d) then take c d ! (j - (P + u)) else sb_memory s ! j)"
      using poke_Ret [of "P + u" "take c d" "sb_memory s"] D(5) by metis
    have "P + length (drop c d) \<le> length m1" using m1(2) n(1) by (simp add: n_def)
    then obtain m2 where m2: "poke P (drop c d) m1 = Ret m2" "length m2 = P + N"
      "\<And>j. j < P + N \<Longrightarrow> m2 ! j = (if P \<le> j \<and> j < P + length (drop c d) then drop c d ! (j - P) else m1 ! j)"
      using poke_Ret [of P "drop c d" m1] m1(2) by metis
    have "peek 0 c d = Ret (take c d)" "peek c (n - c) d = Ret (drop c d)"
      using c by (auto intro!: peek_Ret simp: n_def)
    then have "sb_copy_in d (of_nat n) s = Ret (s\<lparr>sb_memory := m2\<rparr>)"
      using False m1(1) m2(1) sum off D(3,4) c1 c2 unfolding sb_copy_in_def off_def [symmetric] ring_pos_def Let_def
      by (simp add: word_le_nat_alt)
    moreover have "m2 ! (P + (unat (sb_tail s) + j) mod N) = (if j < n then d ! j else sb_memory s ! (P + (unat (sb_tail s) + j) mod N))"
      if "j < N" for j
    proof -
      have lt: "(unat (sb_tail s) + j) mod N < N" using D(1) by simp
      have "(unat (sb_tail s) + j) mod N = (if j < c then u + j else j - c)" using w [of j] that c by auto
      then show ?thesis
        using m1(3) [of "P + (unat (sb_tail s) + j) mod N"] m2(3) [of "P + (unat (sb_tail s) + j) mod N"] lt that c n(1)
        by (auto simp: n_def)
    qed
    ultimately show thesis using that m2(2) n(1) by (auto simp: n_def)
  qed
qed

lemma sb_threshold:
  assumes R: "sb_rel N P s t b" and n: "n \<le> b" "n < 2 ^ 32"
  defines "s1 \<equiv> (if sb_tail_threshold s < sb_tail s + ucast (of_nat n :: u32)
    then s\<lparr>sb_tail_threshold := sb_head s + ucast (sb_buffer_size s)\<rparr> else s)"
  shows "sb_rel N P s1 t b" and "sb_tail_threshold s1 < sb_tail s1 + ucast (of_nat n :: u32) \<longleftrightarrow> \<not> length (st_pending t) + n \<le> N"
    and "unat (sb_tail s1 + ucast (of_nat n :: u32)) = unat (sb_tail s1) + n" and "sb_tail s1 = sb_tail s"
proof -
  note D = sb_relD [OF R]
  have u: "unat (ucast (of_nat n :: u32) :: u64) = n" using n(2) by (simp only: unat_ucast_32_64 unat_of_nat32)
  have sum: "unat (sb_tail s + ucast (of_nat n :: u32)) = unat (sb_tail s) + n"
    using unat_add64 [of "sb_tail s" "ucast (of_nat n :: u32)"] D(10) n(1) unfolding u by simp
  have "unat (sb_head s + ucast (sb_buffer_size s)) = unat (sb_head s) + N"
    using unat_add64 [of "sb_head s" "ucast (sb_buffer_size s)"] D(2,3,6,7,10) by simp
  then have T: "unat (sb_head s + ucast (sb_buffer_size s)) = st_freed t + N" using D(6) by simp
  show t: "sb_tail s1 = sb_tail s" by (simp add: s1_def)
  show "unat (sb_tail s1 + ucast (of_nat n :: u32)) = unat (sb_tail s1) + n" unfolding t by (rule sum)
  show "sb_rel N P s1 t b" using R T by (simp add: s1_def sb_rel_def)
  show "sb_tail_threshold s1 < sb_tail s1 + ucast (of_nat n :: u32) \<longleftrightarrow> \<not> length (st_pending t) + n \<le> N"
    using D(7,9) T sum unfolding s1_def word_less_nat_alt by auto
qed

lemma sb_Push_rel:
  assumes R: "sb_rel N P s t (length d + b)" and n: "length d < 2 ^ 32"
    and st: "stream_step N P t (SPush d) = Some (t', out)"
  shows "\<exists>s'. sb_call s (SPush d) = Ret (s', out) \<and> sb_rel N P s' t' b"
proof -
  define s1 where "s1 = (if sb_tail_threshold s < sb_tail s + ucast (of_nat (length d) :: u32)
    then s\<lparr>sb_tail_threshold := sb_head s + ucast (sb_buffer_size s)\<rparr> else s)"
  note T = sb_threshold [OF R _ n, folded s1_def, simplified] note D = sb_relD [OF T(1)]
  show ?thesis
  proof (cases "length (st_pending t) + length d \<le> N")
    case False
    then have "sb_call s (SPush d) = Ret (s1, SPushed kFailure)"
      using T(2) by (simp add: sb_Push_def s1_def [symmetric])
    moreover have "sb_rel N P s1 t b" using T(1) by (simp add: sb_rel_def)
    ultimately show ?thesis using st False by auto
  next
    case True
    obtain mem where m: "sb_copy_in d (of_nat (length d)) s1 = Ret (s1\<lparr>sb_memory := mem\<rparr>)" "length mem = P + N"
      "\<And>j. j < length d \<Longrightarrow> mem ! (P + (unat (sb_tail s1) + j) mod N) = d ! j"
      "\<And>j. length d \<le> j \<Longrightarrow> j < N \<Longrightarrow>
        mem ! (P + (unat (sb_tail s1) + j) mod N) = sb_memory s1 ! (P + (unat (sb_tail s1) + j) mod N)"
      using sb_copy_in_ok [OF T(1) True] by blast
    define s' where "s' = s1\<lparr>sb_memory := mem, sb_tail := sb_tail s1 + ucast (of_nat (length d) :: u32)\<rparr>"
    have tl: "unat (sb_tail s') = st_freed t + (length (st_pending t) + length d)" using T(3) D(7) by (simp add: s'_def)
    then have "sb_head s' \<le> sb_tail s'" using D(6) by (simp add: word_le_nat_alt s'_def)
    then have "sb_call s (SPush d) = Ret (s', SPushed kSuccess)"
      using T(2) True m(1) by (simp add: sb_Push_def s1_def [symmetric] s'_def Let_def)
    moreover have "mem ! (P + (st_freed t + j) mod N) = (st_pending t @ d) ! j" if j: "j < length (st_pending t @ d)" for j
    proof (cases "j < length (st_pending t)")
      case True
      define i where "i = N - length (st_pending t) + j"
      have "unat (sb_tail s1) + i = st_freed t + j + N" using D(7,8) by (simp add: i_def)
      then have e: "(unat (sb_tail s1) + i) mod N = (st_freed t + j) mod N" by (metis mod_add_self2)
      have "length d \<le> i" "i < N" using \<open>length (st_pending t) + length d \<le> N\<close> True by (auto simp: i_def)
      then show ?thesis using m(4) [of i] D(12) [OF True] True unfolding e by (simp add: nth_append)
    next
      case False
      then show ?thesis using m(3) [of "j - length (st_pending t)"] j D(7) by (simp add: nth_append)
    qed
    then have "sb_rel N P s' (t\<lparr>st_pending := st_pending t @ d\<rparr>) b"
      using T(1) tl True m(2) D(10) by (auto simp: sb_rel_def s'_def)
    ultimately show ?thesis using st True by auto
  qed
qed

lemma sb_Free_rel:
  assumes R: "sb_rel N P s t b" and st: "stream_step N P t (SFree n) = Some (t', out)"
  shows "\<exists>s'. sb_call s (SFree n) = Ret (s', out) \<and> sb_rel N P s' t' b"
proof -
  note D = sb_relD [OF R]
  have n: "n \<le> length (st_pending t)" and t': "t' = \<lparr>st_pending = drop n (st_pending t), st_freed = st_freed t + n, st_asked = False\<rparr>" "out = SFreed"
    using st by (auto split: if_splits)
  then have "n < 2 ^ 32" using D(2,8) by simp
  then have u: "unat (ucast (of_nat n :: u32) :: u64) = n" by (simp only: unat_ucast_32_64 unat_of_nat32)
  define s' where "s' = s\<lparr>sb_head := sb_head s + ucast (of_nat n :: u32), sb_waiting_more := False\<rparr>"
  have h: "unat (sb_head s + ucast (of_nat n :: u32)) = st_freed t + n"
    using unat_add64 [of "sb_head s" "ucast (of_nat n :: u32)"] D(6,7,10) n unfolding u by simp
  then have "sb_call s (SFree n) = Ret (s', out)"
    using D(7) n t'(2) by (simp add: sb_FreeBuffer_def Let_def word_le_nat_alt s'_def)
  moreover have "sb_memory s ! (P + (st_freed t + n + j) mod N) = st_pending t ! (n + j)" if "j < length (st_pending t) - n" for j
    using D(12) [of "n + j"] that by (simp add: add.assoc)
  then have "sb_rel N P s' t' b" using R h n by (auto simp: sb_rel_def s'_def t'(1))
  ultimately show ?thesis by blast
qed

text \<open>The window, in the ring or copied in front of it.\<close>

lemma sb_offset:
  assumes R: "sb_rel N P s t b"
  defines "off \<equiv> (ucast (sb_head s AND ucast (sb_buffer_mask s)) :: u32)" and "len \<equiv> (ucast (sb_tail s - sb_head s) :: u32)"
    and "left \<equiv> N - st_freed t mod N"
  shows "unat len = length (st_pending t)" "unat off = st_freed t mod N" "unat (sb_buffer_size s - off) = left"
    "off + len \<le> sb_buffer_size s \<longleftrightarrow> length (st_pending t) \<le> left"
    "0 < left" "left \<le> N" "st_freed t mod N + left = N"
    "j < length (st_pending t) \<Longrightarrow> (st_freed t + j) mod N = (if j < left then st_freed t mod N + j else j - left)"
proof -
  note D = sb_relD [OF R]
  have m: "st_freed t mod N < N" using D(1) by simp
  have "unat (sb_tail s - sb_head s) = length (st_pending t)" using D(6,7) by (simp add: unat_sub64)
  moreover have "length (st_pending t) < 2 ^ 32" using D(2,8) by simp
  ultimately show len: "unat len = length (st_pending t)" by (simp add: len_def unsigned_ucast_eq take_bit_nat_eq_self)
  show off: "unat off = st_freed t mod N" using D(13) D(6) by (simp add: off_def)
  show "unat (sb_buffer_size s - off) = left" using off D(3) m by (simp add: left_def unat_sub word_le_nat_alt)
  have "unat (off + len) = unat off + unat len" using off len m D(2,8) by (simp add: unat_word_ariths)
  then show "off + len \<le> sb_buffer_size s \<longleftrightarrow> length (st_pending t) \<le> left"
    using off len D(3) m by (auto simp: word_le_nat_alt left_def)
  show "0 < left" "left \<le> N" "st_freed t mod N + left = N" using m by (simp_all add: left_def)
  show "j < length (st_pending t) \<Longrightarrow> (st_freed t + j) mod N = (if j < left then st_freed t mod N + j else j - left)"
    using ring_wrap [of j N "st_freed t"] D(1,8) m by (auto simp: left_def)
qed

lemma sb_Wait_prefix:
  assumes R: "sb_rel N P s t b" and w: "\<not> length (st_pending t) \<le> N - st_freed t mod N" "st_asked t" "N - st_freed t mod N \<le> P"
  shows "\<exists>s'. sb_call s SWait = Ret (s', SWindow (st_pending t)) \<and> sb_rel N P s' t b"
proof -
  note D = sb_relD [OF R]
  define left where "left = N - st_freed t mod N"
  note F = sb_offset [OF R, folded left_def]
  have rp: "ring_pos s (ucast (sb_head s AND ucast (sb_buffer_mask s))) = P + st_freed t mod N" "ring_pos s 0 = P"
    using F(2) D(4) by (simp_all add: ring_pos_def)
  define bs where "bs = take left (st_pending t)"
  have lt: "left < length (st_pending t)" and bs: "length bs = left" and lP: "left \<le> P" using w by (auto simp: bs_def left_def)
  have pk: "peek (P + st_freed t mod N) left (sb_memory s) = Ret bs"
  proof (rule peek_Ret)
    show "sb_memory s ! (P + st_freed t mod N + j) = bs ! j" if "j < left" for j
      using D(12) [of j] F(8) [of j] that lt by (simp add: bs_def add.assoc)
  qed (use D(5) F(7) bs in auto)
  have "P - left + length bs \<le> length (sb_memory s)" using bs lP D(5) by simp
  then obtain mem where m: "poke (P - left) bs (sb_memory s) = Ret mem" "length mem = P + N"
    "\<And>j. j < P + N \<Longrightarrow> mem ! j = (if P - left \<le> j \<and> j < P - left + length bs then bs ! (j - (P - left)) else sb_memory s ! j)"
    using poke_Ret [of "P - left" bs "sb_memory s"] D(5) by metis
  have ring: "mem ! (P + i) = sb_memory s ! (P + i)" if "i < N" for i using m(3) [of "P + i"] that bs lP by simp
  have "mem ! (P - left + j) = st_pending t ! j" if j: "j < length (st_pending t)" for j
  proof (cases "j < left")
    case True
    then have "P - left + j < P + N" "P - left + j < P - left + length bs" using bs lP by simp_all
    then show ?thesis using m(3) [of "P - left + j"] True by (simp add: bs_def)
  next
    case False
    then have e: "P - left + j = P + (j - left)" "j - left < N" using lP j D(8) F(5) by auto
    show ?thesis unfolding e(1) ring [OF e(2)] using D(12) [OF j] F(8) [OF j] False by simp
  qed
  then have "peek (P - left) (length (st_pending t)) mem = Ret (st_pending t)"
    using m(2) lP D(8) F(5) by (intro peek_Ret) auto
  then have "sb_call s SWait = Ret (s\<lparr>sb_memory := mem\<rparr>, SWindow (st_pending t))"
    using w lt lP pk m(1) F(1,3,4) rp D(4,11) by (simp add: sb_WaitBuffer_def Let_def word_le_nat_alt not_le)
  moreover have "sb_rel N P (s\<lparr>sb_memory := mem\<rparr>) t b" using R m(2) ring D(1) by (simp add: sb_rel_def)
  ultimately show ?thesis by blast
qed

lemma sb_Wait_rel:
  assumes R: "sb_rel N P s t b" and st: "stream_step N P t SWait = Some (t', out)"
  shows "\<exists>s'. sb_call s SWait = Ret (s', out) \<and> sb_rel N P s' t' b"
proof -
  note D = sb_relD [OF R]
  define left where "left = N - st_freed t mod N"
  note F = sb_offset [OF R, folded left_def]
  have rp: "ring_pos s (ucast (sb_head s AND ucast (sb_buffer_mask s))) = P + st_freed t mod N"
    using F(2) D(4) by (simp add: ring_pos_def)
  have pk: "peek (P + st_freed t mod N) n (sb_memory s) = Ret (take n (st_pending t))"
    if "n \<le> left" "n \<le> length (st_pending t)" for n
  proof (rule peek_Ret)
    show "sb_memory s ! (P + st_freed t mod N + j) = take n (st_pending t) ! j" if "j < n" for j
      using D(12) [of j] F(8) [of j] that \<open>n \<le> left\<close> \<open>n \<le> length (st_pending t)\<close> by (simp add: add.assoc)
  qed (use that D(5) F(7) in auto)
  consider (direct) "length (st_pending t) \<le> left" | (prefix) "\<not> length (st_pending t) \<le> left" "st_asked t" "left \<le> P"
    | (part) "\<not> length (st_pending t) \<le> left" "\<not> (st_asked t \<and> left \<le> P)" by blast
  then show ?thesis
  proof cases
    case direct
    then have "sb_call s SWait = Ret (s, SWindow (st_pending t))"
      using pk [of "length (st_pending t)"] F(1,4) rp by (simp add: sb_WaitBuffer_def Let_def)
    moreover have "t' = t" "out = SWindow (st_pending t)" using st direct by (auto simp: left_def)
    ultimately show ?thesis using R by blast
  next
    case prefix
    with sb_Wait_prefix [OF R] st show ?thesis by (auto simp: left_def)
  next
    case part
    then have "sb_call s SWait = Ret (s\<lparr>sb_waiting_more := True\<rparr>, SWindow (take left (st_pending t)))"
      using pk [of left] F(1,3,4) rp D(4,11) by (auto simp: sb_WaitBuffer_def Let_def word_le_nat_alt)
    moreover have "t' = t\<lparr>st_asked := True\<rparr>" "out = SWindow (take left (st_pending t))"
      using st part by (auto simp: left_def Let_def split: if_splits)
    moreover have "sb_rel N P (s\<lparr>sb_waiting_more := True\<rparr>) (t\<lparr>st_asked := True\<rparr>) b" using R by (simp add: sb_rel_def)
    ultimately show ?thesis by blast
  qed
qed

lemma sb_call_rel:
  assumes "sb_rel N P s t (op_bytes op + b)" "op_bytes op < 2 ^ 32" "stream_step N P t op = Some (t', out)"
  shows "\<exists>s'. sb_call s op = Ret (s', out) \<and> sb_rel N P s' t' b"
proof (cases op)
  case (SPush d)
  with assms sb_Push_rel [of N P s t d b t' out] show ?thesis by simp
next
  case SWait
  with assms sb_Wait_rel [of N P s t b t' out] show ?thesis by simp
next
  case (SFree n)
  with assms sb_Free_rel [of N P s t b n t' out] show ?thesis by simp
qed

lemma sb_run_rel:
  assumes "sb_rel N P s t ((\<Sum>op\<leftarrow>ops. op_bytes op) + b)" "list_all (\<lambda>op. op_bytes op < 2 ^ 32) ops"
    and "stream_run N P t ops = Some (t', outs)"
  shows "\<exists>s'. sb_run s ops = Ret (s', outs) \<and> sb_rel N P s' t' b"
  using assms
proof (induction ops arbitrary: s t outs)
  case (Cons op ops)
  obtain t1 out outs' where st: "stream_step N P t op = Some (t1, out)" "stream_run N P t1 ops = Some (t', outs')" "outs = out # outs'"
    using Cons.prems(3) by (auto split: option.splits)
  obtain s1 where s1: "sb_call s op = Ret (s1, out)" "sb_rel N P s1 t1 ((\<Sum>op\<leftarrow>ops. op_bytes op) + b)"
    using sb_call_rel [OF _ _ st(1), of s "(\<Sum>op\<leftarrow>ops. op_bytes op) + b"] Cons.prems(1,2) by (auto simp: add.assoc)
  from Cons.IH [OF s1(2) _ st(2)] Cons.prems(2) obtain s' where "sb_run s1 ops = Ret (s', outs')" "sb_rel N P s' t' b" by auto
  with s1(1) st(3) show ?case by auto
qed simp

text \<open>The sizes a creator can serve: the block of prefix and ring is measured in 32 bits.\<close>

definition sb_pre :: "u32 \<Rightarrow> u32 \<Rightarrow> bool" where
  "sb_pre buffer_size prefix_size \<longleftrightarrow> 0 < unat buffer_size \<and> unat buffer_size \<le> 2 ^ 31 \<and> prefix_size \<le> buffer_size \<and>
     unat (round_cache_line prefix_size) + unat (RoundToPowerOf2 buffer_size) < 2 ^ 32"

lemma sb_Create_rel:
  assumes pre: "sb_pre buffer_size prefix_size"
  shows "\<exists>s. sb_Create junk buffer_size prefix_size = Some s \<and>
    sb_rel (unat (RoundToPowerOf2 buffer_size)) (unat (round_cache_line prefix_size)) s
      \<lparr>st_pending = [], st_freed = 0, st_asked = False\<rparr> (2 ^ 63 - 1)"
proof -
  obtain k where k: "k \<le> 31" "RoundToPowerOf2 buffer_size = 2 ^ k"
    using pre RoundToPowerOf2_obtain [of buffer_size] by (auto simp: sb_pre_def)
  have "unat (round_cache_line prefix_size + 2 ^ k) = unat (round_cache_line prefix_size) + 2 ^ k"
    using pre k by (simp add: sb_pre_def unat_word_ariths)
  then show ?thesis using pre k by (auto simp: sb_Create_def sb_Init_def sb_Reset_def sb_rel_def sb_pre_def Let_def)
qed

lemma stream_run_append:
  assumes "stream_run N P t ops = Some (t', outs)"
  shows "stream_run N P t (ops @ ops') = (case stream_run N P t' ops' of None \<Rightarrow> None | Some (t'', outs') \<Rightarrow> Some (t'', outs @ outs'))"
  using assms by (induction ops arbitrary: t outs) (auto split: option.splits)

section \<open>Properties\<close>

text \<open>
  C18: a created \<^verbatim>\<open>StreamBuffer\<close> is a stream of bytes. For any sequence of calls in which no more bytes are freed than
  are pending, every call returns; a push is accepted exactly when its bytes fit beside the pending ones;
  every window shows pending bytes from the oldest on, exactly as pushed, wherever the ring wraps, and
  freeing removes them from the front. A window is cut at the end of the ring the first time and whole
  the second time, when the cut part fits into the prefix.
\<close>

theorem stream_buffer_stream:
  assumes "sb_pre buffer_size prefix_size" and "list_all (\<lambda>op. op_bytes op < 2 ^ 32) ops"
    and "(\<Sum>op\<leftarrow>ops. op_bytes op) < 2 ^ 63"
    and "stream_run (unat (RoundToPowerOf2 buffer_size)) (unat (round_cache_line prefix_size))
      \<lparr>st_pending = [], st_freed = 0, st_asked = False\<rparr> ops = Some (t, outs)"
  shows "\<exists>s s'. sb_Create junk buffer_size prefix_size = Some s \<and> sb_run s ops = Ret (s', outs)"
proof -
  obtain s where s: "sb_Create junk buffer_size prefix_size = Some s"
    "sb_rel (unat (RoundToPowerOf2 buffer_size)) (unat (round_cache_line prefix_size)) s
      \<lparr>st_pending = [], st_freed = 0, st_asked = False\<rparr> (2 ^ 63 - 1)"
    using sb_Create_rel [OF assms(1)] by blast
  then have "sb_rel (unat (RoundToPowerOf2 buffer_size)) (unat (round_cache_line prefix_size)) s
      \<lparr>st_pending = [], st_freed = 0, st_asked = False\<rparr> ((\<Sum>op\<leftarrow>ops. op_bytes op) + 0)"
    using assms(3) by (auto simp: sb_rel_def)
  from sb_run_rel [OF this assms(2,4)] s(1) show ?thesis by blast
qed

lemma demo_stream: "RoundToPowerOf2 8 = 8" "round_cache_line 4 = 64" "sb_pre 8 4"
  by (simp_all add: RoundToPowerOf2_def smear_step_def Let_def drop_bit_eq_div round_cache_line_def sb_pre_def)

text \<open>The bytes 7, 8, 9, 10 lie over the end of a ring of eight bytes: the first window shows two of them, the second all.\<close>

theorem stream_buffer_stream_witness:
  "\<exists>s s'. sb_Create (\<lambda>_. 0) 8 4 = Some s \<and>
     sb_run s [SPush [1, 2, 3, 4, 5, 6], SWait, SFree 6, SPush [7, 8, 9, 10], SWait, SWait, SFree 4, SWait] =
       Ret (s', [SPushed kSuccess, SWindow [1, 2, 3, 4, 5, 6], SFreed, SPushed kSuccess, SWindow [7, 8],
                 SWindow [7, 8, 9, 10], SFreed, SWindow []])"
  using stream_buffer_stream [OF demo_stream(3), of
      "[SPush [1, 2, 3, 4, 5, 6], SWait, SFree 6, SPush [7, 8, 9, 10], SWait, SWait, SFree 4, SWait]", where junk = "\<lambda>_. 0"]
  by (simp add: demo_stream Let_def)

text \<open>
  C19: what the prefix is for: whatever was pushed and freed before, a user who asks twice in a row for a message that is no longer
  than the prefix and completely pending gets, the first time or the second, a window that begins with the whole message.
\<close>

theorem stream_message_contiguous:
  assumes "sb_pre buffer_size prefix_size" and "list_all (\<lambda>op. op_bytes op < 2 ^ 32) ops"
    and "(\<Sum>op\<leftarrow>ops. op_bytes op) < 2 ^ 63"
    and "stream_run (unat (RoundToPowerOf2 buffer_size)) (unat (round_cache_line prefix_size))
      \<lparr>st_pending = [], st_freed = 0, st_asked = False\<rparr> ops = Some (t, outs)"
    and "st_pending t = message @ rest" and "length message \<le> unat (round_cache_line prefix_size)"
  shows "\<exists>s s' w1 w2. sb_Create junk buffer_size prefix_size = Some s \<and>
    sb_run s (ops @ [SWait, SWait]) = Ret (s', outs @ [SWindow w1, SWindow w2]) \<and>
    (take (length message) w1 = message \<or> take (length message) w2 = message)"
proof -
  define N where "N = unat (RoundToPowerOf2 buffer_size)" define P where "P = unat (round_cache_line prefix_size)"
  obtain s where s: "sb_Create junk buffer_size prefix_size = Some s"
    "sb_rel N P s \<lparr>st_pending = [], st_freed = 0, st_asked = False\<rparr> (2 ^ 63 - 1)"
    using sb_Create_rel [OF assms(1)] unfolding N_def P_def by blast
  define left where "left = N - st_freed t mod N"
  obtain t1 w1 t2 w2 where st: "stream_step N P t SWait = Some (t1, SWindow w1)" "stream_step N P t1 SWait = Some (t2, SWindow w2)"
    and w: "w1 = st_pending t \<or> w1 = take left (st_pending t) \<and> (left \<le> P \<longrightarrow> w2 = st_pending t)"
    by (cases "length (st_pending t) \<le> left \<or> st_asked t \<and> left \<le> P"; cases "left \<le> P") (auto simp: Let_def left_def)
  have "stream_run N P \<lparr>st_pending = [], st_freed = 0, st_asked = False\<rparr> (ops @ [SWait, SWait]) = Some (t2, outs @ [SWindow w1, SWindow w2])"
    using stream_run_append [OF assms(4) [folded N_def P_def], of "[SWait, SWait]"] st by simp
  moreover have "sb_rel N P s \<lparr>st_pending = [], st_freed = 0, st_asked = False\<rparr> ((\<Sum>op\<leftarrow>ops @ [SWait, SWait]. op_bytes op) + 0)"
    using s(2) assms(3) by (auto simp: sb_rel_def)
  moreover have "list_all (\<lambda>op. op_bytes op < 2 ^ 32) (ops @ [SWait, SWait])" using assms(2) by simp
  ultimately obtain s' where "sb_run s (ops @ [SWait, SWait]) = Ret (s', outs @ [SWindow w1, SWindow w2])"
    using sb_run_rel by blast
  moreover have "take (length message) w1 = message \<or> take (length message) w2 = message"
    using w assms(5,6) unfolding P_def [symmetric] by (cases "left \<le> P") (auto simp: min_def)
  ultimately show ?thesis using s(1) by blast
qed

theorem stream_message_contiguous_witness:
  "\<exists>s s' w1 w2. sb_Create (\<lambda>_. 0) 8 4 = Some s \<and>
     sb_run s [SPush [1, 2, 3, 4, 5, 6], SFree 6, SPush [7, 8, 9, 10], SWait, SWait] =
       Ret (s', [SPushed kSuccess, SFreed, SPushed kSuccess, SWindow w1, SWindow w2]) \<and>
     (take 3 w1 = [7, 8, 9] \<or> take 3 w2 = [7, 8, 9])"
  using stream_message_contiguous [OF demo_stream(3), of "[SPush [1, 2, 3, 4, 5, 6], SFree 6, SPush [7, 8, 9, 10]]"
      "\<lparr>st_pending = [7, 8, 9, 10], st_freed = 6, st_asked = False\<rparr>" "[SPushed kSuccess, SFreed, SPushed kSuccess]"
      "[7, 8, 9]" "[10]" "\<lambda>_. 0"]
  by (simp add: demo_stream numeral_3_eq_3 del: sb_run.simps)

end
