(* ===== verification/Ptr_Queue.thy ===== *)
theory Ptr_Queue
  imports Fifo_Spec Bytes Msg_Queue
begin

section \<open>The pointer queues\<close>

text \<open>
  \<^verbatim>\<open>PtrQueueBase\<close> and its classes \<^verbatim>\<open>SPSCPtrQueue\<close>, \<^verbatim>\<open>MPSCPtrQueue\<close>, \<^verbatim>\<open>SPMCPtrQueue\<close> of
  \<^verbatim>\<open>include/adk/lock_free_queue_variant.h\<close> and \<^verbatim>\<open>src/lock_free_queue_variant.cpp\<close>, call by call. A slot is a cache line: the number of
  pointers in it, 0 when it is free, and room for seven. One push fills one slot with up to seven pointers and one pop
  empties one slot; where there is one producer or one consumer the slot itself tells whether it is free, where there
  are several the cursors do.
\<close>

record 'a ptr_entry =
  pe_size :: u64
  pe_buffer :: "'a list"

record 'a pmem =
  ph_queue_name :: string
  ph_entry_size :: u32
  ph_queue_mask :: u32
  ph_queue_size :: u32
  ph_tail :: u64
  ph_head :: u64
  ph_entries :: "'a ptr_entry list"

record pobj =
  p_queue_mask :: u64
  p_queue_size :: u64
  p_entry_bits :: nat
  p_release_alert :: bool
  p_head_threshold :: u64
  p_tail_threshold :: u64

type_synonym 'a ptr_queue = "'a pmem \<times> pobj"

text \<open>\<^verbatim>\<open>PtrEntrySize\<close> with 8-byte pointers and the cache line of 64 bytes, and \<^verbatim>\<open>s_entry_size_limit_\<close> from it.\<close>

definition PtrEntrySize :: u32 where
  "PtrEntrySize = ((8 + 8 + (64 - 1)) div 64) * 64"

definition entry_size_limit :: u32 where
  "entry_size_limit = (PtrEntrySize - 8) div 8"

subsection \<open>Construction\<close>

definition pq_Init :: "'a pmem \<Rightarrow> pobj run" where
  "pq_Init m = rbind (GetBits (ph_entry_size m)) (\<lambda>bits. Ret
     \<lparr>p_queue_mask = ucast (ph_queue_mask m), p_queue_size = ucast (ph_queue_size m), p_entry_bits = bits,
      p_release_alert = False, p_head_threshold = ph_tail m,
      p_tail_threshold = ph_head m + ucast (ph_queue_size m)\<rparr>)"

text \<open>
  \<^verbatim>\<open>InitEntries\<close> clears the size of each slot; \<open>room\<close> is the number of bytes of the block from the first slot on. What the
  buffers hold is what the fresh memory held (\<open>junk\<close>).
\<close>

definition pq_InitEntries :: "u32 \<Rightarrow> nat \<Rightarrow> (nat \<Rightarrow> nat \<Rightarrow> 'a) \<Rightarrow> 'a ptr_entry list run" where
  "pq_InitEntries entry_num room junk =
     (if list_all (\<lambda>i. i * unat PtrEntrySize + 8 \<le> room) [0..<unat entry_num]
      then Ret (map (\<lambda>i. \<lparr>pe_size = 0, pe_buffer = map (junk i) [0..<unat entry_size_limit]\<rparr>) [0..<unat entry_num])
      else Undef)"

definition pq_Create ::
  "platform \<Rightarrow> (u64 \<Rightarrow> bool) \<Rightarrow> (nat \<Rightarrow> nat \<Rightarrow> 'a) \<Rightarrow> string \<Rightarrow> u32 \<Rightarrow> 'a ptr_queue option run" where
  "pq_Create plat memalign_ok junk name queue_size0 =
     (let qsize = RoundToPowerOf2 queue_size0;
          queue_header_size = max (page_size plat) (sizeof_queue plat + sizeof_header plat);
          total_size = queue_header_size + ucast (qsize * PtrEntrySize)
      in if \<not> memalign_ok total_size then Ret None
         else rbind (pq_InitEntries qsize (unat total_size - unat queue_header_size) junk) (\<lambda>es.
              let m = \<lparr>ph_queue_name = name, ph_entry_size = PtrEntrySize, ph_queue_mask = qsize - 1, ph_queue_size = qsize,
                       ph_tail = QUEUE_CURSOR_INIT_VALUE, ph_head = QUEUE_CURSOR_INIT_VALUE, ph_entries = es\<rparr>
              in rbind (pq_Init m) (\<lambda>q. Ret (Some (m, q)))))"

subsection \<open>Slots\<close>

definition pq_slot :: "pobj \<Rightarrow> u64 \<Rightarrow> nat" where
  "pq_slot q index = unat (index AND p_queue_mask q)"

text \<open>Pointers copied into a slot, then its size; the pointers copied out of it; the slot marked free.\<close>

definition pq_put :: "nat \<Rightarrow> 'a list \<Rightarrow> 'a pmem \<Rightarrow> 'a pmem run" where
  "pq_put i xs m = rbind (aget (ph_entries m) i) (\<lambda>e. rbind (poke 0 xs (pe_buffer e)) (\<lambda>buf.
     Ret (m\<lparr>ph_entries := (ph_entries m)[i := \<lparr>pe_size = of_nat (length xs), pe_buffer = buf\<rparr>]\<rparr>)))"

definition pq_get :: "nat \<Rightarrow> nat \<Rightarrow> 'a pmem \<Rightarrow> 'a list run" where
  "pq_get i n m = rbind (aget (ph_entries m) i) (\<lambda>e. peek 0 n (pe_buffer e))"

definition pq_clear :: "nat \<Rightarrow> 'a pmem \<Rightarrow> 'a pmem" where
  "pq_clear i m = m\<lparr>ph_entries := (ph_entries m)[i := (ph_entries m ! i)\<lparr>pe_size := 0\<rparr>]\<rparr>"

definition push_num :: "u32 \<Rightarrow> u32" where
  "push_num num = (if num < entry_size_limit then num else entry_size_limit)"


subsection \<open>One producer, one consumer\<close>

text \<open>A batch push returns the error code and what it stores in \<^verbatim>\<open>push_num\<close>; a call that fails leaves that alone, written 0 here.\<close>

fun SP_Push :: "'a ptr_queue \<Rightarrow> 'a \<Rightarrow> ('a ptr_queue \<times> ErrorCode) run" where
  "SP_Push (m, q) x =
     (let i = pq_slot q (ph_tail m)
      in rbind (aget (ph_entries m) i) (\<lambda>e.
         if pe_size e \<noteq> 0 then Ret ((m, q), kQueueFull)
         else rbind (pq_put i [x] m) (\<lambda>m1. Ret ((m1\<lparr>ph_tail := ph_tail m1 + 1\<rparr>, q), kSuccess))))"

fun SP_Push_batch :: "'a ptr_queue \<Rightarrow> 'a list \<Rightarrow> u32 \<Rightarrow> ('a ptr_queue \<times> ErrorCode \<times> u32) run" where
  "SP_Push_batch (m, q) payload num =
     rassert (num \<noteq> 0)
       (let i = pq_slot q (ph_tail m)
        in rbind (aget (ph_entries m) i) (\<lambda>e.
           if pe_size e \<noteq> 0 then Ret ((m, q), kQueueFull, 0)
           else rbind (peek 0 (unat (push_num num)) payload) (\<lambda>xs. rbind (pq_put i xs m) (\<lambda>m1.
                Ret ((m1\<lparr>ph_tail := ph_tail m1 + 1\<rparr>, q), kSuccess, push_num num)))))"

fun SC_Pop_batch :: "'a ptr_queue \<Rightarrow> ('a ptr_queue \<times> (ErrorCode + 'a list)) run" where
  "SC_Pop_batch (m, q) =
     (let i = pq_slot q (ph_head m)
      in rbind (aget (ph_entries m) i) (\<lambda>e.
         let pop_num = (ucast (pe_size e) :: u32)
         in if pop_num = 0 then Ret ((m, q), Inl kQueueEmpty)
            else rbind (pq_get i (unat pop_num) m) (\<lambda>xs.
                 Ret (((pq_clear i m)\<lparr>ph_head := ph_head m + 1\<rparr>, q), Inr xs))))"

fun SC_Pop :: "'a ptr_queue \<Rightarrow> ('a ptr_queue \<times> (ErrorCode + 'a)) run" where
  "SC_Pop (m, q) =
     (let i = pq_slot q (ph_head m)
      in rbind (aget (ph_entries m) i) (\<lambda>e.
         if pe_size e = 0 then Ret ((m, q), Inl kQueueEmpty)
         else rbind (aget (pe_buffer e) 0) (\<lambda>x.
              Ret (((pq_clear i m)\<lparr>ph_head := ph_head m + 1\<rparr>, q), Inr x))))"

subsection \<open>Several producers\<close>

text \<open>
  \<^verbatim>\<open>MPSC_Push\<close> takes the next number first and then waits until its slot is free: when the call runs alone nothing changes
  while it waits, so it either goes on at once, returns because of the release alert, or never returns. The number it took stays taken.
\<close>

definition await_tail :: "u64 \<Rightarrow> 'a ptr_queue \<Rightarrow> ('a ptr_queue \<times> bool) run" where
  "await_tail t s = (case s of (m, q) \<Rightarrow>
     if p_tail_threshold q \<le> t
     then let q1 = q\<lparr>p_tail_threshold := ph_head m + p_queue_size q\<rparr>
          in if t < p_tail_threshold q1 then Ret ((m, q1), True)
             else if p_release_alert q1 then Ret ((m, q1), False) else Hang
     else Ret ((m, q), True))"


fun MPSC_Push_batch :: "'a ptr_queue \<Rightarrow> 'a list \<Rightarrow> u32 \<Rightarrow> ('a ptr_queue \<times> ErrorCode \<times> u32) run" where
  "MPSC_Push_batch (m, q) payload num =
     rassert (num \<noteq> 0)
       (let t = ph_tail m
        in rbind (await_tail t (m\<lparr>ph_tail := t + 1\<rparr>, q)) (\<lambda>((m1, q1), go).
           if \<not> go then Ret ((m1, q1), kWouldblock, 0)
           else rbind (peek 0 (unat (push_num num)) payload) (\<lambda>xs.
                rbind (pq_put (pq_slot q1 t) xs m1) (\<lambda>m2. Ret ((m2, q1), kSuccess, push_num num)))))"

text \<open>The claim of \<^verbatim>\<open>MPSC_TryPush\<close>: the compare-and-swap succeeds at once when the call runs alone.\<close>

definition claim_tail :: "'a ptr_queue \<Rightarrow> 'a ptr_queue \<times> u64 option" where
  "claim_tail s = (case s of (m, q) \<Rightarrow>
     let t = ph_tail m; q1 = (if p_tail_threshold q \<le> t then q\<lparr>p_tail_threshold := ph_head m + p_queue_size q\<rparr> else q)
     in if p_tail_threshold q1 \<le> t then ((m, q1), None) else ((m\<lparr>ph_tail := t + 1\<rparr>, q1), Some t))"

fun MPSC_TryPush :: "'a ptr_queue \<Rightarrow> 'a \<Rightarrow> ('a ptr_queue \<times> ErrorCode) run" where
  "MPSC_TryPush s x =
     (case claim_tail s of
        (s1, None) \<Rightarrow> Ret (s1, kQueueFull)
      | ((m1, q1), Some t) \<Rightarrow> rbind (pq_put (pq_slot q1 t) [x] m1) (\<lambda>m2. Ret ((m2, q1), kSuccess)))"

fun MPSC_TryPush_batch :: "'a ptr_queue \<Rightarrow> 'a list \<Rightarrow> u32 \<Rightarrow> ('a ptr_queue \<times> ErrorCode \<times> u32) run" where
  "MPSC_TryPush_batch s payload num =
     rassert (num \<noteq> 0)
       (case claim_tail s of
          (s1, None) \<Rightarrow> Ret (s1, kQueueFull, 0)
        | ((m1, q1), Some t) \<Rightarrow> rbind (peek 0 (unat (push_num num)) payload) (\<lambda>xs.
            rbind (pq_put (pq_slot q1 t) xs m1) (\<lambda>m2. Ret ((m2, q1), kSuccess, push_num num))))"

subsection \<open>Several consumers\<close>

definition await_head :: "u64 \<Rightarrow> 'a ptr_queue \<Rightarrow> ('a ptr_queue \<times> bool) run" where
  "await_head h s = (case s of (m, q) \<Rightarrow>
     if p_head_threshold q \<le> h
     then let q1 = q\<lparr>p_head_threshold := ph_tail m\<rparr>
          in if h < p_head_threshold q1 then Ret ((m, q1), True)
             else if p_release_alert q1 then Ret ((m, q1), False) else Hang
     else Ret ((m, q), True))"

text \<open>The pointers of slot \<open>i\<close> handed out (all of them, or the first one) and the slot freed.\<close>

definition take_slot :: "nat \<Rightarrow> 'a ptr_queue \<Rightarrow> ('a ptr_queue \<times> (ErrorCode + 'a list)) run" where
  "take_slot i s = (case s of (m, q) \<Rightarrow> rbind (aget (ph_entries m) i) (\<lambda>e.
     rbind (pq_get i (unat (ucast (pe_size e) :: u32)) m) (\<lambda>xs. Ret ((pq_clear i m, q), Inr xs))))"

definition take_first :: "nat \<Rightarrow> 'a ptr_queue \<Rightarrow> ('a ptr_queue \<times> (ErrorCode + 'a)) run" where
  "take_first i s = (case s of (m, q) \<Rightarrow> rbind (aget (ph_entries m) i) (\<lambda>e.
     rbind (aget (pe_buffer e) 0) (\<lambda>x. Ret ((pq_clear i m, q), Inr x))))"

fun SPMC_Pop_batch :: "'a ptr_queue \<Rightarrow> ('a ptr_queue \<times> (ErrorCode + 'a list)) run" where
  "SPMC_Pop_batch (m, q) =
     (let h = ph_head m
      in rbind (await_head h (m\<lparr>ph_head := h + 1\<rparr>, q)) (\<lambda>((m1, q1), go).
         if \<not> go then Ret ((m1, q1), Inl kWouldblock) else take_slot (pq_slot q1 h) (m1, q1)))"


definition claim_head :: "'a ptr_queue \<Rightarrow> 'a ptr_queue \<times> u64 option" where
  "claim_head s = (case s of (m, q) \<Rightarrow>
     let h = ph_head m; q1 = (if p_head_threshold q \<le> h then q\<lparr>p_head_threshold := ph_tail m\<rparr> else q)
     in if p_head_threshold q1 \<le> h then ((m, q1), None) else ((m\<lparr>ph_head := h + 1\<rparr>, q1), Some h))"

fun SPMC_TryPop :: "'a ptr_queue \<Rightarrow> ('a ptr_queue \<times> (ErrorCode + 'a)) run" where
  "SPMC_TryPop s =
     (case claim_head s of
        (s1, None) \<Rightarrow> Ret (s1, Inl kQueueEmpty)
      | ((m1, q1), Some h) \<Rightarrow> take_first (pq_slot q1 h) (m1, q1))"

fun SPMC_TryPop_batch :: "'a ptr_queue \<Rightarrow> ('a ptr_queue \<times> (ErrorCode + 'a list)) run" where
  "SPMC_TryPop_batch s =
     (case claim_head s of
        (s1, None) \<Rightarrow> Ret (s1, Inl kQueueEmpty)
      | ((m1, q1), Some h) \<Rightarrow> take_slot (pq_slot q1 h) (m1, q1))"

section \<open>Queues of batches\<close>

text \<open>What fits into a slot: one to seven pointers. The queues are bounded queues of such batches.\<close>

typedef 'a batch = "{xs :: 'a list. xs \<noteq> [] \<and> length xs \<le> 7}"
  morphisms ptrs Batch
  by (intro exI [of _ "[undefined]"]) simp

lemma limit_7 [simp]: "entry_size_limit = 7" "PtrEntrySize = 64"
  by (simp_all add: entry_size_limit_def PtrEntrySize_def)

lemma batch_bounds: "0 < length (ptrs b)" "length (ptrs b) \<le> 7"
  using ptrs [of b] by auto

lemma batch_num:
  "unat (of_nat (length (ptrs b)) :: u64) = length (ptrs b)" "unat (of_nat (length (ptrs b)) :: u32) = length (ptrs b)"
  "(of_nat (length (ptrs b)) :: u32) \<noteq> 0" "push_num (of_nat (length (ptrs b))) = of_nat (length (ptrs b))"
proof -
  show a: "unat (of_nat (length (ptrs b)) :: u64) = length (ptrs b)" using batch_bounds [of b] by (intro unat_of_nat64) simp
  show b: "unat (of_nat (length (ptrs b)) :: u32) = length (ptrs b)" using batch_bounds [of b] by (intro unat_of_nat32) simp
  show "(of_nat (length (ptrs b)) :: u32) \<noteq> 0" using b batch_bounds(1) [of b] by (metis less_irrefl unsigned_0)
  show "push_num (of_nat (length (ptrs b))) = of_nat (length (ptrs b))"
    using batch_bounds(2) [of b] unfolding push_num_def word_less_nat_alt word_unat_eq_iff by (simp add: b)
qed

definition batch_push ::
  "('a ptr_queue \<Rightarrow> 'a list \<Rightarrow> u32 \<Rightarrow> ('a ptr_queue \<times> ErrorCode \<times> u32) run) \<Rightarrow>
   'a ptr_queue \<Rightarrow> 'a batch \<Rightarrow> ('a ptr_queue \<times> ErrorCode) run" where
  "batch_push push s b = rbind (push s (ptrs b) (of_nat (length (ptrs b)))) (\<lambda>(s', ec, n). Ret (s', ec))"

definition batch_pop ::
  "('a ptr_queue \<Rightarrow> ('a ptr_queue \<times> (ErrorCode + 'a list)) run) \<Rightarrow>
   'a ptr_queue \<Rightarrow> ('a ptr_queue \<times> (ErrorCode + 'a batch)) run" where
  "batch_pop pop s = rbind (pop s) (\<lambda>(s', r). Ret (s', case r of Inl ec \<Rightarrow> Inl ec | Inr xs \<Rightarrow> Inr (Batch xs)))"

text \<open>The slots between the cursors hold batches, the others are free.\<close>

definition batch_at :: "'a ptr_entry \<Rightarrow> 'a batch" where
  "batch_at e = Batch (take (unat (pe_size e)) (pe_buffer e))"

definition slot_full :: "'a ptr_entry \<Rightarrow> bool" where
  "slot_full e \<longleftrightarrow> 0 < unat (pe_size e) \<and> unat (pe_size e) \<le> 7"

abbreviation pH :: "'a ptr_queue \<Rightarrow> nat" where "pH s \<equiv> unat (ph_head (fst s))"
abbreviation pT :: "'a ptr_queue \<Rightarrow> nat" where "pT s \<equiv> unat (ph_tail (fst s))"
abbreviation pN :: "'a ptr_queue \<Rightarrow> nat" where "pN s \<equiv> length (ph_entries (fst s))"
abbreviation p_at :: "'a ptr_queue \<Rightarrow> nat \<Rightarrow> 'a ptr_entry" where "p_at s i \<equiv> ph_entries (fst s) ! (i mod pN s)"

definition pq_ok :: "'a ptr_queue \<Rightarrow> bool" where
  "pq_ok s \<longleftrightarrow> (\<exists>k \<le> 31. p_queue_mask (snd s) = 2 ^ k - 1 \<and> p_queue_size (snd s) = 2 ^ k \<and> pN s = 2 ^ k) \<and>
     (\<forall>i < pN s. length (pe_buffer (ph_entries (fst s) ! i)) = 7) \<and>
     pH s \<le> pT s \<and> pT s \<le> pH s + pN s \<and> pT s + pN s < 2 ^ 64 \<and>
     (\<forall>i. pH s \<le> i \<longrightarrow> i < pT s \<longrightarrow> slot_full (p_at s i)) \<and>
     (\<forall>i. pT s \<le> i \<longrightarrow> i < pH s + pN s \<longrightarrow> pe_size (p_at s i) = 0) \<and>
     unat (p_tail_threshold (snd s)) \<le> pH s + pN s \<and> unat (p_head_threshold (snd s)) \<le> pT s"

definition pq_elems :: "'a ptr_queue \<Rightarrow> 'a batch list" where
  "pq_elems s = map (\<lambda>i. batch_at (p_at s i)) [pH s..<pT s]"

definition pq_budget :: "'a ptr_queue \<Rightarrow> nat" where
  "pq_budget s = 2 ^ 64 - 1 - pN s - pT s"

lemma pq_okD:
  assumes "pq_ok s"
  shows "0 < pN s" "pN s \<le> 2 ^ 31" "unat (p_queue_size (snd s)) = pN s" "pq_slot (snd s) x = unat x mod pN s"
    "i < pN s \<Longrightarrow> length (pe_buffer (ph_entries (fst s) ! i)) = 7"
    "pH s \<le> pT s" "pT s \<le> pH s + pN s" "pT s + pN s < 2 ^ 64"
    "pH s \<le> i \<Longrightarrow> i < pT s \<Longrightarrow> slot_full (p_at s i)"
    "pT s \<le> i \<Longrightarrow> i < pH s + pN s \<Longrightarrow> pe_size (p_at s i) = 0"
    "unat (p_tail_threshold (snd s)) \<le> pH s + pN s" "unat (p_head_threshold (snd s)) \<le> pT s"
proof -
  obtain k where k: "k \<le> 31" "p_queue_mask (snd s) = 2 ^ k - 1" "p_queue_size (snd s) = 2 ^ k" "pN s = 2 ^ k"
    using assms unfolding pq_ok_def by blast
  show "0 < pN s" "unat (p_queue_size (snd s)) = pN s" using k by simp_all
  show "pN s \<le> 2 ^ 31" unfolding k(4) using k(1) by (intro power_increasing) auto
  show "pq_slot (snd s) x = unat x mod pN s" using k by (simp add: pq_slot_def unat_and_pow2_mask)
qed (use assms in \<open>auto simp: pq_ok_def\<close>)

text \<open>Where the next batch goes and where the oldest one is, and the states after a push and a pop.\<close>

definition pq_pushed :: "'a batch \<Rightarrow> 'a pmem \<Rightarrow> 'a pmem" where
  "pq_pushed b m = (let i = unat (ph_tail m) mod length (ph_entries m)
     in m\<lparr>ph_entries := (ph_entries m)[i := \<lparr>pe_size = of_nat (length (ptrs b)),
            pe_buffer = ptrs b @ drop (length (ptrs b)) (pe_buffer (ph_entries m ! i))\<rparr>], ph_tail := ph_tail m + 1\<rparr>)"

definition pq_popped :: "'a pmem \<Rightarrow> 'a pmem" where
  "pq_popped m = (pq_clear (unat (ph_head m) mod length (ph_entries m)) m)\<lparr>ph_head := ph_head m + 1\<rparr>"

lemma batch_at_put: "batch_at \<lparr>pe_size = of_nat (length (ptrs b)), pe_buffer = ptrs b @ xs\<rparr> = b"
  by (simp add: batch_at_def batch_num(1) ptrs_inverse)

lemma pq_push_ok:
  assumes ok: "pq_ok (m, q)" and room: "pT (m, q) < pH (m, q) + pN (m, q)" and bud: "0 < pq_budget (m, q)"
    and t: "unat t \<le> pH (m, q) + pN (m, q)"
  shows "pq_ok (pq_pushed b m, q\<lparr>p_tail_threshold := t\<rparr>)"
    and "pq_elems (pq_pushed b m, q\<lparr>p_tail_threshold := t\<rparr>) = pq_elems (m, q) @ [b]"
    and "Suc (pq_budget (pq_pushed b m, q\<lparr>p_tail_threshold := t\<rparr>)) = pq_budget (m, q)"
proof -
  note D = pq_okD [OF ok]
  define N where "N = length (ph_entries m)"
  define T where "T = unat (ph_tail m)" define H where "H = unat (ph_head m)"
  define e where "e = \<lparr>pe_size = of_nat (length (ptrs b)),
    pe_buffer = ptrs b @ drop (length (ptrs b)) (pe_buffer (ph_entries m ! (T mod N)))\<rparr>"
  let ?s = "(pq_pushed b m, q\<lparr>p_tail_threshold := t\<rparr>)"
  have lt: "T mod N < N" using D(1) by (simp add: N_def)
  have T1: "unat (ph_tail m + 1) = Suc T" using bud unat_inc64 [of "ph_tail m"] by (simp add: pq_budget_def T_def)
  have sel: "pN ?s = N" "pH ?s = H" "pT ?s = Suc T"
    using T1 by (simp_all add: pq_pushed_def Let_def N_def H_def)
  have at: "ph_entries (fst ?s) ! (i mod N) = (if i mod N = T mod N then e else ph_entries m ! (i mod N))" for i
    using lt by (simp add: pq_pushed_def Let_def N_def [symmetric] T_def [symmetric] e_def)
  have new: "i mod N \<noteq> T mod N" if "H \<le> i" "i < H + N" "i \<noteq> T" for i
    using mod_eq_window_iff [of H i N T] that D(6) room by (simp add: N_def T_def H_def)
  have full: "slot_full e" using batch_bounds [of b] by (simp add: slot_full_def e_def batch_num(1))
  have len: "length (pe_buffer e) = 7"
    using batch_bounds(2) [of b] D(5) [of "T mod N"] lt by (simp add: e_def N_def)
  show "pq_ok ?s"
    unfolding pq_ok_def sel
  proof (intro conjI allI impI)
    show "\<exists>k\<le>31. p_queue_mask (snd ?s) = 2 ^ k - 1 \<and> p_queue_size (snd ?s) = 2 ^ k \<and> N = 2 ^ k"
      using ok by (simp add: pq_ok_def N_def)
    show "length (pe_buffer (ph_entries (fst ?s) ! i)) = 7" if "i < N" for i
      using at [of i] sel(1) that len D(5) [of i] by (auto simp: N_def)
    show "slot_full (ph_entries (fst ?s) ! (i mod N))" if "H \<le> i" "i < Suc T" for i
    proof (cases "i = T")
      case False
      then show ?thesis using at [of i] new [of i] D(9) [of i] that room by (simp add: N_def T_def H_def)
    next
      case True
      then show ?thesis unfolding at using full by simp
    qed
    show "pe_size (ph_entries (fst ?s) ! (i mod N)) = 0" if "Suc T \<le> i" "i < H + N" for i
      using at [of i] new [of i] D(6) D(10) [of i] that by (simp add: N_def T_def H_def)
  qed (use D bud t room in \<open>auto simp: N_def T_def H_def pq_budget_def\<close>)
  have "map (\<lambda>i. batch_at (ph_entries (fst ?s) ! (i mod N))) [H..<T] = map (\<lambda>i. batch_at (p_at (m, q) i)) [H..<T]"
  proof (intro map_cong refl)
    fix i
    assume "i \<in> set [H..<T]"
    then have "i mod N \<noteq> T mod N" using new [of i] room by (simp add: N_def T_def H_def)
    then show "batch_at (ph_entries (fst ?s) ! (i mod N)) = batch_at (p_at (m, q) i)" unfolding at by (simp add: N_def)
  qed
  moreover have "batch_at (ph_entries (fst ?s) ! (T mod N)) = b" unfolding at by (simp add: e_def batch_at_put)
  ultimately show "pq_elems ?s = pq_elems (m, q) @ [b]"
    unfolding pq_elems_def sel using D(6) by (simp add: N_def T_def H_def)
  show "Suc (pq_budget ?s) = pq_budget (m, q)" unfolding pq_budget_def sel using bud by (simp add: pq_budget_def N_def T_def)
qed

lemma pq_pop_ok:
  assumes ok: "pq_ok (m, q)" and some: "pH (m, q) < pT (m, q)" and t: "unat t \<le> pT (m, q)"
  shows "pq_ok (pq_popped m, q\<lparr>p_head_threshold := t\<rparr>)"
    and "pq_elems (m, q) = batch_at (p_at (m, q) (pH (m, q))) # pq_elems (pq_popped m, q\<lparr>p_head_threshold := t\<rparr>)"
    and "pq_budget (pq_popped m, q\<lparr>p_head_threshold := t\<rparr>) = pq_budget (m, q)"
proof -
  note D = pq_okD [OF ok]
  define N where "N = length (ph_entries m)"
  define T where "T = unat (ph_tail m)" define H where "H = unat (ph_head m)"
  define e where "e = (ph_entries m ! (H mod N))\<lparr>pe_size := 0\<rparr>"
  let ?s = "(pq_popped m, q\<lparr>p_head_threshold := t\<rparr>)"
  have lt: "H mod N < N" using D(1) by (simp add: N_def)
  have "unat (ph_head m) + 1 < 2 ^ 64" using some D(8) by simp
  then have H1: "unat (ph_head m + 1) = Suc H" by (simp add: H_def unat_inc64)
  have sel: "pN ?s = N" "pH ?s = Suc H" "pT ?s = T"
    using H1 by (simp_all add: pq_popped_def pq_clear_def N_def T_def)
  have at: "ph_entries (fst ?s) ! (i mod N) = (if i mod N = H mod N then e else ph_entries m ! (i mod N))" for i
    using lt by (simp add: pq_popped_def pq_clear_def N_def [symmetric] H_def [symmetric] e_def)
  have old: "i mod N \<noteq> H mod N" if "H < i" "i < H + N" for i using mod_neq_window [of H i N] that by metis
  show "pq_ok ?s"
    unfolding pq_ok_def sel
  proof (intro conjI allI impI)
    show "\<exists>k\<le>31. p_queue_mask (snd ?s) = 2 ^ k - 1 \<and> p_queue_size (snd ?s) = 2 ^ k \<and> N = 2 ^ k"
      using ok by (simp add: pq_ok_def N_def)
    show "length (pe_buffer (ph_entries (fst ?s) ! i)) = 7" if "i < N" for i
      using at [of i] sel(1) that D(5) [of i] by (auto simp: N_def e_def)
    show "slot_full (ph_entries (fst ?s) ! (i mod N))" if "Suc H \<le> i" "i < T" for i
      using at [of i] old [of i] D(7) D(9) [of i] that by (simp add: N_def T_def H_def)
    show "pe_size (ph_entries (fst ?s) ! (i mod N)) = 0" if "T \<le> i" "i < Suc H + N" for i
    proof (cases "i mod N = H mod N")
      case True
      then show ?thesis unfolding at by (simp add: e_def)
    next
      case False
      then have "i \<noteq> H + N" by auto
      then have "pe_size (p_at (m, q) i) = 0" using D(10) [of i] that by (simp add: N_def T_def H_def)
      then show ?thesis unfolding at using False by (simp add: N_def)
    qed
  qed (use D t some in \<open>auto simp: N_def T_def H_def\<close>)
  have "map (\<lambda>i. batch_at (ph_entries (fst ?s) ! (i mod N))) [Suc H..<T] = map (\<lambda>i. batch_at (p_at (m, q) i)) [Suc H..<T]"
  proof (intro map_cong refl)
    fix i
    assume "i \<in> set [Suc H..<T]"
    then have "i mod N \<noteq> H mod N" using old [of i] D(7) by (simp add: N_def T_def H_def)
    then show "batch_at (ph_entries (fst ?s) ! (i mod N)) = batch_at (p_at (m, q) i)" unfolding at by (simp add: N_def)
  qed
  then show "pq_elems (m, q) = batch_at (p_at (m, q) (pH (m, q))) # pq_elems ?s"
    unfolding pq_elems_def sel using some by (simp add: N_def T_def H_def upt_conv_Cons)
  show "pq_budget ?s = pq_budget (m, q)" unfolding pq_budget_def sel by (simp add: N_def T_def)
qed

lemma pq_thresholds:
  assumes "pq_ok (m, q)"
  shows "unat t \<le> pH (m, q) + pN (m, q) \<Longrightarrow> pq_ok (m, q\<lparr>p_tail_threshold := t\<rparr>)"
    and "unat t \<le> pT (m, q) \<Longrightarrow> pq_ok (m, q\<lparr>p_head_threshold := t\<rparr>)"
  using assms by (auto simp: pq_ok_def)

lemma pq_elems_simps [simp]:
  "pq_elems (m, q\<lparr>p_tail_threshold := t\<rparr>) = pq_elems (m, q)" "pq_elems (m, q\<lparr>p_head_threshold := t\<rparr>) = pq_elems (m, q)"
  "pq_budget (m, q\<lparr>p_tail_threshold := t\<rparr>) = pq_budget (m, q)" "pq_budget (m, q\<lparr>p_head_threshold := t\<rparr>) = pq_budget (m, q)"
  by (simp_all add: pq_elems_def pq_budget_def)

text \<open>The contract of a pair of batch calls in terms of the cursors; it gives the contract of the bounded queue.\<close>

locale ptr_calls =
  fixes push :: "'a ptr_queue \<Rightarrow> 'a list \<Rightarrow> u32 \<Rightarrow> ('a ptr_queue \<times> ErrorCode \<times> u32) run"
    and pop :: "'a ptr_queue \<Rightarrow> ('a ptr_queue \<times> (ErrorCode + 'a list)) run"
  assumes ptr_push: "pq_ok (m, q) \<Longrightarrow> pT (m, q) < pH (m, q) + pN (m, q) \<Longrightarrow> 0 < pq_budget (m, q) \<Longrightarrow>
      \<exists>t. unat t \<le> pH (m, q) + pN (m, q) \<and> push (m, q) (ptrs b) (of_nat (length (ptrs b))) =
        Ret ((pq_pushed b m, q\<lparr>p_tail_threshold := t\<rparr>), kSuccess, of_nat (length (ptrs b)))"
    and ptr_full: "pq_ok (m, q) \<Longrightarrow> pT (m, q) = pH (m, q) + pN (m, q) \<Longrightarrow>
      \<exists>t. unat t \<le> pH (m, q) + pN (m, q) \<and> push (m, q) (ptrs b) (of_nat (length (ptrs b))) =
        Ret ((m, q\<lparr>p_tail_threshold := t\<rparr>), kQueueFull, 0)"
    and ptr_pop: "pq_ok (m, q) \<Longrightarrow> pH (m, q) < pT (m, q) \<Longrightarrow>
      \<exists>t. unat t \<le> pT (m, q) \<and> pop (m, q) =
        Ret ((pq_popped m, q\<lparr>p_head_threshold := t\<rparr>), Inr (ptrs (batch_at (p_at (m, q) (pH (m, q))))))"
    and ptr_empty: "pq_ok (m, q) \<Longrightarrow> pH (m, q) = pT (m, q) \<Longrightarrow>
      \<exists>t. unat t \<le> pT (m, q) \<and> pop (m, q) = Ret ((m, q\<lparr>p_head_threshold := t\<rparr>), Inl kQueueEmpty)"

lemma pq_lengths:
  assumes "pq_ok s"
  shows "length (pq_elems s) = pT s - pH s" "length (pq_elems s) \<le> pN s"
    "length (pq_elems s) < pN s \<longleftrightarrow> pT s < pH s + pN s" "length (pq_elems s) = pN s \<longleftrightarrow> pT s = pH s + pN s"
  using pq_okD(6,7) [OF assms] by (auto simp: pq_elems_def)

lemma pN_pushed [simp]: "length (ph_entries (pq_pushed b m)) = length (ph_entries m)"
  "length (ph_entries (pq_popped m)) = length (ph_entries m)"
  by (simp_all add: pq_pushed_def pq_popped_def pq_clear_def Let_def)

sublocale ptr_calls \<subseteq> bounded_fifo "batch_push push" "batch_pop pop" pq_ok pq_elems pN pq_budget
proof (unfold_locales, goal_cases)
  case (1 s b)
  obtain m q where s: "s = (m, q)" by (cases s)
  have room: "pT (m, q) < pH (m, q) + pN (m, q)" using pq_lengths(3) [OF 1(1)] 1(3) s by simp
  from ptr_push [OF 1(1) [unfolded s] room 1(2) [unfolded s]] obtain t where
    t: "unat t \<le> pH (m, q) + pN (m, q)" "push (m, q) (ptrs b) (of_nat (length (ptrs b))) =
        Ret ((pq_pushed b m, q\<lparr>p_tail_threshold := t\<rparr>), kSuccess, of_nat (length (ptrs b)))" by blast
  then show ?case using pq_push_ok [OF 1(1) [unfolded s] room 1(2) [unfolded s] t(1)] s by (auto simp: batch_push_def)
next
  case (2 s b)
  obtain m q where s: "s = (m, q)" by (cases s)
  have "pT (m, q) = pH (m, q) + pN (m, q)" using pq_lengths(4) [OF 2(1)] 2(2) s by simp
  from ptr_full [OF 2(1) [unfolded s] this, of b] show ?case
    using pq_thresholds(1) [OF 2(1) [unfolded s]] s by (fastforce simp: batch_push_def)
next
  case (3 s y ys)
  obtain m q where s: "s = (m, q)" by (cases s)
  have some: "pH (m, q) < pT (m, q)" using pq_lengths(1) [OF 3(1)] 3(2) s by simp
  from ptr_pop [OF 3(1) [unfolded s] some] obtain t where t: "unat t \<le> pT (m, q)" "pop (m, q) =
        Ret ((pq_popped m, q\<lparr>p_head_threshold := t\<rparr>), Inr (ptrs (batch_at (p_at (m, q) (pH (m, q))))))" by blast
  then show ?case using pq_pop_ok [OF 3(1) [unfolded s] some t(1)] 3(2) s by (auto simp: batch_pop_def ptrs_inverse)
next
  case (4 s)
  obtain m q where s: "s = (m, q)" by (cases s)
  have "pH (m, q) = pT (m, q)" using pq_lengths(1) [OF 4(1)] pq_okD(6) [OF 4(1)] 4(2) s by simp
  from ptr_empty [OF 4(1) [unfolded s] this] show ?case
    using pq_thresholds(2) [OF 4(1) [unfolded s]] 4(2) s by (fastforce simp: batch_pop_def)
next
  case (5 s)
  then show ?case by (rule pq_lengths(2))
qed

section \<open>The three classes\<close>

text \<open>The slot operations on the slot of the tail and of the head.\<close>

lemma pq_put_ok:
  assumes ok: "pq_ok (m, q)"
  shows "pq_put (unat (ph_tail m) mod length (ph_entries m)) (ptrs b) m = Ret (m\<lparr>ph_entries := ph_entries (pq_pushed b m)\<rparr>)"
proof -
  let ?i = "unat (ph_tail m) mod length (ph_entries m)"
  have "?i < length (ph_entries m)" using pq_okD(1) [OF ok] by simp
  moreover from this have "length (pe_buffer (ph_entries m ! ?i)) = 7" using pq_okD(5) [OF ok] by simp
  ultimately show ?thesis using batch_bounds(2) [of b] by (simp add: pq_put_def poke_def pq_pushed_def Let_def)
qed

lemma pq_put_tail:
  "pq_put i xs (m\<lparr>ph_tail := t\<rparr>) = rbind (pq_put i xs m) (\<lambda>m1. Ret (m1\<lparr>ph_tail := t\<rparr>))"
  by (cases "aget (ph_entries m) i"; cases "poke 0 xs (pe_buffer (ph_entries m ! i))")
    (auto simp: pq_put_def aget_def split: if_splits)

lemma pq_pushed_tail: "m\<lparr>ph_entries := ph_entries (pq_pushed b m), ph_tail := ph_tail m + 1\<rparr> = pq_pushed b m"
  by (simp add: pq_pushed_def Let_def)

lemma peek_all [simp]: "peek 0 (length xs) xs = Ret xs"
  by (simp add: peek_def)

lemma pq_head_ok:
  assumes ok: "pq_ok (m, q)" and some: "pH (m, q) < pT (m, q)"
  defines "i \<equiv> unat (ph_head m) mod length (ph_entries m)"
  shows "i < length (ph_entries m)" "(ucast (pe_size (ph_entries m ! i)) :: u32) \<noteq> 0"
    "pq_get i (unat (ucast (pe_size (ph_entries m ! i)) :: u32)) m = Ret (ptrs (batch_at (p_at (m, q) (pH (m, q)))))"
proof -
  show i: "i < length (ph_entries m)" using pq_okD(1) [OF ok] by (simp add: i_def)
  have f: "slot_full (ph_entries m ! i)" using pq_okD(9) [OF ok order_refl some] by (simp add: i_def)
  have l: "length (pe_buffer (ph_entries m ! i)) = 7" using pq_okD(5) [OF ok] i by simp
  have u: "unat (ucast (pe_size (ph_entries m ! i)) :: u32) = unat (pe_size (ph_entries m ! i))"
    using f by (simp add: slot_full_def unsigned_ucast_eq take_bit_nat_eq_self)
  then show "(ucast (pe_size (ph_entries m ! i)) :: u32) \<noteq> 0" using f by (auto simp: slot_full_def)
  have "take (unat (pe_size (ph_entries m ! i))) (pe_buffer (ph_entries m ! i)) \<in> {xs. xs \<noteq> [] \<and> length xs \<le> 7}"
    using f l by (auto simp: slot_full_def)
  then show "pq_get i (unat (ucast (pe_size (ph_entries m ! i)) :: u32)) m = Ret (ptrs (batch_at (p_at (m, q) (pH (m, q)))))"
    using i l f unfolding u by (simp add: pq_get_def peek_def batch_at_def Batch_inverse slot_full_def i_def [symmetric])
qed

lemma SP_Push_batch_ok:
  assumes ok: "pq_ok (m, q)"
  shows "pT (m, q) < pH (m, q) + pN (m, q) \<Longrightarrow> SP_Push_batch (m, q) (ptrs b) (of_nat (length (ptrs b))) =
      Ret ((pq_pushed b m, q), kSuccess, of_nat (length (ptrs b)))"
    and "pT (m, q) = pH (m, q) + pN (m, q) \<Longrightarrow> SP_Push_batch (m, q) (ptrs b) (of_nat (length (ptrs b))) =
      Ret ((m, q), kQueueFull, 0)"
proof -
  note D = pq_okD [OF ok]
  let ?i = "unat (ph_tail m) mod length (ph_entries m)"
  have i: "pq_slot q (ph_tail m) = ?i" "?i < length (ph_entries m)" using D(1,4) by simp_all
  {
    assume "pT (m, q) < pH (m, q) + pN (m, q)"
    then have "pe_size (ph_entries m ! ?i) = 0" using D(10) [OF order_refl] by simp
    then show "SP_Push_batch (m, q) (ptrs b) (of_nat (length (ptrs b))) =
        Ret ((pq_pushed b m, q), kSuccess, of_nat (length (ptrs b)))"
      using i pq_put_ok [OF ok] pq_pushed_tail [of m b] by (simp add: batch_num Let_def)
  next
    assume f: "pT (m, q) = pH (m, q) + pN (m, q)"
    have "slot_full (p_at (m, q) (pH (m, q)))" using D(9) [OF order_refl] f D(1) by simp
    then have "pe_size (ph_entries m ! ?i) \<noteq> 0" using f by (auto simp: slot_full_def)
    then show "SP_Push_batch (m, q) (ptrs b) (of_nat (length (ptrs b))) = Ret ((m, q), kQueueFull, 0)"
      using i by (simp add: batch_num Let_def)
  }
qed

lemma SC_Pop_batch_ok:
  assumes ok: "pq_ok (m, q)"
  shows "pH (m, q) < pT (m, q) \<Longrightarrow>
      SC_Pop_batch (m, q) = Ret ((pq_popped m, q), Inr (ptrs (batch_at (p_at (m, q) (pH (m, q))))))"
    and "pH (m, q) = pT (m, q) \<Longrightarrow> SC_Pop_batch (m, q) = Ret ((m, q), Inl kQueueEmpty)"
proof -
  note D = pq_okD [OF ok]
  let ?i = "unat (ph_head m) mod length (ph_entries m)"
  have i: "pq_slot q (ph_head m) = ?i" "?i < length (ph_entries m)" using D(1,4) by simp_all
  show "SC_Pop_batch (m, q) = Ret ((pq_popped m, q), Inr (ptrs (batch_at (p_at (m, q) (pH (m, q))))))"
    if "pH (m, q) < pT (m, q)"
    using pq_head_ok [OF ok that] i by (simp add: Let_def pq_popped_def)
  show "SC_Pop_batch (m, q) = Ret ((m, q), Inl kQueueEmpty)" if e: "pH (m, q) = pT (m, q)"
    using D(10) [of "pT (m, q)"] D(1) e i by (simp add: Let_def)
qed

lemma claim_tail_ok:
  assumes ok: "pq_ok (m, q)"
  obtains t where "unat t \<le> pH (m, q) + pN (m, q)" "claim_tail (m, q) =
    (if pT (m, q) < pH (m, q) + pN (m, q) then ((m\<lparr>ph_tail := ph_tail m + 1\<rparr>, q\<lparr>p_tail_threshold := t\<rparr>), Some (ph_tail m))
     else ((m, q\<lparr>p_tail_threshold := t\<rparr>), None))"
proof -
  note D = pq_okD [OF ok]
  have s: "unat (ph_head m + p_queue_size q) = pH (m, q) + pN (m, q)"
    using unat_add64 [of "ph_head m" "p_queue_size q"] D(3,6,8) by simp
  show thesis
  proof (cases "p_tail_threshold q \<le> ph_tail m")
    case True
    then show thesis using that [of "ph_head m + p_queue_size q"] s by (simp add: claim_tail_def Let_def word_le_nat_alt not_le)
  next
    case False
    then show thesis using that [of "p_tail_threshold q"] D(11) by (simp add: claim_tail_def Let_def word_le_nat_alt)
  qed
qed

lemma claim_head_ok:
  assumes ok: "pq_ok (m, q)"
  obtains t where "unat t \<le> pT (m, q)" "claim_head (m, q) =
    (if pH (m, q) < pT (m, q) then ((m\<lparr>ph_head := ph_head m + 1\<rparr>, q\<lparr>p_head_threshold := t\<rparr>), Some (ph_head m))
     else ((m, q\<lparr>p_head_threshold := t\<rparr>), None))"
proof (cases "p_head_threshold q \<le> ph_head m")
  case True
  then show thesis using that [of "ph_tail m"] by (simp add: claim_head_def Let_def word_le_nat_alt not_le)
next
  case False
  then show thesis using that [of "p_head_threshold q"] pq_okD(12) [OF ok] by (simp add: claim_head_def Let_def word_le_nat_alt)
qed

lemma take_slot_ok:
  assumes "pq_ok (m, q)" "pH (m, q) < pT (m, q)"
  shows "take_slot (pq_slot (q\<lparr>p_head_threshold := t\<rparr>) (ph_head m)) (m\<lparr>ph_head := ph_head m + 1\<rparr>, q\<lparr>p_head_threshold := t\<rparr>) =
    Ret ((pq_popped m, q\<lparr>p_head_threshold := t\<rparr>), Inr (ptrs (batch_at (p_at (m, q) (pH (m, q))))))"
  using pq_head_ok [OF assms] pq_okD(4) [OF assms(1), of "ph_head m"]
  by (simp add: take_slot_def pq_get_def pq_popped_def pq_clear_def pq_slot_def)

lemma MPSC_TryPush_batch_ok:
  assumes ok: "pq_ok (m, q)"
  shows "pT (m, q) < pH (m, q) + pN (m, q) \<Longrightarrow> \<exists>t. unat t \<le> pH (m, q) + pN (m, q) \<and>
      MPSC_TryPush_batch (m, q) (ptrs b) (of_nat (length (ptrs b))) =
        Ret ((pq_pushed b m, q\<lparr>p_tail_threshold := t\<rparr>), kSuccess, of_nat (length (ptrs b)))"
    and "pT (m, q) = pH (m, q) + pN (m, q) \<Longrightarrow> \<exists>t. unat t \<le> pH (m, q) + pN (m, q) \<and>
      MPSC_TryPush_batch (m, q) (ptrs b) (of_nat (length (ptrs b))) = Ret ((m, q\<lparr>p_tail_threshold := t\<rparr>), kQueueFull, 0)"
proof -
  obtain t where t: "unat t \<le> pH (m, q) + pN (m, q)" "claim_tail (m, q) =
    (if pT (m, q) < pH (m, q) + pN (m, q) then ((m\<lparr>ph_tail := ph_tail m + 1\<rparr>, q\<lparr>p_tail_threshold := t\<rparr>), Some (ph_tail m))
     else ((m, q\<lparr>p_tail_threshold := t\<rparr>), None))" using claim_tail_ok [OF ok] .
  have i: "pq_slot (q\<lparr>p_tail_threshold := t\<rparr>) (ph_tail m) = unat (ph_tail m) mod length (ph_entries m)"
    using pq_okD(4) [OF ok, of "ph_tail m"] by (simp add: pq_slot_def)
  show "\<exists>t. unat t \<le> pH (m, q) + pN (m, q) \<and> MPSC_TryPush_batch (m, q) (ptrs b) (of_nat (length (ptrs b))) =
        Ret ((pq_pushed b m, q\<lparr>p_tail_threshold := t\<rparr>), kSuccess, of_nat (length (ptrs b)))"
    if "pT (m, q) < pH (m, q) + pN (m, q)"
    using t that i pq_put_ok [OF ok, of b] pq_pushed_tail [of m b] by (intro exI [of _ t]) (simp add: batch_num pq_put_tail)
  show "\<exists>t. unat t \<le> pH (m, q) + pN (m, q) \<and>
      MPSC_TryPush_batch (m, q) (ptrs b) (of_nat (length (ptrs b))) = Ret ((m, q\<lparr>p_tail_threshold := t\<rparr>), kQueueFull, 0)"
    if "pT (m, q) = pH (m, q) + pN (m, q)"
    using t that by (intro exI [of _ t]) (simp add: batch_num)
qed

lemma SPMC_TryPop_batch_ok:
  assumes ok: "pq_ok (m, q)"
  shows "pH (m, q) < pT (m, q) \<Longrightarrow> \<exists>t. unat t \<le> pT (m, q) \<and> SPMC_TryPop_batch (m, q) =
        Ret ((pq_popped m, q\<lparr>p_head_threshold := t\<rparr>), Inr (ptrs (batch_at (p_at (m, q) (pH (m, q))))))"
    and "pH (m, q) = pT (m, q) \<Longrightarrow> \<exists>t. unat t \<le> pT (m, q) \<and>
      SPMC_TryPop_batch (m, q) = Ret ((m, q\<lparr>p_head_threshold := t\<rparr>), Inl kQueueEmpty)"
proof -
  obtain t where t: "unat t \<le> pT (m, q)" "claim_head (m, q) =
    (if pH (m, q) < pT (m, q) then ((m\<lparr>ph_head := ph_head m + 1\<rparr>, q\<lparr>p_head_threshold := t\<rparr>), Some (ph_head m))
     else ((m, q\<lparr>p_head_threshold := t\<rparr>), None))" using claim_head_ok [OF ok] .
  show "\<exists>t. unat t \<le> pT (m, q) \<and> SPMC_TryPop_batch (m, q) =
        Ret ((pq_popped m, q\<lparr>p_head_threshold := t\<rparr>), Inr (ptrs (batch_at (p_at (m, q) (pH (m, q))))))"
    if "pH (m, q) < pT (m, q)"
    using t that take_slot_ok [OF ok that] by (intro exI [of _ t]) simp
  show "\<exists>t. unat t \<le> pT (m, q) \<and> SPMC_TryPop_batch (m, q) = Ret ((m, q\<lparr>p_head_threshold := t\<rparr>), Inl kQueueEmpty)"
    if "pH (m, q) = pT (m, q)"
    using t that by (intro exI [of _ t]) simp
qed

lemma SP_Push_calls:
  assumes ok: "pq_ok (m, q)"
  shows "pT (m, q) < pH (m, q) + pN (m, q) \<Longrightarrow> \<exists>t. unat t \<le> pH (m, q) + pN (m, q) \<and>
      SP_Push_batch (m, q) (ptrs b) (of_nat (length (ptrs b))) =
        Ret ((pq_pushed b m, q\<lparr>p_tail_threshold := t\<rparr>), kSuccess, of_nat (length (ptrs b)))"
    and "pT (m, q) = pH (m, q) + pN (m, q) \<Longrightarrow> \<exists>t. unat t \<le> pH (m, q) + pN (m, q) \<and>
      SP_Push_batch (m, q) (ptrs b) (of_nat (length (ptrs b))) = Ret ((m, q\<lparr>p_tail_threshold := t\<rparr>), kQueueFull, 0)"
  using SP_Push_batch_ok [OF ok, of b] pq_okD(11) [OF ok] by (auto intro!: exI [of _ "p_tail_threshold q"])

lemma SC_Pop_calls:
  assumes ok: "pq_ok (m, q)"
  shows "pH (m, q) < pT (m, q) \<Longrightarrow> \<exists>t. unat t \<le> pT (m, q) \<and> SC_Pop_batch (m, q) =
        Ret ((pq_popped m, q\<lparr>p_head_threshold := t\<rparr>), Inr (ptrs (batch_at (p_at (m, q) (pH (m, q))))))"
    and "pH (m, q) = pT (m, q) \<Longrightarrow> \<exists>t. unat t \<le> pT (m, q) \<and>
      SC_Pop_batch (m, q) = Ret ((m, q\<lparr>p_head_threshold := t\<rparr>), Inl kQueueEmpty)"
  using SC_Pop_batch_ok [OF ok] pq_okD(12) [OF ok] by (auto intro!: exI [of _ "p_head_threshold q"] simp del: SC_Pop_batch.simps)

interpretation spsc_ptr: ptr_calls SP_Push_batch SC_Pop_batch
  by unfold_locales (rule SP_Push_calls SC_Pop_calls; assumption)+

interpretation mpsc_ptr: ptr_calls MPSC_TryPush_batch SC_Pop_batch
  by unfold_locales (rule MPSC_TryPush_batch_ok SC_Pop_calls; assumption)+

interpretation spmc_ptr: ptr_calls SP_Push_batch SPMC_TryPop_batch
  by unfold_locales (rule SP_Push_calls SPMC_TryPop_batch_ok; assumption)+

text \<open>
  The calls for single pointers put batches of one. A single pop takes the first pointer of a slot and gives up the others, as the
  comments of the classes say; queues used with single calls only never have others.
\<close>

locale ptr_single = ptr_calls push pop
  for push :: "'a ptr_queue \<Rightarrow> 'a list \<Rightarrow> u32 \<Rightarrow> ('a ptr_queue \<times> ErrorCode \<times> u32) run"
    and pop :: "'a ptr_queue \<Rightarrow> ('a ptr_queue \<times> (ErrorCode + 'a list)) run" +
  fixes push1 :: "'a ptr_queue \<Rightarrow> 'a \<Rightarrow> ('a ptr_queue \<times> ErrorCode) run"
    and pop1 :: "'a ptr_queue \<Rightarrow> ('a ptr_queue \<times> (ErrorCode + 'a)) run"
  assumes push1_batch: "push1 s x = batch_push push s (Batch [x])"
    and pop1_batch: "pq_ok s \<Longrightarrow> pop1 s = rbind (pop s) (\<lambda>(s', r). Ret (s', map_sum id hd r))"

lemma ptrs_Batch_single [simp]: "ptrs (Batch [x]) = [x]"
  by (simp add: Batch_inverse)

lemma batch_pop_Ret:
  assumes "batch_pop pop s = Ret (s', Inr y)" and sized: "\<And>s' xs. pop s = Ret (s', Inr xs) \<Longrightarrow> xs \<noteq> [] \<and> length xs \<le> 7"
  shows "pop s = Ret (s', Inr (ptrs y))"
proof -
  from assms(1) obtain r where r: "pop s = Ret (s', r)" "(case r of Inl ec \<Rightarrow> Inl ec | Inr xs \<Rightarrow> Inr (Batch xs)) = Inr y"
    by (auto simp: batch_pop_def rbind_Ret_iff)
  then obtain xs where "r = Inr xs" "y = Batch xs" by (cases r) auto
  then show ?thesis using r(1) sized [of s' xs] by (simp add: Batch_inverse)
qed

lemma batch_pop_Inl:
  assumes "batch_pop pop s = Ret (s', Inl ec)"
  shows "pop s = Ret (s', Inl ec)"
proof -
  from assms obtain r where r: "pop s = Ret (s', r)" "(case r of Inl ec \<Rightarrow> Inl ec | Inr xs \<Rightarrow> Inr (Batch xs)) = Inl ec"
    by (auto simp: batch_pop_def rbind_Ret_iff)
  then show ?thesis by (cases r) auto
qed

context ptr_calls
begin

lemma pop_sized:
  assumes "pq_ok s" "pop s = Ret (s', Inr xs)"
  shows "xs \<noteq> [] \<and> length xs \<le> 7"
proof -
  obtain m q where s: "s = (m, q)" by (cases s)
  have "pH (m, q) \<noteq> pT (m, q)" using ptr_empty [OF assms(1) [unfolded s]] assms(2) s by auto
  then have "pH (m, q) < pT (m, q)" using pq_okD(6) [OF assms(1)] s by simp
  from ptr_pop [OF assms(1) [unfolded s] this] assms(2) s have "xs = ptrs (batch_at (p_at (m, q) (pH (m, q))))" by auto
  then show ?thesis using ptrs by auto
qed

end

sublocale ptr_single \<subseteq> single: bounded_fifo push1 pop1 pq_ok "\<lambda>s. map (\<lambda>b. hd (ptrs b)) (pq_elems s)" pN pq_budget
proof (unfold_locales, goal_cases)
  case (1 s x)
  with push_room [OF 1(1,2), of "Batch [x]"] show ?case by (auto simp: push1_batch)
next
  case (2 s x)
  with push_full [OF 2(1), of "Batch [x]"] show ?case by (auto simp: push1_batch)
next
  case (3 s y ys)
  then obtain b bs where b: "pq_elems s = b # bs" "y = hd (ptrs b)" "ys = map (\<lambda>b. hd (ptrs b)) bs" by auto
  from pop_some [OF 3(1) b(1)] obtain s' where s': "batch_pop pop s = Ret (s', Inr b)" "pq_ok s'" "pq_elems s' = bs"
    "pN s' = pN s" "pq_budget s' = pq_budget s" by blast
  have "pop s = Ret (s', Inr (ptrs b))" using batch_pop_Ret [OF s'(1)] pop_sized [OF 3(1)] by blast
  then show ?case using s'(2-5) b pop1_batch [OF 3(1)] by (intro exI [of _ s']) simp
next
  case (4 s)
  then have "pq_elems s = []" by simp
  from pop_none [OF 4(1) this] obtain s' where s': "batch_pop pop s = Ret (s', Inl kQueueEmpty)" "pq_ok s'" "pq_elems s' = []"
    "pN s' = pN s" "pq_budget s' = pq_budget s" by blast
  from batch_pop_Inl [OF s'(1)] show ?case using s'(2-5) pop1_batch [OF 4(1)] by (intro exI [of _ s']) simp
next
  case (5 s)
  then show ?case using pq_lengths(2) by simp
qed

lemma push_single_eq:
  "SP_Push s x = batch_push SP_Push_batch s (Batch [x])" "MPSC_TryPush s x = batch_push MPSC_TryPush_batch s (Batch [x])"
proof -
  have n: "push_num 1 = 1" "peek 0 (Suc 0) [x] = Ret [x]" by (simp_all add: push_num_def peek_def)
  obtain m q where s: "s = (m, q)" by (cases s)
  show "SP_Push s x = batch_push SP_Push_batch s (Batch [x])"
    by (cases "aget (ph_entries m) (pq_slot q (ph_tail m))"; cases "pq_put (pq_slot q (ph_tail m)) [x] m")
      (simp_all add: s batch_push_def n Let_def)
  obtain m1 q1 r where c: "claim_tail s = ((m1, q1), r)" by (metis prod.exhaust)
  show "MPSC_TryPush s x = batch_push MPSC_TryPush_batch s (Batch [x])"
  proof (cases r)
    case None
    then show ?thesis using c by (simp add: batch_push_def)
  next
    case (Some t)
    then show ?thesis using c by (cases "pq_put (pq_slot q1 t) [x] m1") (simp_all add: batch_push_def n)
  qed
qed

lemma slot_first:
  assumes "pq_ok (m, q)" "pH (m, q) < pT (m, q)"
  shows "aget (pe_buffer (ph_entries m ! (unat (ph_head m) mod length (ph_entries m)))) 0 =
    Ret (hd (ptrs (batch_at (p_at (m, q) (pH (m, q))))))"
proof -
  let ?e = "ph_entries m ! (unat (ph_head m) mod length (ph_entries m))"
  have l: "length (pe_buffer ?e) = 7" using pq_okD(1,5) [OF assms(1)] by simp
  have f: "slot_full ?e" using pq_okD(9) [OF assms(1) order_refl assms(2)] by simp
  then have "ptrs (batch_at ?e) = take (unat (pe_size ?e)) (pe_buffer ?e)"
    using l unfolding batch_at_def by (intro Batch_inverse) (auto simp: slot_full_def)
  moreover have "hd (take (unat (pe_size ?e)) (pe_buffer ?e)) = pe_buffer ?e ! 0"
    using f l by (subst hd_conv_nth) (auto simp: slot_full_def)
  ultimately show ?thesis using l by simp
qed

lemma pop_single_eq:
  assumes "pq_ok s"
  shows "SC_Pop s = rbind (SC_Pop_batch s) (\<lambda>(s', r). Ret (s', map_sum id hd r))"
    and "SPMC_TryPop s = rbind (SPMC_TryPop_batch s) (\<lambda>(s', r). Ret (s', map_sum id hd r))"
proof -
  obtain m q where s: "s = (m, q)" by (cases s)
  have ok: "pq_ok (m, q)" using assms s by simp
  note D = pq_okD [OF ok]
  let ?i = "unat (ph_head m) mod length (ph_entries m)"
  have i: "pq_slot q (ph_head m) = ?i" "pq_slot (q\<lparr>p_head_threshold := t\<rparr>) (ph_head m) = ?i" "?i < length (ph_entries m)" for t
    using D(1,4) by (simp_all add: pq_slot_def)
  obtain t where t: "claim_head (m, q) =
    (if pH (m, q) < pT (m, q) then ((m\<lparr>ph_head := ph_head m + 1\<rparr>, q\<lparr>p_head_threshold := t\<rparr>), Some (ph_head m))
     else ((m, q\<lparr>p_head_threshold := t\<rparr>), None))" using claim_head_ok [OF ok] .
  show "SC_Pop s = rbind (SC_Pop_batch s) (\<lambda>(s', r). Ret (s', map_sum id hd r))"
  proof (cases "pH (m, q) < pT (m, q)")
    case True
    then have "pe_size (ph_entries m ! ?i) \<noteq> 0" using pq_head_ok(2) [OF ok True] by auto
    then show ?thesis using SC_Pop_batch_ok(1) [OF ok True] slot_first [OF ok True] i s
      by (simp add: Let_def pq_popped_def del: SC_Pop_batch.simps)
  next
    case False
    then have e: "pH (m, q) = pT (m, q)" using D(6) by simp
    then have "pe_size (ph_entries m ! ?i) = 0" using D(10) [of "pT (m, q)"] D(1) by simp
    then show ?thesis using SC_Pop_batch_ok(2) [OF ok e] i s by (simp add: Let_def del: SC_Pop_batch.simps)
  qed
  show "SPMC_TryPop s = rbind (SPMC_TryPop_batch s) (\<lambda>(s', r). Ret (s', map_sum id hd r))"
  proof (cases "pH (m, q) < pT (m, q)")
    case True
    then show ?thesis using t s i slot_first [OF ok True] take_slot_ok [OF ok True, of t]
      by (simp add: take_first_def pq_popped_def pq_clear_def)
  next
    case False
    then show ?thesis using t s by simp
  qed
qed

interpretation spsc_one: ptr_single SP_Push_batch SC_Pop_batch SP_Push SC_Pop
  by unfold_locales (rule push_single_eq pop_single_eq, assumption?)+


interpretation spmc_one: ptr_single SP_Push_batch SPMC_TryPop_batch SP_Push SPMC_TryPop
  by unfold_locales (rule push_single_eq pop_single_eq, assumption?)+

section \<open>A created queue\<close>

text \<open>The sizes a creator can serve: the bytes of the slots are counted in 32 bits, the block in 64.\<close>

definition pq_pre :: "platform \<Rightarrow> u32 \<Rightarrow> bool" where
  "pq_pre plat n \<longleftrightarrow> 0 < unat n \<and> unat n \<le> 2 ^ 31 \<and> unat (RoundToPowerOf2 n) * 64 < 2 ^ 32 \<and>
     unat (max (page_size plat) (sizeof_queue plat + sizeof_header plat)) + unat (RoundToPowerOf2 n) * 64 < 2 ^ 64"

lemma pq_Create_ok:
  assumes pre: "pq_pre plat n" and mem: "\<And>b. memalign_ok b"
  obtains s where "pq_Create plat memalign_ok junk name n = Ret (Some s)" "pq_ok s" "pq_elems s = []"
    "pN s = unat (RoundToPowerOf2 n)" "pq_budget s = 2 ^ 64 - 2 - unat (RoundToPowerOf2 n)"
proof -
  obtain k where k: "k \<le> 31" "RoundToPowerOf2 n = 2 ^ k" using pre RoundToPowerOf2_obtain [of n] by (auto simp: pq_pre_def)
  define hs where "hs = max (page_size plat) (sizeof_queue plat + sizeof_header plat)"
  have b: "2 ^ k * 64 < (2::nat) ^ 32" "unat hs + 2 ^ k * 64 < 2 ^ 64" using pre k by (simp_all add: pq_pre_def hs_def)
  have "unat (2 ^ k * 64 :: u32) = 2 ^ k * 64" using b(1) k by (simp add: unat_word_ariths)
  then have total: "unat (hs + ucast (2 ^ k * 64 :: u32)) = unat hs + 2 ^ k * 64"
    using b(2) unat_add64 [of hs "ucast (2 ^ k * 64 :: u32)"] by simp
  define es where "es = map (\<lambda>i. \<lparr>pe_size = 0, pe_buffer = map (junk i) [0..<7]\<rparr>) [0..<2 ^ k]"
  have "i * 64 + 8 \<le> 2 ^ k * 64" if "i < 2 ^ k" for i :: nat using that by simp
  then have ini: "pq_InitEntries (2 ^ k) (2 ^ k * 64) junk = Ret es"
    using k(1) by (simp add: pq_InitEntries_def es_def list_all_iff)
  define m where "m = \<lparr>ph_queue_name = name, ph_entry_size = 64, ph_queue_mask = 2 ^ k - 1, ph_queue_size = 2 ^ k,
    ph_tail = 1, ph_head = 1, ph_entries = es\<rparr>"
  have "GetBits (2 ^ 6) = Ret 6" by (rule GetBits_pow2) simp
  then obtain q where q: "pq_Init m = Ret q" "p_queue_mask q = ucast (2 ^ k - 1 :: u32)" "p_queue_size q = ucast (2 ^ k :: u32)"
    "p_head_threshold q = 1" "p_tail_threshold q = 1 + ucast (2 ^ k :: u32)" by (simp add: pq_Init_def m_def)
  have "(2::nat) ^ k \<le> 2 ^ 31" using k(1) by (intro power_increasing) auto
  then have w: "(ucast (2 ^ k - 1 :: u32) :: u64) = 2 ^ k - 1" "(ucast (2 ^ k :: u32) :: u64) = 2 ^ k"
    "unat (1 + ucast (2 ^ k :: u32) :: u64) = 1 + 2 ^ k"
    using k(1) unat_add64 [of 1 "ucast (2 ^ k :: u32)"] unfolding word_unat_eq_iff by (simp_all add: unat_pow2_minus_1)
  have "pq_Create plat memalign_ok junk name n = Ret (Some (m, q))"
    using mem ini total q(1) k(2) unfolding pq_Create_def Let_def hs_def [symmetric] m_def
    by (simp add: QUEUE_CURSOR_INIT_VALUE_def)
  moreover have "pq_ok (m, q)"
    using k(1) \<open>(2::nat) ^ k \<le> 2 ^ 31\<close> w(3) [unfolded w(2)] by (auto simp: pq_ok_def m_def q w(1,2) es_def)
  ultimately show thesis using that k by (simp add: pq_elems_def pq_budget_def m_def es_def)
qed



text \<open>More than seven pointers: a call puts the first seven and reports that number.\<close>

lemma push_batch_cut:
  assumes "7 < length xs" "length xs < 2 ^ 32"
  shows "SP_Push_batch s xs (of_nat (length xs)) = SP_Push_batch s (take 7 xs) 7"
    and "MPSC_TryPush_batch s xs (of_nat (length xs)) = MPSC_TryPush_batch s (take 7 xs) 7"
proof -
  have u: "unat (of_nat (length xs) :: u32) = length xs" using assms(2) by (rule unat_of_nat32)
  then have nz: "(of_nat (length xs) :: u32) \<noteq> 0" using assms(1) by auto
  have pn: "push_num (of_nat (length xs)) = 7" "push_num 7 = 7" using assms(1) by (simp_all add: push_num_def word_less_nat_alt u)
  have pk: "peek 0 7 xs = Ret (take 7 xs)" "peek 0 7 (take 7 xs) = Ret (take 7 xs)" using assms(1) by (simp_all add: peek_def)
  have u7: "unat (7::u32) = 7" by simp
  obtain m q where s: "s = (m, q)" by (cases s)
  show "SP_Push_batch s xs (of_nat (length xs)) = SP_Push_batch s (take 7 xs) 7"
    unfolding s SP_Push_batch.simps pn u7 pk using nz by simp
  show "MPSC_TryPush_batch s xs (of_nat (length xs)) = MPSC_TryPush_batch s (take 7 xs) 7"
    unfolding MPSC_TryPush_batch.simps pn u7 pk using nz by simp
qed

section \<open>Properties\<close>

text \<open>
  C20: created pointer queues are bounded first-in first-out buffers of batches of up to seven pointers: over any sequence of
  calls of each of the three classes (for several producers or consumers the calls that do not wait) every call returns,
  with the result of the abstract queue; a batch comes out whole and in order.
\<close>

theorem ptr_queue_fifo:
  assumes "pq_pre plat n" and "\<And>b. memalign_ok b" and "pushes ops \<le> 2 ^ 64 - 2 - unat (RoundToPowerOf2 n)"
  shows "\<exists>s s1 s2 s3. pq_Create plat memalign_ok junk name n = Ret (Some s) \<and>
    impl_run (batch_push SP_Push_batch) (batch_pop SC_Pop_batch) s ops =
      Ret (s1, snd (spec_run (unat (RoundToPowerOf2 n)) [] ops)) \<and>
    impl_run (batch_push MPSC_TryPush_batch) (batch_pop SC_Pop_batch) s ops =
      Ret (s2, snd (spec_run (unat (RoundToPowerOf2 n)) [] ops)) \<and>
    impl_run (batch_push SP_Push_batch) (batch_pop SPMC_TryPop_batch) s ops =
      Ret (s3, snd (spec_run (unat (RoundToPowerOf2 n)) [] ops))"
proof -
  obtain s where s: "pq_Create plat memalign_ok junk name n = Ret (Some s)" "pq_ok s" "pq_elems s = []"
    "pN s = unat (RoundToPowerOf2 n)" "pq_budget s = 2 ^ 64 - 2 - unat (RoundToPowerOf2 n)"
    using pq_Create_ok [OF assms(1,2), where junk = junk and name = name] .
  with spsc_ptr.run_refines [OF s(2), of ops] mpsc_ptr.run_refines [OF s(2), of ops] spmc_ptr.run_refines [OF s(2), of ops]
    assms(3) show ?thesis by auto
qed

definition ptr_platform :: platform where
  "ptr_platform = \<lparr>page_size = 4096, sizeof_header = 1024, sizeof_queue = 512\<rparr>"

lemma demo_ptr: "pq_pre ptr_platform 3" "RoundToPowerOf2 3 = 4"
  by (simp_all add: ptr_platform_def pq_pre_def RoundToPowerOf2_def smear_step_def Let_def drop_bit_eq_div)

theorem ptr_queue_fifo_witness:
  "\<exists>s s1 s2 s3. pq_Create ptr_platform (\<lambda>_. True) (\<lambda>_ _. 0::nat) ''p'' 3 = Ret (Some s) \<and>
    impl_run (batch_push SP_Push_batch) (batch_pop SC_Pop_batch) s [OpPush (Batch [5, 6]), OpPush (Batch [7]), OpPop] =
      Ret (s1, [OutPush kSuccess, OutPush kSuccess, OutPop (Inr (Batch [5, 6]))]) \<and>
    impl_run (batch_push MPSC_TryPush_batch) (batch_pop SC_Pop_batch) s [OpPush (Batch [5, 6]), OpPush (Batch [7]), OpPop] =
      Ret (s2, [OutPush kSuccess, OutPush kSuccess, OutPop (Inr (Batch [5, 6]))]) \<and>
    impl_run (batch_push SP_Push_batch) (batch_pop SPMC_TryPop_batch) s [OpPush (Batch [5, 6]), OpPush (Batch [7]), OpPop] =
      Ret (s3, [OutPush kSuccess, OutPush kSuccess, OutPop (Inr (Batch [5, 6]))])"
  using ptr_queue_fifo [OF demo_ptr(1), of "\<lambda>_. True" "[OpPush (Batch [5, 6]), OpPush (Batch [7]), OpPop]" "\<lambda>_ _. 0" "''p''"]
  by (simp add: demo_ptr(2) del: impl_run.simps)



end
