(* ===== verification/Spec2Isabelle.thy ===== *)
theory Spec2Isabelle
  imports Mpsc_Concurrent Reorder_Queue Reorder_Buffer Concurrent_Queue Array_Queue Bit_Map Index_Allocator Hash_Map
    Sequential_Cache Byte_Buffer Config_File Shm_Seq_Lock Wwf_Ring Unbounded_Queue Stream_Buffer
    Ptr_Queue
begin

text \<open>
  \<^bold>\<open>A verification of the message passing core of an application development kit.\<close>

  The program under \<^verbatim>\<open>src/ADK_CODE\<close> has two layers. The kit \<^verbatim>\<open>adk\<close> offers lock-free queues, in memory shared by threads or
  processes, containers, byte streams, calls between processes and configuration stored in executables. The framework
  \<^verbatim>\<open>aaf\<close> builds message processing applications on it; its sharding layer handles one ordered stream in several processes
  and puts the results back into order. The parts modelled here carry the messages and the numbers: what they promise is
  order, no loss, no duplication, bounded memory, and a result for every call.

  \<^bold>\<open>How code is modelled.\<close> A structure is a record, an enumeration a datatype, a machine integer a word of its width. A
  call returns a value of type \<^typ>\<open>'a run\<close>: a result, \<^const>\<open>Hang\<close> when it never returns unless another thread moves,
  \<^const>\<open>AssertFail\<close> when an assertion of the source fails, \<^const>\<open>Undef\<close> when it leaves an array or does what the language
  leaves undefined. A loop is a recursive function with a termination proof; one that may run forever is a partial function
  with an option, and that it ends is proved. Where the source is meant for several threads, the accesses to shared memory
  are single steps, interleaved in any order and sequentially consistent (the supported processors keep the order the
  source needs of them). Allocators, clocks, \<^verbatim>\<open>sizeof\<close>, hash functions, the kernel's answers to \<^verbatim>\<open>read\<close> and \<^verbatim>\<open>write\<close>, the
  encryption service and \<^verbatim>\<open>std::sort\<close> are arguments of the definitions that use them.

  \<^bold>\<open>Interfaces.\<close>

  \<^item> \<^verbatim>\<open>Fifo_Spec\<close>: a bounded queue as an abstract machine, a driver for sequences of calls, and the locale
    \<^verbatim>\<open>bounded_fifo\<close> with the laws of push and pop; \<^verbatim>\<open>viewed_fifo\<close> for calls on a richer state, \<^verbatim>\<open>blocking_fifo\<close> for those that
    wait. Every queue class is an interpretation, through \<^verbatim>\<open>ring_calls\<close> of \<^verbatim>\<open>Mpsc_Queue\<close> where it works on the common ring.
  \<^item> \<^verbatim>\<open>Reorder_Spec\<close>: a buffer that delivers by sequence number, the locale \<^verbatim>\<open>reorder_buffer\<close>.
  \<^item> The locales \<^verbatim>\<open>index_pool\<close>, \<^verbatim>\<open>kv_store\<close> and \<^verbatim>\<open>join_queue\<close> stand with the components that rely on them.

  \<^bold>\<open>The queues of\<close> \<^verbatim>\<open>include/adk/lock_free_msg_queue.h\<close> \<^bold>\<open>and\<close> \<^verbatim>\<open>src/lock_free_msg_queue.cpp\<close>.

  \<^item> \<^verbatim>\<open>Msg_Queue\<close>: the common memory (header with four cursors, ring of entries), \<^verbatim>\<open>Create\<close>, \<^verbatim>\<open>Init\<close>, \<^verbatim>\<open>Duplicate\<close>,
    \<^verbatim>\<open>Consistent\<close>, lengths and statistics.
  \<^item> \<^verbatim>\<open>Mpsc_Queue\<close>: \<^verbatim>\<open>MPSCQueue\<close> call by call, in its three families of calls. Any sequence of calls on a created queue answers
    as the abstract queue; nothing is lost; \<^verbatim>\<open>Head\<close> and \<^verbatim>\<open>Pop\<close> agree; after a crash \<^verbatim>\<open>Consistent\<close> and \<^verbatim>\<open>Init\<close> redeliver what was
    posted; the byte count of a very large ring wraps.
  \<^item> \<^verbatim>\<open>Mpsc_Concurrent\<close>: the same queue with any number of producers and a consumer interleaved: elements are taken in the
    order they were published, slots are exclusive, waiting producers do not deadlock, one that gives up blocks the rest.
  \<^item> \<^verbatim>\<open>Spsc_Queue\<close>: \<^verbatim>\<open>SPSCQueue\<close>, \<^verbatim>\<open>SPMCQueue\<close> and the variant \<^verbatim>\<open>Push2\<close>/\<^verbatim>\<open>Pop2\<close>. \<^verbatim>\<open>Reorder_Queue\<close>: \<^verbatim>\<open>ReorderPush\<close>/\<^verbatim>\<open>ReorderPop\<close> and
    \<^verbatim>\<open>SCSequentialQueue\<close>, which implement the reorder buffer.
  \<^item> \<^verbatim>\<open>Concurrent_Queue\<close>: \<^verbatim>\<open>ConcurrentQueue\<close> and \<^verbatim>\<open>Connector\<close>: a stream spread over parallel queues comes out in order; the
    counterpart of \<^verbatim>\<open>Fanout\<close> stops early.
  \<^item> \<^verbatim>\<open>Array_Queue\<close> (\<^verbatim>\<open>array_queue.h\<close>): one queue per thread with a priority table; the elements of a thread keep their order
    and an empty answer means that nothing is left.
  \<^item> \<^verbatim>\<open>Unbounded_Queue\<close> (\<^verbatim>\<open>lock_free_unbounded_queue.h\<close>): a chain of nodes in a heap, with a cache of unused nodes that is itself an
    \<^verbatim>\<open>SPSCQueue\<close>; any calls answer as an abstract queue that is never full, without a use of freed memory; access by number and
    traversal see its elements; failure of the allocator is not reported.
  \<^item> \<^verbatim>\<open>Ptr_Queue\<close> (\<^verbatim>\<open>lock_free_queue_variant.h\<close>): the pointer queues, whose slots hold batches of up to seven pointers; single and
    batch calls of the three classes answer as the abstract queue, of pointers and of batches.

  \<^bold>\<open>Other structures of the kit.\<close>

  \<^item> \<^verbatim>\<open>Wwf_Ring\<close> (\<^verbatim>\<open>writer_wait_free_ring_buffer.h\<close>, \<^verbatim>\<open>seq_lock.h\<close>): a writer that overwrites and a reader that notices, interleaved;
    no element is torn or repeated, a read returns; the recovery after a crash of the writer is wrong.
  \<^item> \<^verbatim>\<open>Bit_Map\<close>, \<^verbatim>\<open>Index_Allocator\<close>, \<^verbatim>\<open>Hash_Map\<close>: equivalence with a set of positions, a pool of indices, a map.
  \<^item> \<^verbatim>\<open>Sequential_Cache\<close>: producer, master and slaves over one array, with the hand-over through an event queue.
  \<^item> \<^verbatim>\<open>Byte_Buffer\<close> (\<^verbatim>\<open>spsc_byte_buffer\<close>): two buffers in turn are one stream of bytes.
  \<^item> \<^verbatim>\<open>Stream_Buffer\<close> (\<^verbatim>\<open>lock_free_stream_buffer.h\<close>): a ring of bytes with windows; the windows show the pending bytes as pushed, and a
    message no longer than the prefix can be had in one piece.
  \<^item> \<^verbatim>\<open>Ipc_Message\<close> (\<^verbatim>\<open>src/ipc_call\<close>) over \<^verbatim>\<open>Bytes\<close>: a call over two pipes is a function call; round trip of requests; the growth
    loop ends exactly for sizes up to 2 GiB.
  \<^item> \<^verbatim>\<open>Config_File\<close> (\<^verbatim>\<open>encrypt_config\<close>): what is stored in a program file, encrypted or not, is read back.

  \<^bold>\<open>The sharding layer of\<close> \<^verbatim>\<open>aaf\<close>.

  \<^item> \<^verbatim>\<open>Reorder_Buffer\<close> (\<^verbatim>\<open>sharding/reorder_buffer.h\<close>): the reported number never exceeds what arrived; it may be too small.
  \<^item> \<^verbatim>\<open>Shm_Seq_Lock\<close> (\<^verbatim>\<open>sharding/seq_lock.h\<close>): threads enter the section one at a time and in the order of their numbers; no number
    is forgotten unless somebody unlocks a ring size ahead.

  \<^bold>\<open>Bounds.\<close> Cursors are compared as plain 64-bit numbers, so the theorems on queues bound the number of pushes by what is left
  before a cursor wraps (\<^verbatim>\<open>pushes ops \<le> 2 ^ 64 - 2 - capacity\<close> for a new queue); the unbounded queue takes fewer than \<open>2 ^ 63\<close> pushes
  and the stream buffer as many bytes, the ring with a wait-free writer \<open>2 ^ 62\<close> elements, the sequence lock numbers below \<open>2 ^ 63 - 1\<close>. The loop of \<^verbatim>\<open>PushHead\<close> is bounded by the window and shown to end
  within it. Every other recursion is structural or has a measure.

  \<^bold>\<open>Not modelled.\<close> Third-party code kept in the tree (the JSON library, websocketpp, turtle, the InfiniBand and OpenOnload
  headers) and generated wrappers (\<^verbatim>\<open>adk_pack\<close>, \<^verbatim>\<open>src_pack\<close>). The network engine, RDMA, the web servers, logging, monitoring and
  time synchronisation are calls into the operating system around little logic of their own. The applications of \<^verbatim>\<open>aaf\<close>, its
  sharding agent and proxy and the tools (bridge, recorder) rest on a messaging library whose sources are not in the tree.
  Rate control computes with floating point numbers. Also left out, though within reach of the same style: the
  queue templates of \<^verbatim>\<open>lock_free_queue_variant.h\<close> and the chained queues over them, memory and object pools, \<^verbatim>\<open>UnboundedStreamBuffer\<close>, the channel in shared memory.
\<close>

end
